(* ===== verification/HQ_Prelude.thy ===== *)
theory HQ_Prelude
  imports Main "HOL-Library.Word"
begin

text \<open>
  Shared vocabulary of the development: the machine integer types of the program, the
  result type of code that can fault, singly linked segments threaded through a
  next-pointer function, and the facts on page masks that the memory components use.
  The configuration modelled is an x86-64 guest on an x86-64 host, so target_ulong,
  abi_ulong, ram_addr_t, target_phys_addr_t, tb_page_addr_t and unsigned long are all
  64 bits wide.
\<close>

unbundle bit_operations_syntax

section \<open>Machine types\<close>

type_synonym u8 = "8 word"
type_synonym u16 = "16 word"
type_synonym u32 = "32 word"
type_synonym u64 = "64 word"

section \<open>Faults\<close>

text \<open>
  What a C function can do instead of returning: dereference a null pointer, call abort,
  fail an assertion, leave the process, write outside an array, or run longer than the fuel
  of its model.
\<close>

datatype fault = NullDeref | Abort | AssertFail | Exit | OutOfBounds | NoFuel

type_synonym 'a result = "fault + 'a"

definition andthen :: "'a result \<Rightarrow> ('a \<Rightarrow> 'b result) \<Rightarrow> 'b result" where
  "andthen r f = (case r of Inl e \<Rightarrow> Inl e | Inr x \<Rightarrow> f x)"

lemma andthen_simps [simp]:
  "andthen (Inl e) f = Inl e"
  "andthen (Inr x) f = f x"
  by (simp_all add: andthen_def)

lemma andthen_eq_Inr [simp]:
  "andthen r f = Inr y \<longleftrightarrow> (\<exists>x. r = Inr x \<and> f x = Inr y)"
  by (cases r) simp_all

section \<open>Segments of linked lists\<close>

text \<open>
  The program threads its lists through fields of the elements. \<open>lseg nx p xs q\<close> says that
  following the next-pointer function \<open>nx\<close> from the pointer \<open>p\<close> visits the elements
  \<open>xs\<close> in order and then holds the pointer \<open>q\<close>.
\<close>

fun lseg :: "('k \<Rightarrow> 'k option) \<Rightarrow> 'k option \<Rightarrow> 'k list \<Rightarrow> 'k option \<Rightarrow> bool" where
  "lseg nx p [] q \<longleftrightarrow> p = q"
| "lseg nx p (x # xs) q \<longleftrightarrow> p = Some x \<and> lseg nx (nx x) xs q"

abbreviation chain :: "('k \<Rightarrow> 'k option) \<Rightarrow> 'k option \<Rightarrow> 'k list \<Rightarrow> bool" where
  "chain nx p xs \<equiv> lseg nx p xs None"

lemma lseg_append:
  "lseg nx p (xs @ ys) q \<longleftrightarrow> (\<exists>r. lseg nx p xs r \<and> lseg nx r ys q)"
  by (induction xs arbitrary: p) auto

lemma lseg_det: "lseg nx p xs q \<Longrightarrow> lseg nx p xs r \<Longrightarrow> q = r"
  by (induction xs arbitrary: p) auto

lemma lseg_cong:
  "(\<And>x. x \<in> set xs \<Longrightarrow> nx x = nx' x) \<Longrightarrow> lseg nx p xs q = lseg nx' p xs q"
  by (induction xs arbitrary: p) auto

lemma lseg_upd [simp]:
  "x \<notin> set xs \<Longrightarrow> lseg (nx(x := v)) p xs q = lseg nx p xs q"
  by (rule lseg_cong) auto

lemma chain_unique: "chain nx p xs \<Longrightarrow> chain nx p ys \<Longrightarrow> xs = ys"
proof (induction xs arbitrary: p ys)
  case Nil
  then show ?case by (cases ys) auto
next
  case (Cons x xs)
  then show ?case by (cases ys) auto
qed

lemma chain_distinct: "chain nx p xs \<Longrightarrow> distinct xs"
proof (induction xs arbitrary: p)
  case Nil
  then show ?case by simp
next
  case (Cons x xs)
  have "x \<notin> set xs"
  proof
    assume "x \<in> set xs"
    then obtain ys zs where xs: "xs = ys @ x # zs"
      by (auto dest: split_list)
    with Cons.prems obtain r where "lseg nx r (x # zs) None"
      by (auto simp: lseg_append)
    then have "chain nx (nx x) zs" by simp
    moreover from Cons.prems have "chain nx (nx x) xs" by simp
    ultimately have "zs = xs" by (rule chain_unique)
    with xs show False by (metis length_Cons length_append less_add_Suc2 nat_neq_iff)
  qed
  moreover from Cons.prems have "distinct xs" by (auto intro: Cons.IH)
  ultimately show ?case by simp
qed

text \<open>Pairs over two bounded ranges: at most \<open>m * n\<close> of them in a list without repeats.\<close>

lemma distinct_pairs_length:
  assumes "distinct xs" and "\<And>x. x \<in> set xs \<Longrightarrow> fst x < m \<and> snd x < n"
  shows "length xs \<le> m * n"
proof -
  have "set xs \<subseteq> {..<m} \<times> {..<n}" using assms(2) by (auto simp: mem_Times_iff)
  then have "card (set xs) \<le> card ({..<m} \<times> {..<n})" by (intro card_mono) auto
  with assms(1) show ?thesis by (simp add: distinct_card card_cartesian_product)
qed

lemma distinct_nats_length:
  assumes "distinct xs" and "\<And>x. x \<in> set xs \<Longrightarrow> x < (m::nat)"
  shows "length xs \<le> m"
proof -
  have "set xs \<subseteq> {..<m}" using assms(2) by auto
  then have "card (set xs) \<le> card {..<m}" by (intro card_mono) auto
  with assms(1) show ?thesis by (simp add: distinct_card)
qed

section \<open>Arithmetic\<close>

text \<open>Two numbers split at the same base agree exactly when both parts agree.\<close>

lemma digits_eq_iff:
  fixes N :: nat
  assumes "b < N" and "b' < N"
  shows "N * a + b = N * a' + b' \<longleftrightarrow> a = a' \<and> b = b'"
proof
  assume e: "N * a + b = N * a' + b'"
  have "a = (N * a + b) div N" using assms by simp
  also have "\<dots> = a'" using e assms by simp
  finally show "a = a' \<and> b = b'" using e by simp
qed simp

section \<open>Masks\<close>

lemma and_not_mask: "w AND NOT (mask n) = push_bit n (drop_bit n (w::'a::len word))"
  by (rule bit_word_eqI) (auto simp: bit_simps)

lemma unat_and_mask: "unat (w AND mask n) = unat (w::'a::len word) mod 2 ^ n"
proof -
  have "unat (take_bit n w) = take_bit n (unat w)" by (rule unsigned_take_bit_eq)
  then show ?thesis by (simp only: take_bit_eq_mask [symmetric] take_bit_nat_def)
qed

lemma unat_drop_bit: "unat (drop_bit n (w::'a::len word)) = unat w div 2 ^ n"
  by (simp only: unat_drop_bit_eq drop_bit_nat_def)

lemma mask_split: "(w AND NOT (mask n)) + (w AND mask n) = (w::'a::len word)"
  by (simp only: and_not_mask take_bit_eq_mask [symmetric] bits_ident)

lemma unat_and_not_mask: "unat (w AND NOT (mask n)) = unat (w::'a::len word) div 2 ^ n * 2 ^ n"
proof -
  have "w AND NOT (mask n) = w - (w AND mask n)" using mask_split [of w n] by (simp add: eq_diff_eq)
  moreover have "w AND mask n \<le> w" by (simp add: word_and_le2)
  ultimately have "unat (w AND NOT (mask n)) = unat w - unat w mod 2 ^ n"
    by (simp add: unat_sub unat_and_mask)
  then show ?thesis by (simp add: minus_mod_eq_div_mult)
qed

text \<open>The same for the twelve bits of a page offset; the simplifier writes NOT 0xFFF as - 4096.\<close>

lemma mask12: "mask 12 = (0xFFF :: 'a::len word)"
  by (simp add: mask_eq_exp_minus_1)

lemmas unat_and_FFF = unat_and_mask [where n = 12, unfolded mask12, simplified]
lemmas unat_and_not_FFF = unat_and_not_mask [where n = 12, unfolded mask12, simplified]
lemmas page_split = mask_split [where n = 12, unfolded mask12, simplified]
lemmas unat_drop12 = unat_drop_bit [where n = 12, simplified]
lemmas page_unat = unat_and_FFF unat_and_not_FFF unat_drop12

lemma bit_FFF: "bit (a AND 0xFFF :: 'a::len word) n \<longleftrightarrow> bit a n \<and> n < 12"
  unfolding mask12 [symmetric] by (auto simp: bit_simps dest: bit_imp_le_length)

lemma bit_not_FFF: "bit (a AND - 4096 :: 'a::len word) n \<longleftrightarrow> bit a n \<and> 12 \<le> n"
proof -
  have "(- 4096 :: 'a word) = NOT (mask 12)" by (simp add: mask12)
  then have "a AND - 4096 = a AND NOT (mask 12)" by simp
  then show ?thesis by (auto simp: bit_simps dest: bit_imp_le_length)
qed

lemma same_page_bit: "a AND - 4096 = (b :: 'a::len word) AND - 4096 \<Longrightarrow> 12 \<le> n \<Longrightarrow> bit a n = bit b n"
  using bit_not_FFF [of a n] bit_not_FFF [of b n] by auto

lemma same_page_drop: "a AND - 4096 = (b :: u64) AND - 4096 \<Longrightarrow> drop_bit 12 a = drop_bit 12 b"
  by (rule bit_word_eqI) (simp only: bit_drop_bit_eq o_def, rule same_page_bit, auto)

section \<open>Ranges of addresses\<close>

lemma in_range_unat:
  fixes a p l :: u64
  assumes "unat p + unat l \<le> 2 ^ 64"
  shows "a - p < l \<longleftrightarrow> unat p \<le> unat a \<and> unat a < unat p + unat l"
proof (cases "p \<le> a")
  case True
  then show ?thesis by (auto simp: word_less_nat_alt word_le_nat_alt unat_sub)
next
  case False
  then have lt: "unat a < unat p" by (simp add: word_le_nat_alt)
  then have "unat (a - p) = 2 ^ 64 + unat a - unat p"
    by (simp add: unat_sub_if' )
  with lt assms show ?thesis by (simp add: word_less_nat_alt)
qed

lemma unat_less_u64: "unat (w :: u64) < 2 ^ 64"
  using unsigned_less [of w] by simp

lemma unat_max_u64: "unat (- 1 :: u64) = 2 ^ 64 - 1"
  by (simp add: unsigned_minus_1_eq_mask mask_eq_exp_minus_1)

end
