(* ===== verification/Page_Map.thy ===== *)
theory Page_Map
  imports HQ_Prelude
begin

text \<open>
  The multi-level page tables of exec.c: l1_map, whose leaves hold PageDesc records for
  translated code, and l1_phys_map, whose leaves hold PhysPageDesc records for the guest
  physical address space. A table slot is null, a directory of L2_SIZE slots, or an array
  of L2_SIZE descriptors. A pointer to a descriptor is the path of table indexes that
  leads to it. Both tables are shown to implement one interface, a partial map from page
  indexes to descriptors.
\<close>

section \<open>Descriptors and tables\<close>

text \<open>
  A tagged pointer of exec.c, \<open>(TranslationBlock *)((long)tb | n)\<close>: the index of the block
  in \<open>tbs\<close> with the tag in the two low bits; \<open>None\<close> is NULL.
\<close>

type_synonym tbptr = "nat option"
type_synonym tagptr = "(nat \<times> nat) option"

text \<open>The member \<open>flags\<close> of the C structure exists in the user-mode build only; this is the system emulator.\<close>

record PageDesc =
  first_tb :: tagptr
  code_write_count :: u32
  code_bitmap :: "u8 list option"

record PhysPageDesc =
  phys_offset :: u64
  region_offset :: u64

definition PageDesc_zero :: PageDesc where
  "PageDesc_zero = \<lparr>first_tb = None, code_write_count = 0, code_bitmap = None\<rparr>"

abbreviation (input) TARGET_PAGE_BITS :: nat where "TARGET_PAGE_BITS \<equiv> 12"
abbreviation (input) TARGET_PAGE_SIZE :: "'a::len word" where "TARGET_PAGE_SIZE \<equiv> 0x1000"
abbreviation (input) TARGET_PAGE_MASK :: "'a::len word" where "TARGET_PAGE_MASK \<equiv> NOT 0xFFF"
abbreviation (input) L2_BITS :: nat where "L2_BITS \<equiv> 10"
abbreviation (input) L2_SIZE :: nat where "L2_SIZE \<equiv> 1024"

text \<open>P_L1_BITS and V_L1_BITS: what remains above the lower levels, and a whole level more
  when that is less than four bits.\<close>

definition L1_BITS :: "nat \<Rightarrow> nat" where
  "L1_BITS space = (let rem = (space - TARGET_PAGE_BITS) mod L2_BITS
                    in if rem < 4 then rem + L2_BITS else rem)"

definition L1_SHIFT :: "nat \<Rightarrow> nat" where
  "L1_SHIFT space = space - TARGET_PAGE_BITS - L1_BITS space"

text \<open>
  L1_MAP_ADDR_SPACE_BITS of the system emulator, which indexes l1_map by RAM offsets, and
  TARGET_PHYS_ADDR_SPACE_BITS; both are 52 for an x86-64 guest on a 64-bit host.
\<close>

abbreviation (input) V_SPACE :: nat where "V_SPACE \<equiv> 52"
abbreviation (input) P_SPACE :: nat where "P_SPACE \<equiv> 52"

datatype 'd lnode = LNull | LDir "nat \<Rightarrow> 'd lnode" | LLeaf "nat \<Rightarrow> 'd"

type_synonym 'd l1map = "nat \<Rightarrow> 'd lnode"
type_synonym pdptr = "nat list"

section \<open>Walking the table\<close>

text \<open>
  The loop over levels 2..N-1 and the last step of page_find_alloc. The result is the new
  content of the slot \<open>*lp\<close>; \<open>None\<close> is the early \<open>return NULL\<close> of a search that may not
  allocate. A slot that holds a directory where the depth says a leaf, or the other way
  round, does not occur in a table built by these functions.
\<close>

fun l2_walk :: "(nat \<Rightarrow> 'd) \<Rightarrow> bool \<Rightarrow> nat \<Rightarrow> nat \<Rightarrow> 'd lnode \<Rightarrow> 'd lnode option" where
  "l2_walk init alloc 0 index lp =
     (case lp of
        LNull \<Rightarrow> if alloc then Some (LLeaf init) else None
      | LLeaf pd \<Rightarrow> Some (LLeaf pd)
      | LDir p \<Rightarrow> None)"
| "l2_walk init alloc (Suc i) index lp =
     (case (case lp of
              LNull \<Rightarrow> if alloc then Some (\<lambda>_. LNull) else None
            | LDir p \<Rightarrow> Some p
            | LLeaf pd \<Rightarrow> None) of
        None \<Rightarrow> None
      | Some p \<Rightarrow>
          (let j = (index div 2 ^ (Suc i * L2_BITS)) mod L2_SIZE
           in case l2_walk init alloc i index (p j) of
                None \<Rightarrow> None
              | Some n \<Rightarrow> Some (LDir (p(j := n)))))"

fun slot_path :: "nat \<Rightarrow> nat \<Rightarrow> pdptr" where
  "slot_path 0 index = [index mod L2_SIZE]"
| "slot_path (Suc i) index = (index div 2 ^ (Suc i * L2_BITS)) mod L2_SIZE # slot_path i index"

text \<open>Reading and writing through a descriptor pointer.\<close>

fun node_get :: "'d lnode \<Rightarrow> nat list \<Rightarrow> 'd option" where
  "node_get (LLeaf pd) [j] = Some (pd j)"
| "node_get (LDir p) (j # js) = node_get (p j) js"
| "node_get _ _ = None"

fun node_put :: "'d lnode \<Rightarrow> nat list \<Rightarrow> 'd \<Rightarrow> 'd lnode" where
  "node_put (LLeaf pd) [j] d = LLeaf (pd(j := d))"
| "node_put (LDir p) (j # js) d = LDir (p(j := node_put (p j) js d))"
| "node_put n _ d = n"

fun pd_get :: "'d l1map \<Rightarrow> pdptr \<Rightarrow> 'd option" where
  "pd_get m [] = None"
| "pd_get m (j # js) = node_get (m j) js"

fun pd_put :: "'d l1map \<Rightarrow> pdptr \<Rightarrow> 'd \<Rightarrow> 'd l1map" where
  "pd_put m [] d = m"
| "pd_put m (j # js) d = m(j := node_put (m j) js d)"

definition find_alloc ::
  "nat \<Rightarrow> (nat \<Rightarrow> nat \<Rightarrow> 'd) \<Rightarrow> 'd l1map \<Rightarrow> nat \<Rightarrow> bool \<Rightarrow> 'd l1map \<times> pdptr option" where
  "find_alloc space init m index alloc =
     (let j = (index div 2 ^ L1_SHIFT space) mod 2 ^ L1_BITS space;
          n = L1_SHIFT space div L2_BITS - 1
      in case l2_walk (init index) alloc n index (m j) of
           None \<Rightarrow> (m, None)
         | Some nd \<Rightarrow> (m(j := nd), Some (j # slot_path n index)))"

definition page_find_alloc :: "PageDesc l1map \<Rightarrow> nat \<Rightarrow> bool \<Rightarrow> PageDesc l1map \<times> pdptr option" where
  "page_find_alloc m index alloc = find_alloc V_SPACE (\<lambda>_ _. PageDesc_zero) m index alloc"

definition page_find :: "PageDesc l1map \<Rightarrow> nat \<Rightarrow> pdptr option" where
  "page_find m index = snd (page_find_alloc m index False)"

abbreviation (input) IO_MEM_SHIFT :: nat where "IO_MEM_SHIFT \<equiv> 3"
abbreviation (input) IO_MEM_RAM :: u64 where "IO_MEM_RAM \<equiv> 0"
abbreviation (input) IO_MEM_ROM :: u64 where "IO_MEM_ROM \<equiv> 8"
abbreviation (input) IO_MEM_UNASSIGNED :: u64 where "IO_MEM_UNASSIGNED \<equiv> 16"
abbreviation (input) IO_MEM_NOTDIRTY :: u64 where "IO_MEM_NOTDIRTY \<equiv> 24"

text \<open>A fresh leaf of the physical table, filled from the index that was asked for.\<close>

definition phys_leaf :: "nat \<Rightarrow> nat \<Rightarrow> PhysPageDesc" where
  "phys_leaf index i = \<lparr>phys_offset = IO_MEM_UNASSIGNED,
                        region_offset = push_bit TARGET_PAGE_BITS (of_nat (index + i))\<rparr>"

definition phys_page_find_alloc ::
  "PhysPageDesc l1map \<Rightarrow> nat \<Rightarrow> bool \<Rightarrow> PhysPageDesc l1map \<times> pdptr option" where
  "phys_page_find_alloc m index alloc = find_alloc P_SPACE phys_leaf m index alloc"

definition phys_page_find :: "PhysPageDesc l1map \<Rightarrow> nat \<Rightarrow> pdptr option" where
  "phys_page_find m index = snd (phys_page_find_alloc m index False)"

section \<open>Dropping the translated code of every page\<close>

definition invalidate_page_bitmap :: "PageDesc \<Rightarrow> PageDesc" where
  "invalidate_page_bitmap p = p\<lparr>code_bitmap := None, code_write_count := 0\<rparr>"

fun page_flush_tb_1 :: "nat \<Rightarrow> PageDesc lnode \<Rightarrow> PageDesc lnode" where
  "page_flush_tb_1 level LNull = LNull"
| "page_flush_tb_1 0 (LLeaf pd) =
     LLeaf (\<lambda>i. if i < L2_SIZE then invalidate_page_bitmap ((pd i)\<lparr>first_tb := None\<rparr>) else pd i)"
| "page_flush_tb_1 (Suc level) (LDir pp) =
     LDir (\<lambda>i. if i < L2_SIZE then page_flush_tb_1 level (pp i) else pp i)"
| "page_flush_tb_1 level lp = lp"

definition page_flush_tb :: "PageDesc l1map \<Rightarrow> PageDesc l1map" where
  "page_flush_tb m = (\<lambda>i. if i < 2 ^ L1_BITS V_SPACE
                          then page_flush_tb_1 (L1_SHIFT V_SPACE div L2_BITS - 1) (m i) else m i)"

section \<open>Well-formed tables\<close>

fun wf_node :: "nat \<Rightarrow> 'd lnode \<Rightarrow> bool" where
  "wf_node i LNull = True"
| "wf_node 0 (LLeaf pd) = True"
| "wf_node (Suc i) (LDir p) = (\<forall>j. wf_node i (p j))"
| "wf_node _ _ = False"

definition levels :: "nat \<Rightarrow> nat" where
  "levels space = L1_SHIFT space div L2_BITS - 1"

definition wf_map :: "nat \<Rightarrow> 'd l1map \<Rightarrow> bool" where
  "wf_map space m \<longleftrightarrow> (\<forall>j. wf_node (levels space) (m j))"

definition path_of :: "nat \<Rightarrow> nat \<Rightarrow> pdptr" where
  "path_of space index =
     (index div 2 ^ L1_SHIFT space) mod 2 ^ L1_BITS space # slot_path (levels space) index"

lemma L1_split:
  assumes "32 \<le> space"
  shows "L1_SHIFT space = 10 * Suc (levels space)"
    and "space - 12 = L1_SHIFT space + L1_BITS space"
proof -
  let ?s = "space - 12"
  have s: "20 \<le> ?s" using assms by simp
  have d: "?s = 10 * (?s div 10) + ?s mod 10" by simp
  have q: "2 \<le> ?s div 10" using s by simp
  show sh: "L1_SHIFT space = 10 * Suc (levels space)"
  proof (cases "?s mod 10 < 4")
    case True
    then have "L1_SHIFT space = ?s - (?s mod 10 + 10)" by (simp add: L1_SHIFT_def L1_BITS_def)
    also have "\<dots> = 10 * (?s div 10 - 1)" using d q by arith
    finally have e: "L1_SHIFT space = 10 * (?s div 10 - 1)" .
    then have "levels space = ?s div 10 - 2" by (simp add: levels_def)
    then have "Suc (levels space) = ?s div 10 - 1" using q by arith
    with e show ?thesis by simp
  next
    case False
    then have "L1_SHIFT space = ?s - ?s mod 10" by (simp add: L1_SHIFT_def L1_BITS_def)
    also have "\<dots> = 10 * (?s div 10)" using d by arith
    finally have e: "L1_SHIFT space = 10 * (?s div 10)" .
    then have "levels space = ?s div 10 - 1" by (simp add: levels_def)
    with e q show ?thesis by simp
  qed
  show "?s = L1_SHIFT space + L1_BITS space"
    using s by (auto simp: L1_SHIFT_def L1_BITS_def Let_def)
qed

section \<open>One subtree\<close>

lemma l2_walk_find: "l2_walk init False n idx nd = Some nd' \<Longrightarrow> nd' = nd"
proof (induction n arbitrary: nd nd')
  case 0
  then show ?case by (auto split: lnode.splits)
next
  case (Suc n)
  then show ?case by (fastforce split: lnode.splits option.splits simp: Let_def)
qed

lemma l2_walk_alloc:
  "wf_node n nd \<Longrightarrow> \<exists>nd'. l2_walk init True n idx nd = Some nd' \<and> wf_node n nd'"
proof (induction n arbitrary: nd)
  case 0
  then show ?case by (cases nd) auto
next
  case (Suc n)
  define p where "p = (case nd of LDir p \<Rightarrow> p | _ \<Rightarrow> (\<lambda>_. LNull))"
  define j where "j = (idx div 2 ^ (Suc n * L2_BITS)) mod L2_SIZE"
  have wp: "\<And>k. wf_node n (p k)" using Suc.prems by (cases nd) (auto simp: p_def)
  obtain nd' where nd': "l2_walk init True n idx (p j) = Some nd'" "wf_node n nd'"
    using Suc.IH wp by blast
  have "l2_walk init True (Suc n) idx nd = Some (LDir (p(j := nd')))"
    using Suc.prems nd' by (cases nd) (auto simp: p_def j_def Let_def)
  moreover have "wf_node (Suc n) (LDir (p(j := nd')))" using wp nd' by simp
  ultimately show ?case by blast
qed

lemma l2_walk_None_iff:
  "wf_node n nd \<Longrightarrow> l2_walk init False n idx nd = None \<longleftrightarrow> node_get nd (slot_path n idx) = None"
proof (induction n arbitrary: nd)
  case 0
  then show ?case by (cases nd) auto
next
  case (Suc n)
  show ?case
  proof (cases nd)
    case (LDir p)
    let ?j = "(idx div 2 ^ (Suc n * L2_BITS)) mod L2_SIZE"
    have "wf_node n (p ?j)" using Suc.prems LDir by simp
    from Suc.IH [OF this] LDir show ?thesis
      by (cases "l2_walk init False n idx (p ?j)") (auto simp: Let_def)
  qed (use Suc.prems in auto)
qed

lemma node_get_Null [simp]: "node_get LNull js = None"
  by (cases js) auto

lemma node_get_alloc:
  "wf_node n nd \<Longrightarrow> l2_walk init True n i nd = Some nd' \<Longrightarrow>
   node_get nd' (slot_path n k) =
     (case node_get nd (slot_path n k) of
        Some d \<Rightarrow> Some d
      | None \<Rightarrow> if butlast (slot_path n i) = butlast (slot_path n k)
                then Some (init (k mod L2_SIZE)) else None)"
proof (induction n arbitrary: nd nd')
  case 0
  then show ?case by (cases nd) auto
next
  case (Suc n)
  define p where "p = (case nd of LDir p \<Rightarrow> p | _ \<Rightarrow> (\<lambda>_. LNull))"
  define j where "j = (i div 2 ^ (Suc n * L2_BITS)) mod L2_SIZE"
  define jk where "jk = (k div 2 ^ (Suc n * L2_BITS)) mod L2_SIZE"
  have wp: "wf_node n (p j)" using Suc.prems by (cases nd) (auto simp: p_def)
  have "\<exists>nd1. l2_walk init True n i (p j) = Some nd1 \<and> nd' = LDir (p(j := nd1))"
    using Suc.prems by (cases nd) (auto simp: p_def j_def Let_def split: option.splits)
  then obtain nd1 where nd1: "l2_walk init True n i (p j) = Some nd1" "nd' = LDir (p(j := nd1))"
    by blast
  have old: "node_get nd (slot_path (Suc n) k) = node_get (p jk) (slot_path n k)"
    using Suc.prems by (cases nd) (auto simp: p_def jk_def)
  have ne: "slot_path n i \<noteq> []" "slot_path n k \<noteq> []" by (cases n; simp)+
  show ?case
  proof (cases "j = jk")
    case True
    with Suc.IH [OF wp nd1(1)] nd1(2) old ne show ?thesis
      by (simp add: jk_def j_def split: option.splits)
  next
    case False
    then have "butlast (slot_path (Suc n) i) \<noteq> butlast (slot_path (Suc n) k)"
      using ne by (simp add: j_def jk_def)
    with False nd1(2) old show ?thesis by (simp add: jk_def split: option.splits)
  qed
qed

lemma node_get_put:
  "node_get (node_put nd js d) ks =
     (if js = ks then map_option (\<lambda>_. d) (node_get nd js) else node_get nd ks)"
proof (induction nd js d arbitrary: ks rule: node_put.induct)
  case (1 pd j d)
  show ?case by (cases ks rule: list.exhaust; cases "tl ks") auto
next
  case (2 p j js d)
  then show ?case by (cases ks) auto
qed auto

lemma wf_node_put: "wf_node n nd \<Longrightarrow> wf_node n (node_put nd js d)"
proof (induction n arbitrary: nd js)
  case 0
  then show ?case by (cases nd; cases js; cases "tl js") auto
next
  case (Suc n)
  then show ?case by (cases nd; cases js) auto
qed

section \<open>The whole table\<close>

lemma find_alloc_eq:
  "find_alloc space init m i alloc =
     (case l2_walk (init i) alloc (levels space) i (m (hd (path_of space i))) of
        None \<Rightarrow> (m, None)
      | Some nd \<Rightarrow> (m(hd (path_of space i) := nd), Some (path_of space i)))"
  by (simp add: find_alloc_def levels_def path_of_def Let_def split: option.split)

lemma pd_get_path_of:
  "pd_get m (path_of space i) = node_get (m (hd (path_of space i))) (slot_path (levels space) i)"
  by (simp add: path_of_def)

lemma find_pure:
  "find_alloc space init m i False = (m', r) \<Longrightarrow> m' = m"
  by (auto simp: find_alloc_eq split: option.splits dest!: l2_walk_find)

lemma find_iff:
  assumes "wf_map space m"
  shows "snd (find_alloc space init m i False) =
           (if pd_get m (path_of space i) = None then None else Some (path_of space i))"
  using assms l2_walk_None_iff [of "levels space" "m (hd (path_of space i))" "init i" i]
  by (auto simp: find_alloc_eq wf_map_def pd_get_path_of split: option.splits)

lemma alloc_ex:
  assumes "wf_map space m"
  shows "\<exists>m'. find_alloc space init m i True = (m', Some (path_of space i)) \<and> wf_map space m'"
proof -
  from assms have "wf_node (levels space) (m (hd (path_of space i)))" by (simp add: wf_map_def)
  from l2_walk_alloc [OF this, of "init i" i] assms show ?thesis
    by (auto simp: find_alloc_eq wf_map_def)
qed

lemma power_1024: "(2::nat) ^ (10 * k) = 1024 ^ k"
  by (simp add: power_mult)

lemma slot_path_eq_iff:
  "slot_path n i = slot_path n k \<longleftrightarrow> i mod 1024 ^ Suc n = k mod 1024 ^ Suc n"
proof (induction n)
  case 0
  show ?case by simp
next
  case (Suc n)
  have e: "(2::nat) ^ (Suc n * 10) = 1024 ^ Suc n"
    by (metis power_1024 mult.commute)
  have split: "x mod 1024 ^ Suc (Suc n) =
      1024 ^ Suc n * (x div 1024 ^ Suc n mod 1024) + x mod 1024 ^ Suc n" for x :: nat
    using mod_mult2_eq [of x "1024 ^ Suc n" 1024] by (simp add: mult.commute)
  have lt: "x mod 1024 ^ Suc n < 1024 ^ Suc n" for x :: nat by simp
  have "(i div 1024 ^ Suc n mod 1024 = k div 1024 ^ Suc n mod 1024 \<and>
         i mod 1024 ^ Suc n = k mod 1024 ^ Suc n) =
        (i mod 1024 ^ Suc (Suc n) = k mod 1024 ^ Suc (Suc n))"
    unfolding split by (simp only: digits_eq_iff [OF lt lt])
  with Suc.IH show ?case by (simp only: slot_path.simps e list.inject)
qed

lemma butlast_slot_path: "butlast (slot_path (Suc n) i) = slot_path n (i div 1024)"
proof (induction n)
  case 0
  show ?case by simp
next
  case (Suc n)
  have "i div 2 ^ (Suc (Suc n) * 10) = i div 1024 div 2 ^ (Suc n * 10)"
    by (simp add: div_mult2_eq [symmetric] power_add)
  moreover have "slot_path (Suc n) i \<noteq> []" by simp
  ultimately show ?case using Suc.IH by (simp only: slot_path.simps(2) [of "Suc n"] butlast.simps
        slot_path.simps(2) [of n "i div 1024"] if_False)
qed

lemma same_leaf_iff:
  "butlast (slot_path n i) = butlast (slot_path n k) \<longleftrightarrow>
     (i div 1024) mod 1024 ^ n = (k div 1024) mod 1024 ^ n"
proof (cases n)
  case 0
  then show ?thesis by simp
next
  case (Suc n')
  then show ?thesis by (simp only: butlast_slot_path slot_path_eq_iff)
qed

lemma index_split:
  fixes i :: nat
  assumes "32 \<le> space" and "i < 2 ^ (space - 12)"
  shows "i div 2 ^ L1_SHIFT space mod 2 ^ L1_BITS space = i div 1024 ^ Suc (levels space)"
proof -
  have e: "(2::nat) ^ L1_SHIFT space = 1024 ^ Suc (levels space)"
    using L1_split(1) [OF assms(1)] by (simp only: power_1024)
  have "i < 2 ^ (L1_SHIFT space + L1_BITS space)" using assms L1_split(2) by simp
  then have "i div 2 ^ L1_SHIFT space < 2 ^ L1_BITS space"
    by (simp add: less_mult_imp_div_less power_add mult.commute)
  then show ?thesis by (simp add: e)
qed

lemma path_of_inj:
  assumes "32 \<le> space" and "i < 2 ^ (space - 12)" and "k < 2 ^ (space - 12)"
  shows "path_of space i = path_of space k \<longleftrightarrow> i = k"
proof
  assume "path_of space i = path_of space k"
  then have "i div 1024 ^ Suc (levels space) = k div 1024 ^ Suc (levels space)"
    and "i mod 1024 ^ Suc (levels space) = k mod 1024 ^ Suc (levels space)"
    using assms by (simp_all add: path_of_def slot_path_eq_iff index_split del: power_Suc)
  then show "i = k" by (metis div_mult_mod_eq)
qed simp

lemma same_leaf_path:
  assumes "32 \<le> space" and "i < 2 ^ (space - 12)" and "k < 2 ^ (space - 12)"
  shows "(hd (path_of space i) = hd (path_of space k) \<and>
          butlast (slot_path (levels space) i) = butlast (slot_path (levels space) k))
         \<longleftrightarrow> i div 1024 = k div 1024"
proof -
  let ?N = "1024 ^ levels space"
  have d: "x div 1024 ^ Suc (levels space) = x div 1024 div ?N" for x :: nat
    by (simp add: div_mult2_eq)
  have "(i div 1024 div ?N = k div 1024 div ?N \<and> (i div 1024) mod ?N = (k div 1024) mod ?N)
        \<longleftrightarrow> i div 1024 = k div 1024"
    by (metis div_mult_mod_eq)
  then show ?thesis
    using assms by (simp add: path_of_def same_leaf_iff index_split d del: power_Suc)
qed

lemma get_after_alloc:
  assumes wf: "wf_map space m" and b: "32 \<le> space" "i < 2 ^ (space - 12)" "k < 2 ^ (space - 12)"
    and al: "find_alloc space init m i True = (m', r)"
  shows "pd_get m' (path_of space k) =
           (case pd_get m (path_of space k) of
              Some d \<Rightarrow> Some d
            | None \<Rightarrow> if i div L2_SIZE = k div L2_SIZE then Some (init i (k mod L2_SIZE)) else None)"
proof -
  let ?h = "\<lambda>x. hd (path_of space x)"
  have wn: "wf_node (levels space) (m (?h i))" using wf by (simp add: wf_map_def)
  obtain nd where nd: "l2_walk (init i) True (levels space) i (m (?h i)) = Some nd"
    using l2_walk_alloc [OF wn] by blast
  have m': "m' = m(?h i := nd)" using al nd by (simp add: find_alloc_eq)
  show ?thesis
  proof (cases "?h i = ?h k")
    case True
    then show ?thesis
      using node_get_alloc [OF wn nd, of k] same_leaf_path [OF b] m'
      by (simp add: pd_get_path_of split: option.splits)
  next
    case False
    then have "i div 1024 \<noteq> k div 1024" using same_leaf_path [OF b] by blast
    with False m' show ?thesis by (simp add: pd_get_path_of split: option.splits)
  qed
qed

lemma pd_get_put:
  "pd_get (pd_put m p d) q = (if p = q then map_option (\<lambda>_. d) (pd_get m p) else pd_get m q)"
  by (cases p; cases q) (auto simp: node_get_put)

lemma wf_map_put: "wf_map space m \<Longrightarrow> wf_map space (pd_put m p d)"
  by (cases p) (auto simp: wf_map_def wf_node_put)

section \<open>The interface the clients use\<close>

text \<open>
  A page table is a partial map from page indexes below \<open>bound\<close> to descriptors, each at its
  own address \<open>ptr i\<close>. Searching changes nothing; allocating a page makes its whole leaf
  present and keeps every descriptor that was; a store through a pointer changes that
  descriptor only.
\<close>

locale page_map =
  fixes find :: "'m \<Rightarrow> nat \<Rightarrow> bool \<Rightarrow> 'm \<times> 'p option"
    and get :: "'m \<Rightarrow> 'p \<Rightarrow> 'd option"
    and put :: "'m \<Rightarrow> 'p \<Rightarrow> 'd \<Rightarrow> 'm"
    and ptr :: "nat \<Rightarrow> 'p"
    and init :: "nat \<Rightarrow> nat \<Rightarrow> 'd"
    and invar :: "'m \<Rightarrow> bool"
    and bound :: nat
  assumes find_only: "invar m \<Longrightarrow> i < bound \<Longrightarrow>
      find m i False = (m, if get m (ptr i) = None then None else Some (ptr i))"
    and alloc_ptr: "invar m \<Longrightarrow> i < bound \<Longrightarrow>
      \<exists>m'. find m i True = (m', Some (ptr i)) \<and> invar m'"
    and alloc_get: "invar m \<Longrightarrow> i < bound \<Longrightarrow> k < bound \<Longrightarrow> find m i True = (m', r) \<Longrightarrow>
      get m' (ptr k) = (case get m (ptr k) of
          Some d \<Rightarrow> Some d
        | None \<Rightarrow> if i div L2_SIZE = k div L2_SIZE then Some (init i (k mod L2_SIZE)) else None)"
    and put_get: "invar m \<Longrightarrow> i < bound \<Longrightarrow> k < bound \<Longrightarrow> get m (ptr i) \<noteq> None \<Longrightarrow>
      get (put m (ptr i) d) (ptr k) = (if k = i then Some d else get m (ptr k))"
    and put_invar: "invar m \<Longrightarrow> i < bound \<Longrightarrow> invar (put m (ptr i) d)"
begin

lemma alloc_self:
  "invar m \<Longrightarrow> i < bound \<Longrightarrow> find m i True = (m', r) \<Longrightarrow>
   get m' (ptr i) = Some (case get m (ptr i) of Some d \<Rightarrow> d | None \<Rightarrow> init i (i mod L2_SIZE))"
  using alloc_get [of m i i m' r] by (simp split: option.splits)

lemma alloc_keeps:
  "invar m \<Longrightarrow> i < bound \<Longrightarrow> k < bound \<Longrightarrow> find m i True = (m', r) \<Longrightarrow>
   get m (ptr k) = Some d \<Longrightarrow> get m' (ptr k) = Some d"
  using alloc_get [of m i k m' r] by simp

text \<open>The pattern of every writer: allocate the page, then store its descriptor.\<close>

lemma alloc_put:
  assumes "invar m" and "i < bound"
  obtains m' where "find m i True = (m', Some (ptr i))" and "invar m'"
    and "invar (put m' (ptr i) d)"
    and "\<And>k. k < bound \<Longrightarrow> get (put m' (ptr i) d) (ptr k) =
           (if k = i then Some d else get m' (ptr k))"
    and "get m' (ptr i) = Some (case get m (ptr i) of Some d \<Rightarrow> d | None \<Rightarrow> init i (i mod L2_SIZE))"
proof -
  obtain m' where m': "find m i True = (m', Some (ptr i))" "invar m'"
    using alloc_ptr [OF assms] by blast
  have g: "get m' (ptr i) =
      Some (case get m (ptr i) of Some d \<Rightarrow> d | None \<Rightarrow> init i (i mod L2_SIZE))"
    using alloc_self [OF assms m'(1)] .
  show thesis
  proof (rule that [OF m'])
    show "invar (put m' (ptr i) d)" using m'(2) assms(2) by (rule put_invar)
    show "\<And>k. k < bound \<Longrightarrow> get (put m' (ptr i) d) (ptr k) =
        (if k = i then Some d else get m' (ptr k))"
      using put_get m'(2) assms(2) g by blast
    show "get m' (ptr i) =
      Some (case get m (ptr i) of Some d \<Rightarrow> d | None \<Rightarrow> init i (i mod L2_SIZE))" by (rule g)
  qed
qed

end

text \<open>Every table of find_alloc over at least 32 address bits provides it.\<close>

lemma find_alloc_page_map:
  assumes "32 \<le> space"
  shows "page_map (find_alloc space init) pd_get pd_put (path_of space) init (wf_map space)
           (2 ^ (space - 12))"
proof
  fix m :: "'a l1map" and i
  assume m: "wf_map space m"
  obtain m' r where f: "find_alloc space init m i False = (m', r)" by fastforce
  then show "find_alloc space init m i False =
      (m, if pd_get m (path_of space i) = None then None else Some (path_of space i))"
    using find_iff [OF m, of init i] find_pure [OF f] by simp
qed (use assms in \<open>auto simp: alloc_ex get_after_alloc pd_get_put wf_map_put path_of_inj\<close>)

definition page_ptr :: "nat \<Rightarrow> pdptr" where
  "page_ptr = path_of V_SPACE"

definition phys_page_ptr :: "nat \<Rightarrow> pdptr" where
  "phys_page_ptr = path_of P_SPACE"

abbreviation (input) V_PAGES :: nat where "V_PAGES \<equiv> 2 ^ 40"
abbreviation (input) P_PAGES :: nat where "P_PAGES \<equiv> 2 ^ 40"

interpretation vp: page_map page_find_alloc pd_get pd_put page_ptr "\<lambda>_ _. PageDesc_zero"
    "wf_map V_SPACE" V_PAGES
  using find_alloc_page_map [of V_SPACE "\<lambda>_ _. PageDesc_zero"]
  by (simp add: page_find_alloc_def [abs_def] page_ptr_def)

interpretation pp: page_map phys_page_find_alloc pd_get pd_put phys_page_ptr phys_leaf
    "wf_map P_SPACE" P_PAGES
  using find_alloc_page_map [of P_SPACE phys_leaf]
  by (simp add: phys_page_find_alloc_def [abs_def] phys_page_ptr_def)

section \<open>Flushing\<close>

lemma page_flush_tb_1_get:
  "wf_node n nd \<Longrightarrow> node_get (page_flush_tb_1 n nd) (slot_path n i) =
     map_option (\<lambda>d. invalidate_page_bitmap (d\<lparr>first_tb := None\<rparr>)) (node_get nd (slot_path n i))"
proof (induction n arbitrary: nd)
  case 0
  then show ?case by (cases nd) auto
next
  case (Suc n)
  then show ?case by (cases nd) auto
qed

lemma page_flush_tb_1_wf: "wf_node n nd \<Longrightarrow> wf_node n (page_flush_tb_1 n nd)"
proof (induction n arbitrary: nd)
  case 0
  then show ?case by (cases nd) auto
next
  case (Suc n)
  then show ?case by (cases nd) auto
qed

lemma levels_alt: "L1_SHIFT space div L2_BITS - Suc 0 = levels space"
  by (simp add: levels_def)

lemma page_flush_tb_wf: "wf_map V_SPACE m \<Longrightarrow> wf_map V_SPACE (page_flush_tb m)"
  by (auto simp: wf_map_def page_flush_tb_def page_flush_tb_1_wf levels_alt)

lemma page_flush_tb_get:
  assumes "wf_map V_SPACE m"
  shows "pd_get (page_flush_tb m) (page_ptr i) =
     map_option (\<lambda>d. invalidate_page_bitmap (d\<lparr>first_tb := None\<rparr>)) (pd_get m (page_ptr i))"
  using assms
  by (auto simp: page_ptr_def path_of_def page_flush_tb_def wf_map_def levels_alt
      page_flush_tb_1_get)

text \<open>Searching without allocation, and a table that maps one given page.\<close>

lemma page_find_eq:
  "wf_map V_SPACE m \<Longrightarrow> i < V_PAGES \<Longrightarrow>
   page_find m i = (if pd_get m (page_ptr i) = None then None else Some (page_ptr i))"
  by (simp add: page_find_def vp.find_only)

lemma phys_page_find_eq:
  "wf_map P_SPACE m \<Longrightarrow> i < P_PAGES \<Longrightarrow>
   phys_page_find m i = (if pd_get m (phys_page_ptr i) = None then None else Some (phys_page_ptr i))"
  by (simp add: phys_page_find_def pp.find_only)

lemma wf_map_empty [simp]: "wf_map s (\<lambda>_. LNull)"
  by (simp add: wf_map_def)

lemma phys_map_with:
  assumes "i < P_PAGES"
  obtains pm where "wf_map P_SPACE pm" and "phys_page_find pm i = Some (phys_page_ptr i)"
    and "pd_get pm (phys_page_ptr i) = Some d"
proof -
  from pp.alloc_put [OF wf_map_empty assms, of d] obtain m' where
    "wf_map P_SPACE (pd_put m' (phys_page_ptr i) d)"
    "pd_get (pd_put m' (phys_page_ptr i) d) (phys_page_ptr i) = Some d" using assms by metis
  with that assms show ?thesis by (simp add: phys_page_find_eq)
qed

section \<open>Properties\<close>

text \<open>
  C7: page_find_alloc on l1_map: asking for a page with allocation always returns its
  descriptor. Afterwards page_find returns every page that was present before, with the
  descriptor it had, and of the pages that were absent exactly those of the same leaf,
  with a zeroed descriptor.
\<close>

theorem page_find_alloc_correct:
  assumes "wf_map V_SPACE m" and "i < V_PAGES" and "k < V_PAGES"
  shows "\<exists>m'. page_find_alloc m i True = (m', Some (page_ptr i)) \<and> wf_map V_SPACE m' \<and>
           page_find m' i = Some (page_ptr i) \<and>
           (case page_find m k of
              Some p \<Rightarrow> page_find m' k = Some p \<and> pd_get m' p = pd_get m p
            | None \<Rightarrow>
                if i div L2_SIZE = k div L2_SIZE
                then page_find m' k = Some (page_ptr k) \<and> pd_get m' (page_ptr k) = Some PageDesc_zero
                else page_find m' k = None)"
proof -
  obtain m' where m': "page_find_alloc m i True = (m', Some (page_ptr i))" "wf_map V_SPACE m'"
    using vp.alloc_ptr [OF assms(1,2)] by blast
  show ?thesis
    using m' vp.alloc_get [OF assms(1,2,3) m'(1)] vp.alloc_self [OF assms(1,2) m'(1)]
      page_find_eq [OF assms(1,3)] page_find_eq [OF m'(2) assms(3)] page_find_eq [OF m'(2) assms(2)]
    by (auto split: option.splits if_splits)
qed

theorem page_find_alloc_correct_witness:
  "\<exists>m'. page_find_alloc (\<lambda>_. LNull) 5 True = (m', Some (page_ptr 5)) \<and>
        page_find m' 6 = Some (page_ptr 6) \<and> page_find (\<lambda>_. LNull) 6 = None"
proof -
  have "wf_map V_SPACE (\<lambda>_. LNull :: PageDesc lnode)" by (simp add: wf_map_def)
  moreover have "page_find (\<lambda>_. LNull) 6 = None"
    by (simp add: page_find_def page_find_alloc_def find_alloc_def L1_SHIFT_def L1_BITS_def
        numeral_2_eq_2)
  ultimately show ?thesis
    using page_find_alloc_correct [of "\<lambda>_. LNull" 5 6] by auto
qed

text \<open>
  C11: phys_page_find_alloc fills a fresh leaf relative to the index that was asked for, not
  to the first index of the leaf, so the region_offset of the pages of the leaf is their
  own address exactly when the first page asked for starts a leaf.
\<close>

theorem phys_leaf_region_offset:
  assumes "wf_map P_SPACE m" and "i < P_PAGES" and "k < P_PAGES"
    and "pd_get m (phys_page_ptr k) = None" and "i div L2_SIZE = k div L2_SIZE"
  shows "\<exists>m' d. phys_page_find_alloc m i True = (m', Some (phys_page_ptr i)) \<and>
           pd_get m' (phys_page_ptr k) = Some d \<and> phys_offset d = IO_MEM_UNASSIGNED \<and>
           (region_offset d = push_bit TARGET_PAGE_BITS (of_nat k) \<longleftrightarrow> i mod L2_SIZE = 0)"
proof -
  obtain m' where m': "phys_page_find_alloc m i True = (m', Some (phys_page_ptr i))"
    using pp.alloc_ptr [OF assms(1,2)] by blast
  have g: "pd_get m' (phys_page_ptr k) = Some (phys_leaf i (k mod L2_SIZE))"
    using pp.alloc_get [OF assms(1,2,3) m'] assms(4,5) by simp
  have inj: "push_bit 12 (of_nat x :: u64) = push_bit 12 (of_nat y) \<longleftrightarrow> x = y"
    if "x < 2 ^ 41" "y < 2 ^ 41" for x y
  proof -
    have "x * 4096 < 2 ^ 64" "y * 4096 < 2 ^ 64" using that by simp_all
    then have "(of_nat (x * 4096) :: u64) = of_nat (y * 4096) \<longleftrightarrow> x = y"
      by (simp only: word_of_nat_eq_iff) (simp add: take_bit_nat_eq_self)
    then show ?thesis by (simp add: push_bit_eq_mult)
  qed
  have "i + k mod 1024 = k \<longleftrightarrow> i mod 1024 = 0"
    using assms(5) by (metis add_diff_cancel_right' add_left_cancel div_mult_mod_eq
        mult_div_mod_eq add_0_right diff_diff_left)
  moreover have "i + k mod 1024 < 2 ^ 41" "k < 2 ^ 41"
    using assms(2,3) mod_less_divisor [of 1024 k] by simp_all
  ultimately have "region_offset (phys_leaf i (k mod L2_SIZE)) = push_bit 12 (of_nat k) \<longleftrightarrow>
      i mod 1024 = 0"
    using inj [of "i + k mod 1024" k] by (simp add: phys_leaf_def del: of_nat_add)
  with m' g show ?thesis by (auto simp: phys_leaf_def)
qed

theorem phys_leaf_region_offset_witness:
  "\<exists>m' d. phys_page_find_alloc (\<lambda>_. LNull) 1 True = (m', Some (phys_page_ptr 1)) \<and>
     pd_get m' (phys_page_ptr 0) = Some d \<and> region_offset d \<noteq> push_bit TARGET_PAGE_BITS (of_nat 0)"
  using phys_leaf_region_offset [of "\<lambda>_. LNull" 1 0]
  by (auto simp: wf_map_def phys_page_ptr_def path_of_def)

text \<open>
  C12: page_flush_tb visits every page of the table: afterwards each present descriptor has
  no translated blocks, no code bitmap and a zero write count, and no descriptor appears or disappears.
\<close>

theorem page_flush_tb_correct:
  assumes "wf_map V_SPACE m" and "i < V_PAGES"
  shows "page_find (page_flush_tb m) i = page_find m i \<and>
         pd_get (page_flush_tb m) (page_ptr i) =
           map_option (\<lambda>d. d\<lparr>first_tb := None, code_bitmap := None, code_write_count := 0\<rparr>)
             (pd_get m (page_ptr i))"
  using vp.find_only [OF assms] vp.find_only [OF page_flush_tb_wf [OF assms(1)] assms(2)]
    page_flush_tb_get [OF assms(1)]
  by (auto simp: page_find_def invalidate_page_bitmap_def option.map_comp comp_def)

theorem page_flush_tb_correct_witness:
  "let m = pd_put (fst (page_find_alloc (\<lambda>_. LNull) 3 True)) (page_ptr 3)
             \<lparr>first_tb = Some (5, 1), code_write_count = 7, code_bitmap = Some [0xff]\<rparr>
   in pd_get m (page_ptr 3) = Some \<lparr>first_tb = Some (5, 1), code_write_count = 7, code_bitmap = Some [0xff]\<rparr> \<and>
      pd_get (page_flush_tb m) (page_ptr 3) = Some PageDesc_zero \<and>
      pd_get (page_flush_tb m) (page_ptr 4) = Some PageDesc_zero \<and>
      pd_get (page_flush_tb m) (page_ptr 1024) = None"
proof -
  let ?d = "\<lparr>first_tb = Some (5, 1), code_write_count = 7, code_bitmap = Some [0xff]\<rparr>"
  have e: "wf_map V_SPACE (\<lambda>_. LNull :: PageDesc lnode)"
    and n: "pd_get (\<lambda>_. LNull :: PageDesc lnode) (page_ptr k) = None" for k
    by (simp_all add: wf_map_def page_ptr_def path_of_def)
  obtain m' where f: "page_find_alloc (\<lambda>_. LNull) 3 True = (m', Some (page_ptr 3))"
    and w: "wf_map V_SPACE (pd_put m' (page_ptr 3) ?d)"
    and g: "\<And>k. k < V_PAGES \<Longrightarrow> pd_get (pd_put m' (page_ptr 3) ?d) (page_ptr k) =
        (if k = 3 then Some ?d else pd_get m' (page_ptr k))"
    using vp.alloc_put [OF e, of 3 ?d] by auto
  let ?m = "pd_put m' (page_ptr 3) ?d"
  have h: "pd_get m' (page_ptr 4) = Some PageDesc_zero" "pd_get m' (page_ptr 1024) = None"
    using vp.alloc_get [OF e _ _ f, of 4] vp.alloc_get [OF e _ _ f, of 1024] n by simp_all
  have "pd_get ?m (page_ptr 3) = Some ?d" "pd_get ?m (page_ptr 4) = Some PageDesc_zero"
    "pd_get ?m (page_ptr 1024) = None" using g h by simp_all
  moreover have "pd_get (page_flush_tb ?m) (page_ptr k) =
      map_option (\<lambda>d. d\<lparr>first_tb := None, code_bitmap := None, code_write_count := 0\<rparr>)
        (pd_get ?m (page_ptr k))" if "k < V_PAGES" for k
    using page_flush_tb_correct [OF w that] by simp
  ultimately show ?thesis by (simp add: f Let_def PageDesc_zero_def)
qed

end
