(* ===== verification/RAM_Blocks.thy ===== *)
theory RAM_Blocks
  imports Page_Map
begin

text \<open>
  The guest RAM list of exec.c (RAMBlock, ram_list) and the dirty bytes of cpu-all.h:
  placement of a new block in the ram_addr_t space, translation between ram offsets and
  host pointers, and the dirty flags of each page. The list of blocks is reordered by
  every successful qemu_get_ram_ptr (move to front), so it is part of the state that the
  lookup returns.
\<close>

section \<open>State\<close>

record RAMBlock =
  rb_host :: u64
  rb_offset :: u64
  rb_length :: u64
  rb_idstr :: string

record RAMList =
  phys_dirty :: "nat \<Rightarrow> u8"
  dirty_size :: nat
  blocks :: "RAMBlock list"

abbreviation (input) ULONG_MAX :: u64 where "ULONG_MAX \<equiv> - 1"

definition TARGET_PAGE_ALIGN :: "u64 \<Rightarrow> u64" where
  "TARGET_PAGE_ALIGN addr = (addr + TARGET_PAGE_SIZE - 1) AND TARGET_PAGE_MASK"

section \<open>Names\<close>

text \<open>pstrcpy and pstrcat of cutils.c on NUL-terminated strings.\<close>

definition pstrcpy :: "string \<Rightarrow> int \<Rightarrow> string \<Rightarrow> string" where
  "pstrcpy buf buf_size str = (if buf_size \<le> 0 then buf else take (nat buf_size - 1) str)"

definition pstrcat :: "string \<Rightarrow> int \<Rightarrow> string \<Rightarrow> string" where
  "pstrcat buf buf_size s =
     (let len = int (length buf)
      in if len < buf_size then buf @ pstrcpy [] (buf_size - len) s else buf)"

text \<open>The idstr of a new block: the device path and a slash when the bus gives one, then the
  name. The bus callback get_dev_path is the argument \<open>devpath\<close>.\<close>

definition block_idstr :: "string option \<Rightarrow> string \<Rightarrow> string" where
  "block_idstr devpath name =
     pstrcat (case devpath of Some i \<Rightarrow> take 255 (i @ ''/'') | None \<Rightarrow> []) 256 name"

section \<open>Placing and finding blocks\<close>

definition next_block_start :: "RAMBlock list \<Rightarrow> u64 \<Rightarrow> u64" where
  "next_block_start bs e =
     foldl (\<lambda>nxt nb. if rb_offset nb \<ge> e then min nxt (rb_offset nb) else nxt) ULONG_MAX bs"

definition find_ram_offset :: "RAMBlock list \<Rightarrow> u64 \<Rightarrow> u64" where
  "find_ram_offset bs sz =
     (if bs = [] then 0
      else fst (foldl (\<lambda>(offset, mingap) b.
                  let e = rb_offset b + rb_length b;
                      nxt = next_block_start bs e
                  in if nxt - e \<ge> sz \<and> nxt - e < mingap then (e, nxt - e) else (offset, mingap))
                (0, ULONG_MAX) bs))"

definition last_ram_offset :: "RAMBlock list \<Rightarrow> u64" where
  "last_ram_offset bs = foldl (\<lambda>l b. max l (rb_offset b + rb_length b)) 0 bs"

definition qemu_ram_alloc_from_ptr ::
  "RAMList \<Rightarrow> string option \<Rightarrow> string \<Rightarrow> u64 \<Rightarrow> u64 \<Rightarrow> (RAMList \<times> u64) result" where
  "qemu_ram_alloc_from_ptr rl devpath name size_arg host =
     (let sz = TARGET_PAGE_ALIGN size_arg;
          idstr = block_idstr devpath name
      in if \<exists>b \<in> set (blocks rl). rb_idstr b = idstr then Inl Abort
         else
           let off = find_ram_offset (blocks rl) sz;
               nb = \<lparr>rb_host = host, rb_offset = off, rb_length = sz, rb_idstr = idstr\<rparr>;
               bs = nb # blocks rl;
               dsize = unat (drop_bit TARGET_PAGE_BITS (last_ram_offset bs));
               first = unat (drop_bit TARGET_PAGE_BITS off);
               n = unat (drop_bit TARGET_PAGE_BITS sz)
           in Inr (\<lparr>phys_dirty = (\<lambda>i. if first \<le> i \<and> i < first + n then 0xff else phys_dirty rl i),
                    dirty_size = dsize, blocks = bs\<rparr>, off))"

text \<open>
  qemu_ram_alloc gets the host memory itself, from a file under mem_path or from
  qemu_vmalloc; \<open>alloc_host\<close> stands for that allocation.
\<close>

definition qemu_ram_alloc ::
  "(u64 \<Rightarrow> u64) \<Rightarrow> RAMList \<Rightarrow> string option \<Rightarrow> string \<Rightarrow> u64 \<Rightarrow> (RAMList \<times> u64) result" where
  "qemu_ram_alloc alloc_host rl devpath name size_arg =
     (let sz = TARGET_PAGE_ALIGN size_arg;
          idstr = block_idstr devpath name
      in if \<exists>b \<in> set (blocks rl). rb_idstr b = idstr then Inl Abort
         else
           let host = alloc_host sz;
               off = find_ram_offset (blocks rl) sz;
               nb = \<lparr>rb_host = host, rb_offset = off, rb_length = sz, rb_idstr = idstr\<rparr>;
               bs = nb # blocks rl;
               dsize = unat (drop_bit TARGET_PAGE_BITS (last_ram_offset bs));
               first = unat (drop_bit TARGET_PAGE_BITS off);
               n = unat (drop_bit TARGET_PAGE_BITS sz)
           in Inr (\<lparr>phys_dirty = (\<lambda>i. if first \<le> i \<and> i < first + n then 0xff else phys_dirty rl i),
                    dirty_size = dsize, blocks = bs\<rparr>, off))"

definition qemu_ram_free :: "RAMList \<Rightarrow> u64 \<Rightarrow> RAMList" where
  "qemu_ram_free rl addr =
     (case List.extract (\<lambda>b. addr = rb_offset b) (blocks rl) of
        None \<Rightarrow> rl
      | Some (ys, b, zs) \<Rightarrow> rl\<lparr>blocks := ys @ zs\<rparr>)"

definition qemu_get_ram_ptr :: "RAMList \<Rightarrow> u64 \<Rightarrow> (RAMList \<times> u64) result" where
  "qemu_get_ram_ptr rl addr =
     (case List.extract (\<lambda>b. addr - rb_offset b < rb_length b) (blocks rl) of
        None \<Rightarrow> Inl Abort
      | Some (ys, b, zs) \<Rightarrow>
          Inr (rl\<lparr>blocks := b # ys @ zs\<rparr>, rb_host b + (addr - rb_offset b)))"

definition qemu_ram_addr_from_host :: "RAMList \<Rightarrow> u64 \<Rightarrow> u64 result" where
  "qemu_ram_addr_from_host rl host =
     (case List.find (\<lambda>b. host - rb_host b < rb_length b) (blocks rl) of
        None \<Rightarrow> Inl Abort
      | Some b \<Rightarrow> Inr (rb_offset b + (host - rb_host b)))"

section \<open>Dirty flags\<close>

abbreviation (input) VGA_DIRTY_FLAG :: u8 where "VGA_DIRTY_FLAG \<equiv> 1"
abbreviation (input) CODE_DIRTY_FLAG :: u8 where "CODE_DIRTY_FLAG \<equiv> 2"
abbreviation (input) MIGRATION_DIRTY_FLAG :: u8 where "MIGRATION_DIRTY_FLAG \<equiv> 8"

definition page_index :: "u64 \<Rightarrow> nat" where
  "page_index addr = unat (drop_bit TARGET_PAGE_BITS addr)"

definition cpu_physical_memory_is_dirty :: "RAMList \<Rightarrow> u64 \<Rightarrow> bool" where
  "cpu_physical_memory_is_dirty rl addr \<longleftrightarrow> phys_dirty rl (page_index addr) = 0xff"

definition cpu_physical_memory_get_dirty_flags :: "RAMList \<Rightarrow> u64 \<Rightarrow> u8" where
  "cpu_physical_memory_get_dirty_flags rl addr = phys_dirty rl (page_index addr)"

definition cpu_physical_memory_get_dirty :: "RAMList \<Rightarrow> u64 \<Rightarrow> u8 \<Rightarrow> u8" where
  "cpu_physical_memory_get_dirty rl addr dirty_flags =
     phys_dirty rl (page_index addr) AND dirty_flags"

definition cpu_physical_memory_set_dirty :: "RAMList \<Rightarrow> u64 \<Rightarrow> RAMList" where
  "cpu_physical_memory_set_dirty rl addr =
     rl\<lparr>phys_dirty := (phys_dirty rl)(page_index addr := 0xff)\<rparr>"

definition cpu_physical_memory_set_dirty_flags :: "RAMList \<Rightarrow> u64 \<Rightarrow> u8 \<Rightarrow> RAMList" where
  "cpu_physical_memory_set_dirty_flags rl addr dirty_flags =
     rl\<lparr>phys_dirty := (phys_dirty rl)(page_index addr :=
          phys_dirty rl (page_index addr) OR dirty_flags)\<rparr>"

text \<open>The length parameter is a C int: the caller's unsigned long is cut to 32 bits.\<close>

definition cpu_physical_memory_mask_dirty_range :: "RAMList \<Rightarrow> u64 \<Rightarrow> u32 \<Rightarrow> u8 \<Rightarrow> RAMList" where
  "cpu_physical_memory_mask_dirty_range rl start l dirty_flags =
     (let len = sint (signed_drop_bit TARGET_PAGE_BITS l);
          mask = NOT dirty_flags;
          p = page_index start
      in rl\<lparr>phys_dirty := (\<lambda>i. if p \<le> i \<and> int i < int p + len then phys_dirty rl i AND mask
                              else phys_dirty rl i)\<rparr>)"

section \<open>Well-formed lists of blocks\<close>

definition ram_range :: "RAMBlock \<Rightarrow> nat set" where
  "ram_range b = {unat (rb_offset b) ..< unat (rb_offset b) + unat (rb_length b)}"

definition host_range :: "RAMBlock \<Rightarrow> nat set" where
  "host_range b = {unat (rb_host b) ..< unat (rb_host b) + unat (rb_length b)}"

definition block_ok :: "RAMBlock \<Rightarrow> bool" where
  "block_ok b \<longleftrightarrow> 0 < rb_length b
     \<and> unat (rb_offset b) + unat (rb_length b) < 2 ^ 64
     \<and> unat (rb_host b) + unat (rb_length b) < 2 ^ 64
     \<and> 4096 dvd unat (rb_offset b) \<and> 4096 dvd unat (rb_length b)"

definition apart :: "RAMBlock \<Rightarrow> RAMBlock \<Rightarrow> bool" where
  "apart b c \<longleftrightarrow> ram_range b \<inter> ram_range c = {} \<and> host_range b \<inter> host_range c = {}
     \<and> rb_idstr b \<noteq> rb_idstr c"

text \<open>The invariant of the list; \<open>dirty_size\<close> is the number of dirty bytes allocated.\<close>

definition ram_wf :: "RAMList \<Rightarrow> bool" where
  "ram_wf rl \<longleftrightarrow> (\<forall>b \<in> set (blocks rl). block_ok b \<and>
       unat (rb_offset b) + unat (rb_length b) \<le> 4096 * dirty_size rl)
     \<and> sorted_wrt apart (blocks rl)"

lemma apart_sym: "apart b c \<longleftrightarrow> apart c b"
  by (auto simp: apart_def)

lemma sorted_wrt_apart_mid:
  "sorted_wrt apart (ys @ b # zs) \<longleftrightarrow> sorted_wrt apart (b # ys @ zs)"
  by (auto simp: sorted_wrt_append apart_sym)

lemma in_block:
  assumes "block_ok b"
  shows "a - rb_offset b < rb_length b \<longleftrightarrow> unat a \<in> ram_range b"
    and "h - rb_host b < rb_length b \<longleftrightarrow> unat h \<in> host_range b"
  using assms by (simp_all add: block_ok_def ram_range_def host_range_def in_range_unat)

lemma apart_at:
  assumes "sorted_wrt apart bs" "b \<in> set bs" "c \<in> set bs"
  shows "n \<in> ram_range b \<Longrightarrow> n \<in> ram_range c \<Longrightarrow> b = c"
    and "n \<in> host_range b \<Longrightarrow> n \<in> host_range c \<Longrightarrow> b = c"
  using assms by (induction bs) (auto simp: apart_def)

lemma block_end:
  assumes "block_ok b"
  shows "unat (rb_offset b + rb_length b) = unat (rb_offset b) + unat (rb_length b)"
  using assms by (simp add: block_ok_def unat_word_ariths)

text \<open>next_block_start: the least offset at or above \<open>e\<close>, or ULONG_MAX.\<close>

lemma next_block_start_fold:
  defines "f \<equiv> (\<lambda>e nxt nb. if rb_offset nb \<ge> e then min nxt (rb_offset nb) else nxt)"
  shows "foldl (f e) m bs \<le> m"
    and "b \<in> set bs \<Longrightarrow> e \<le> rb_offset b \<Longrightarrow> foldl (f e) m bs \<le> rb_offset b"
    and "e \<le> m \<Longrightarrow> e \<le> foldl (f e) m bs"
proof (induction bs arbitrary: m)
  case (Cons c bs)
  { case 1 show ?case using Cons.IH(1) [of "f e m c"] by (auto simp: f_def) }
  { case 2 then show ?case using Cons.IH(1,2) [of "f e m c"]
      by (fastforce simp: f_def) }
  { case 3 then show ?case using Cons.IH(3) [of "f e m c"] by (simp add: f_def) }
qed simp_all

lemma next_block_start:
  "b \<in> set bs \<Longrightarrow> e \<le> rb_offset b \<Longrightarrow> next_block_start bs e \<le> rb_offset b"
  "e \<le> next_block_start bs e"
  using next_block_start_fold(2) [where m = "- 1"] next_block_start_fold(3) [where m = "- 1"]
  by (auto simp: next_block_start_def)

lemma foldl_max:
  "foldl (\<lambda>l b. max l (f b)) m bs \<ge> (m :: u64)"
  "b \<in> set bs \<Longrightarrow> f b \<le> foldl (\<lambda>l b. max l (f b)) m bs"
proof (induction bs arbitrary: m)
  case (Cons c bs)
  { case 1 show ?case using Cons.IH(1) [of "max m (f c)"] by auto }
  { case 2 then show ?case using Cons.IH(1,2) [of "max m (f c)"] by fastforce }
qed simp_all

lemma last_ram_offset_ge:
  "b \<in> set bs \<Longrightarrow> rb_offset b + rb_length b \<le> last_ram_offset bs"
  unfolding last_ram_offset_def by (rule foldl_max(2) [where f = "\<lambda>b. rb_offset b + rb_length b"])

lemma last_ram_offset_in: "last_ram_offset bs = 0 \<or>
   (\<exists>b \<in> set bs. last_ram_offset bs = rb_offset b + rb_length b)"
proof -
  have "foldl (\<lambda>l b. max l (f b)) m bs = m \<or> (\<exists>b \<in> set bs. foldl (\<lambda>l b. max l (f b)) m bs = f b)"
    for f :: "RAMBlock \<Rightarrow> u64" and m
    by (induction bs arbitrary: m) (auto simp: max_def)
  then show ?thesis by (auto simp: last_ram_offset_def)
qed

text \<open>The gap behind a block, up to the next block start.\<close>

definition gap_after :: "RAMBlock list \<Rightarrow> RAMBlock \<Rightarrow> u64" where
  "gap_after bs b = next_block_start bs (rb_offset b + rb_length b) - (rb_offset b + rb_length b)"

lemma find_fold:
  defines "f \<equiv> \<lambda>bs sz (offset, mingap) b.
      if gap_after bs b \<ge> sz \<and> gap_after bs b < mingap
      then (rb_offset b + rb_length b, gap_after bs b) else (offset, mingap)"
  shows "foldl (f bs sz) (p, m) xs = (p', m') \<Longrightarrow>
     m' \<le> m \<and> (\<forall>b \<in> set xs. sz \<le> gap_after bs b \<longrightarrow> m' \<le> gap_after bs b) \<and>
     ((p', m') = (p, m) \<or>
      (\<exists>b \<in> set xs. p' = rb_offset b + rb_length b \<and> m' = gap_after bs b \<and> sz \<le> m' \<and> m' < m))"
proof (induction xs arbitrary: p m)
  case (Cons c xs)
  show ?case
  proof (cases "gap_after bs c \<ge> sz \<and> gap_after bs c < m")
    case True
    with Cons.prems have "foldl (f bs sz) (rb_offset c + rb_length c, gap_after bs c) xs = (p', m')"
      by (simp add: f_def)
    from Cons.IH [OF this] True show ?thesis by (auto intro: order_trans)
  next
    case False
    with Cons.prems have "foldl (f bs sz) (p, m) xs = (p', m')" by (auto simp: f_def)
    from Cons.IH [OF this] False show ?thesis by auto
  qed
qed simp

lemma find_ram_offset_best:
  assumes "b \<in> set bs" "sz \<le> gap_after bs b" "gap_after bs b < ULONG_MAX"
  shows "\<exists>c \<in> set bs. find_ram_offset bs sz = rb_offset c + rb_length c \<and> sz \<le> gap_after bs c \<and>
     (\<forall>d \<in> set bs. sz \<le> gap_after bs d \<longrightarrow> gap_after bs c \<le> gap_after bs d)"
proof -
  define r where "r = foldl (\<lambda>(offset, mingap) b.
      if gap_after bs b \<ge> sz \<and> gap_after bs b < mingap
      then (rb_offset b + rb_length b, gap_after bs b) else (offset, mingap)) (0, - 1) bs"
  obtain p m where r: "r = (p, m)" by (cases r)
  from find_fold [OF r [unfolded r_def]] assms
  have "m \<noteq> - 1" and *: "\<forall>b \<in> set bs. sz \<le> gap_after bs b \<longrightarrow> m \<le> gap_after bs b"
    and **: "(p, m) = (0, - 1) \<or>
      (\<exists>b \<in> set bs. p = rb_offset b + rb_length b \<and> m = gap_after bs b \<and> sz \<le> m \<and> m < - 1)"
    by auto
  moreover have "find_ram_offset bs sz = p"
    using assms(1) r unfolding find_ram_offset_def Let_def gap_after_def [symmetric] r_def by auto
  ultimately show ?thesis by auto
qed

lemma gap_after_disjoint:
  assumes ok: "\<forall>b \<in> set bs. block_ok b" and ap: "sorted_wrt apart bs"
    and b: "b \<in> set bs" and c: "c \<in> set bs" and fit: "sz \<le> gap_after bs b"
  shows "unat (rb_offset b + rb_length b) + unat sz < 2 ^ 64"
    and "{unat (rb_offset b + rb_length b) ..< unat (rb_offset b + rb_length b) + unat sz}
         \<inter> ram_range c = {}"
proof -
  define e where "e = rb_offset b + rb_length b"
  define nx where "nx = next_block_start bs e"
  have "e \<le> nx" by (simp add: nx_def next_block_start)
  with fit have fit': "unat e + unat sz \<le> unat nx"
    by (simp add: gap_after_def e_def [symmetric] nx_def [symmetric] word_le_nat_alt unat_sub)
  then show "unat (rb_offset b + rb_length b) + unat sz < 2 ^ 64"
    using unat_less_u64 [of nx] by (simp add: e_def)
  have e: "unat e = unat (rb_offset b) + unat (rb_length b)"
    using ok b by (simp add: e_def block_end)
  show "{unat (rb_offset b + rb_length b) ..< unat (rb_offset b + rb_length b) + unat sz}
         \<inter> ram_range c = {}"
  proof (cases "e \<le> rb_offset c")
    case True
    then have "nx \<le> rb_offset c" using c by (simp add: nx_def next_block_start)
    with fit' show ?thesis by (auto simp: ram_range_def e_def word_le_nat_alt)
  next
    case False
    have pos: "0 < unat (rb_length b)" "0 < unat (rb_length c)"
      using ok b c by (auto simp: block_ok_def unat_gt_0)
    have "unat (rb_offset c) + unat (rb_length c) \<le> unat e"
    proof (rule ccontr)
      assume "\<not> ?thesis"
      then have "unat e - 1 \<in> ram_range b" "unat e - 1 \<in> ram_range c"
        using False pos e by (auto simp: ram_range_def word_le_nat_alt)
      then have "b = c" using ap b c by (blast intro: apart_at(1))
      with e \<open>\<not> ?thesis\<close> show False by simp
    qed
    then show ?thesis by (auto simp: ram_range_def e_def)
  qed
qed

lemma find_ram_offset_fits:
  assumes ok: "\<forall>b \<in> set bs. block_ok b" and ap: "sorted_wrt apart bs"
    and room: "unat (last_ram_offset bs) + unat sz < 2 ^ 64"
  shows "unat (find_ram_offset bs sz) + unat sz < 2 ^ 64"
    and "c \<in> set bs \<Longrightarrow>
      {unat (find_ram_offset bs sz) ..< unat (find_ram_offset bs sz) + unat sz} \<inter> ram_range c = {}"
    and "4096 dvd unat (find_ram_offset bs sz)"
    and "bs \<noteq> [] \<Longrightarrow> \<exists>b \<in> set bs. find_ram_offset bs sz = rb_offset b + rb_length b \<and>
      sz \<le> gap_after bs b \<and> (\<forall>d \<in> set bs. sz \<le> gap_after bs d \<longrightarrow> gap_after bs b \<le> gap_after bs d)"
proof -
  have best: "\<exists>b \<in> set bs. find_ram_offset bs sz = rb_offset b + rb_length b \<and>
      sz \<le> gap_after bs b \<and> (\<forall>d \<in> set bs. sz \<le> gap_after bs d \<longrightarrow> gap_after bs b \<le> gap_after bs d)"
    if ne: "bs \<noteq> []"
  proof -
    have pos: "0 < rb_offset c + rb_length c" if "c \<in> set bs" for c
      using ok that block_end [of c] by (auto simp: block_ok_def word_less_nat_alt)
    with ne last_ram_offset_ge [of _ bs] have "0 < last_ram_offset bs"
      by (metis last_in_set order_less_le_trans)
    with last_ram_offset_in [of bs] obtain b where b: "b \<in> set bs"
      "last_ram_offset bs = rb_offset b + rb_length b" by auto
    have none: "\<not> rb_offset b + rb_length b \<le> rb_offset c" if "c \<in> set bs" for c
      using last_ram_offset_ge [OF that] ok that block_end [of c] b(2)
      by (auto simp: block_ok_def word_less_nat_alt word_le_nat_alt)
    then have "next_block_start bs (rb_offset b + rb_length b) = - 1"
    proof -
      have "foldl (\<lambda>nxt nb. if rb_offset nb \<ge> rb_offset b + rb_length b then min nxt (rb_offset nb)
              else nxt) (- 1) cs = - 1" if "set cs \<subseteq> set bs" for cs
        using that none by (induction cs) auto
      then show ?thesis by (simp add: next_block_start_def)
    qed
    then have g: "gap_after bs b = - 1 - last_ram_offset bs" by (simp add: gap_after_def b(2))
    have "unat (- 1 - last_ram_offset bs) = 2 ^ 64 - 1 - unat (last_ram_offset bs)"
      by (simp add: unat_sub unat_max_u64)
    with g room \<open>0 < last_ram_offset bs\<close> have "sz \<le> gap_after bs b" "gap_after bs b < - 1"
      by (auto simp: word_le_nat_alt word_less_nat_alt unat_max_u64)
    with b(1) find_ram_offset_best show ?thesis by blast
  qed
  show "bs \<noteq> [] \<Longrightarrow> \<exists>b \<in> set bs. find_ram_offset bs sz = rb_offset b + rb_length b \<and>
      sz \<le> gap_after bs b \<and> (\<forall>d \<in> set bs. sz \<le> gap_after bs d \<longrightarrow> gap_after bs b \<le> gap_after bs d)"
    by (rule best)
  show "unat (find_ram_offset bs sz) + unat sz < 2 ^ 64"
  proof (cases "bs = []")
    case True then show ?thesis using room unat_less_u64 [of sz] by (simp add: find_ram_offset_def)
  next
    case False
    with best obtain b where "b \<in> set bs" "find_ram_offset bs sz = rb_offset b + rb_length b"
      "sz \<le> gap_after bs b" by blast
    with gap_after_disjoint(1) [OF ok ap] show ?thesis by auto
  qed
  show "{unat (find_ram_offset bs sz) ..< unat (find_ram_offset bs sz) + unat sz} \<inter> ram_range c = {}"
    if "c \<in> set bs"
    using that best gap_after_disjoint(2) [OF ok ap _ that] by (cases bs) fastforce+
  show "4096 dvd unat (find_ram_offset bs sz)"
  proof (cases "bs = []")
    case False
    with best obtain b where "b \<in> set bs" "find_ram_offset bs sz = rb_offset b + rb_length b" by blast
    with ok show ?thesis by (auto simp: block_end) (auto simp: block_ok_def)
  qed (simp add: find_ram_offset_def)
qed

section \<open>The operations keep the list well formed\<close>

lemma align_unat:
  assumes "unat s + 4095 < 2 ^ 64"
  shows "unat (TARGET_PAGE_ALIGN s) = (unat s + 4095) div 4096 * 4096"
proof -
  have "unat (4095 + s) = (unat (4095 :: u64) + unat s) mod 2 ^ 64"
    by (simp only: unat_word_ariths(1)) simp
  also have "\<dots> = unat s + 4095" using assms by simp
  finally have "unat (s + 4096 - 1) = unat s + 4095" by simp
  then show ?thesis by (simp add: TARGET_PAGE_ALIGN_def page_unat)
qed

lemma last_ram_offset_aligned:
  assumes "\<forall>b \<in> set bs. block_ok b"
  shows "4096 dvd unat (last_ram_offset bs)"
  using last_ram_offset_in [of bs]
proof
  assume "\<exists>b \<in> set bs. last_ram_offset bs = rb_offset b + rb_length b"
  with assms show ?thesis by (auto simp: block_end) (auto simp: block_ok_def)
qed simp

lemma qemu_ram_alloc_eq:
  "qemu_ram_alloc alloc_host rl devpath name size_arg =
     qemu_ram_alloc_from_ptr rl devpath name size_arg (alloc_host (TARGET_PAGE_ALIGN size_arg))"
  by (simp add: qemu_ram_alloc_def qemu_ram_alloc_from_ptr_def Let_def)

lemma ram_wf_add:
  assumes wf: "ram_wf rl" and ok: "block_ok nb"
    and ap: "\<forall>b \<in> set (blocks rl). apart nb b"
    and d: "n = unat (drop_bit 12 (last_ram_offset (nb # blocks rl)))"
  shows "ram_wf \<lparr>phys_dirty = f, dirty_size = n, blocks = nb # blocks rl\<rparr>"
proof -
  have all: "\<forall>b \<in> set (nb # blocks rl). block_ok b" using wf ok by (simp add: ram_wf_def)
  have n: "4096 * n = unat (last_ram_offset (nb # blocks rl))"
    using last_ram_offset_aligned [OF all] by (simp only: d unat_drop12) simp
  have "unat (rb_offset b) + unat (rb_length b) \<le> 4096 * n" if "b \<in> set (nb # blocks rl)" for b
  proof -
    have "block_ok b" using all that by blast
    with last_ram_offset_ge [OF that] show ?thesis by (simp add: n word_le_nat_alt block_end)
  qed
  with all wf ap show ?thesis by (auto simp: ram_wf_def)
qed

text \<open>
  C8: Allocating a block keeps the list well formed: on a list of aligned blocks with disjoint
  offset ranges, disjoint host ranges and distinct names, a new name and fresh host memory,
  and room behind the last block, qemu_ram_alloc_from_ptr returns an offset whose range
  overlaps no block, the dirty array covers every block, the pages of the new block are all
  dirty and no other dirty byte changes. The offset is the end of the block with the smallest
  gap behind it that fits.
\<close>
theorem qemu_ram_alloc_correct:
  assumes "ram_wf rl" and "0 < size_arg" and "unat size_arg + 4095 < 2 ^ 64"
    and "\<forall>b \<in> set (blocks rl). rb_idstr b \<noteq> block_idstr devpath name"
    and "sz = TARGET_PAGE_ALIGN size_arg"
    and "unat host + unat sz < 2 ^ 64"
    and "\<forall>b \<in> set (blocks rl). {unat host ..< unat host + unat sz} \<inter> host_range b = {}"
    and "unat (last_ram_offset (blocks rl)) + unat sz < 2 ^ 64"
  shows "\<exists>rl' off. qemu_ram_alloc_from_ptr rl devpath name size_arg host = Inr (rl', off)
    \<and> ram_wf rl'
    \<and> blocks rl' = \<lparr>rb_host = host, rb_offset = off, rb_length = sz,
                     rb_idstr = block_idstr devpath name\<rparr> # blocks rl
    \<and> unat size_arg \<le> unat sz
    \<and> (\<forall>i. phys_dirty rl' i =
          (if unat off \<le> 4096 * i \<and> 4096 * i < unat off + unat sz then 0xff else phys_dirty rl i))
    \<and> (blocks rl \<noteq> [] \<longrightarrow> (\<exists>b \<in> set (blocks rl). off = rb_offset b + rb_length b \<and>
          (\<forall>c \<in> set (blocks rl). sz \<le> gap_after (blocks rl) c \<longrightarrow>
             gap_after (blocks rl) b \<le> gap_after (blocks rl) c)))"
proof -
  define off where "off = find_ram_offset (blocks rl) sz"
  define nb where "nb = \<lparr>rb_host = host, rb_offset = off, rb_length = sz,
                         rb_idstr = block_idstr devpath name\<rparr>"
  from assms(1) have ok: "\<forall>b \<in> set (blocks rl). block_ok b" and ap: "sorted_wrt apart (blocks rl)"
    by (simp_all add: ram_wf_def)
  note fits = find_ram_offset_fits [OF ok ap assms(8), folded off_def]
  have sz: "unat sz = (unat size_arg + 4095) div 4096 * 4096" using assms(3,5) by (simp add: align_unat)
  then have "unat size_arg \<le> unat sz" by linarith
  with assms(2) have "0 < unat sz" by (simp add: word_less_nat_alt)
  then have okn: "block_ok nb"
    using fits(1,3) assms(6) sz by (simp add: nb_def block_ok_def word_less_nat_alt)
  have apn: "\<forall>b \<in> set (blocks rl). apart nb b"
    using fits(2) assms(4,7) by (auto simp: nb_def apart_def ram_range_def host_range_def)
  have pages: "unat (drop_bit 12 off) \<le> i \<and> i < unat (drop_bit 12 off) + unat (drop_bit 12 sz) \<longleftrightarrow>
      unat off \<le> 4096 * i \<and> 4096 * i < unat off + unat sz" for i
    using fits(3) unfolding unat_drop12 sz by (elim dvdE) (simp, linarith)
  define rl' where "rl' = \<lparr>phys_dirty = (\<lambda>i. if unat off \<le> 4096 * i \<and> 4096 * i < unat off + unat sz
       then 0xff else phys_dirty rl i),
     dirty_size = unat (drop_bit 12 (last_ram_offset (nb # blocks rl))), blocks = nb # blocks rl\<rparr>"
  have "\<not> (\<exists>b \<in> set (blocks rl). rb_idstr b = block_idstr devpath name)" using assms(4) by blast
  then have "qemu_ram_alloc_from_ptr rl devpath name size_arg host = Inr (rl', off)"
    unfolding qemu_ram_alloc_from_ptr_def Let_def assms(5) [symmetric] off_def [symmetric]
      nb_def [symmetric] pages rl'_def by (simp only: if_False)
  moreover have "ram_wf rl'" unfolding rl'_def by (rule ram_wf_add [OF assms(1) okn apn refl])
  moreover have "blocks rl' = nb # blocks rl" and "\<forall>i. phys_dirty rl' i =
      (if unat off \<le> 4096 * i \<and> 4096 * i < unat off + unat sz then 0xff else phys_dirty rl i)"
    by (simp_all add: rl'_def)
  ultimately show ?thesis
    using fits(4) \<open>unat size_arg \<le> unat sz\<close> unfolding nb_def by blast
qed


theorem qemu_ram_alloc_correct_witness:
  "\<exists>rl' off. qemu_ram_alloc_from_ptr
      \<lparr>phys_dirty = (\<lambda>_. 0), dirty_size = 2,
       blocks = [\<lparr>rb_host = 0x10000, rb_offset = 0, rb_length = 0x2000, rb_idstr = ''pc.ram''\<rparr>]\<rparr>
      None ''vga'' 100 0x20000 = Inr (rl', off) \<and> ram_wf rl' \<and> off = 0x2000"
proof -
  let ?rl = "\<lparr>phys_dirty = (\<lambda>_. 0), dirty_size = 2,
       blocks = [\<lparr>rb_host = 0x10000, rb_offset = 0, rb_length = 0x2000, rb_idstr = ''pc.ram''\<rparr>]\<rparr>"
  have wf: "ram_wf ?rl" by (simp add: ram_wf_def block_ok_def)
  have sz: "(0x1000 :: u64) = TARGET_PAGE_ALIGN 100" by (simp add: TARGET_PAGE_ALIGN_def)
  have new: "\<forall>b \<in> set (blocks ?rl). rb_idstr b \<noteq> block_idstr None ''vga''"
    by (simp add: block_idstr_def pstrcat_def pstrcpy_def)
  have room: "unat (last_ram_offset (blocks ?rl)) + unat (0x1000 :: u64) < 2 ^ 64"
    by (simp add: last_ram_offset_def)
  have host: "\<forall>b \<in> set (blocks ?rl).
      {unat (0x20000 :: u64) ..< unat (0x20000 :: u64) + unat (0x1000 :: u64)} \<inter> host_range b = {}"
    by (simp add: host_range_def)
  have "0 < (100 :: u64)" "unat (100 :: u64) + 4095 < 2 ^ 64"
    "unat (0x20000 :: u64) + unat (0x1000 :: u64) < 2 ^ 64" by simp_all
  from qemu_ram_alloc_correct [OF wf this(1,2) new sz this(3) host room]
  show ?thesis by (elim exE conjE) (intro exI conjI; simp)
qed

lemma ram_offset_unique:
  assumes "ram_wf rl" "b \<in> set (blocks rl)" "c \<in> set (blocks rl)" "rb_offset b = rb_offset c"
  shows "b = c"
proof -
  have "unat (rb_offset b) \<in> ram_range b" "unat (rb_offset b) \<in> ram_range c"
    using assms by (auto simp: ram_wf_def block_ok_def ram_range_def word_less_nat_alt)
  with assms show ?thesis by (auto simp: ram_wf_def intro: apart_at(1))
qed

lemma qemu_ram_free_set:
  assumes "ram_wf rl"
  shows "set (blocks (qemu_ram_free rl addr)) = {b \<in> set (blocks rl). rb_offset b \<noteq> addr}"
proof (cases "List.extract (\<lambda>b. addr = rb_offset b) (blocks rl)")
  case None
  then have "addr \<noteq> rb_offset b" if "b \<in> set (blocks rl)" for b
    using that by (simp add: extract_None_iff)
  then show ?thesis by (auto simp: qemu_ram_free_def None)
next
  case (Some a)
  then obtain ys b zs where e: "List.extract (\<lambda>b. addr = rb_offset b) (blocks rl) = Some (ys, b, zs)"
    by (cases a) auto
  then have bl: "blocks rl = ys @ b # zs" and ad: "addr = rb_offset b"
    by (auto simp: extract_Some_iff)
  have "b \<notin> set ys \<union> set zs"
    using assms by (auto simp: ram_wf_def bl sorted_wrt_append apart_def)
  then have "rb_offset c \<noteq> addr" if "c \<in> set (ys @ zs)" for c
    using ram_offset_unique [OF assms, of c b] that by (auto simp: bl ad)
  then have "set (ys @ zs) = {c \<in> set (ys @ b # zs). rb_offset c \<noteq> addr}" by (auto simp: ad)
  moreover have "blocks (qemu_ram_free rl addr) = ys @ zs" by (simp add: qemu_ram_free_def e)
  ultimately show ?thesis by (simp only: bl)
qed

text \<open>
  C13: Freeing an offset keeps the list well formed, removes exactly the block that starts
  there, and freeing the block that was just allocated restores the list of blocks.
\<close>
theorem qemu_ram_free_correct:
  assumes "ram_wf rl"
  shows "ram_wf (qemu_ram_free rl addr)
    \<and> set (blocks (qemu_ram_free rl addr)) = {b \<in> set (blocks rl). rb_offset b \<noteq> addr}
    \<and> (\<forall>rl' off. qemu_ram_alloc alloc_host rl devpath name size_arg = Inr (rl', off) \<longrightarrow>
         blocks (qemu_ram_free rl' off) = blocks rl)"
proof (intro conjI allI impI)
  show "ram_wf (qemu_ram_free rl addr)"
    using assms by (auto simp: qemu_ram_free_def ram_wf_def extract_Some_iff sorted_wrt_append
        split: option.splits)
next
  fix rl' off
  assume "qemu_ram_alloc alloc_host rl devpath name size_arg = Inr (rl', off)"
  then show "blocks (qemu_ram_free rl' off) = blocks rl"
    by (auto simp: qemu_ram_alloc_def Let_def qemu_ram_free_def extract_Cons_code split: if_splits)
qed (rule qemu_ram_free_set [OF assms])

theorem qemu_ram_free_correct_witness:
  "ram_wf \<lparr>phys_dirty = (\<lambda>_. 0), dirty_size = 3,
       blocks = [\<lparr>rb_host = 0x10000, rb_offset = 0, rb_length = 0x2000, rb_idstr = ''pc.ram''\<rparr>,
                 \<lparr>rb_host = 0x20000, rb_offset = 0x2000, rb_length = 0x1000, rb_idstr = ''vga''\<rparr>]\<rparr>
   \<and> blocks (qemu_ram_free \<lparr>phys_dirty = (\<lambda>_. 0), dirty_size = 3,
       blocks = [\<lparr>rb_host = 0x10000, rb_offset = 0, rb_length = 0x2000, rb_idstr = ''pc.ram''\<rparr>,
                 \<lparr>rb_host = 0x20000, rb_offset = 0x2000, rb_length = 0x1000, rb_idstr = ''vga''\<rparr>]\<rparr> 0)
     = [\<lparr>rb_host = 0x20000, rb_offset = 0x2000, rb_length = 0x1000, rb_idstr = ''vga''\<rparr>]
   \<and> ram_wf (qemu_ram_free \<lparr>phys_dirty = (\<lambda>_. 0), dirty_size = 3,
       blocks = [\<lparr>rb_host = 0x10000, rb_offset = 0, rb_length = 0x2000, rb_idstr = ''pc.ram''\<rparr>,
                 \<lparr>rb_host = 0x20000, rb_offset = 0x2000, rb_length = 0x1000, rb_idstr = ''vga''\<rparr>]\<rparr> 0)"
    (is "ram_wf ?rl \<and> _")
proof -
  have wf: "ram_wf ?rl"
    by (simp add: ram_wf_def block_ok_def apart_def ram_range_def host_range_def)
  from qemu_ram_free_correct [OF wf, of 0] have "ram_wf (qemu_ram_free ?rl 0)" by blast
  with wf show ?thesis by (simp add: qemu_ram_free_def extract_Cons_code)
qed

section \<open>Offsets and host pointers\<close>

lemma qemu_get_ram_ptr_in:
  assumes wf: "ram_wf rl" and b: "b \<in> set (blocks rl)" and a: "unat addr \<in> ram_range b"
  obtains ys zs where "blocks rl = ys @ b # zs"
    and "qemu_get_ram_ptr rl addr =
         Inr (rl\<lparr>blocks := b # ys @ zs\<rparr>, rb_host b + (addr - rb_offset b))"
proof -
  let ?P = "\<lambda>b. addr - rb_offset b < rb_length b"
  have ok: "\<forall>c \<in> set (blocks rl). block_ok c" using wf by (simp add: ram_wf_def)
  with a b have "?P b" by (simp add: in_block)
  then obtain ys c zs where e: "List.extract ?P (blocks rl) = Some (ys, c, zs)"
    using b extract_None_iff [of ?P "blocks rl"] by (cases "List.extract ?P (blocks rl)") auto
  then have bl: "blocks rl = ys @ c # zs" and c: "?P c" by (auto simp: extract_Some_iff)
  then have "unat addr \<in> ram_range c" using ok by (simp add: in_block)
  with wf a b bl have "c = b" by (auto simp: ram_wf_def intro: apart_at(1))
  with e bl that show ?thesis by (simp add: qemu_get_ram_ptr_def)
qed

lemma qemu_get_ram_ptr_none:
  assumes wf: "ram_wf rl" and "\<forall>b \<in> set (blocks rl). unat addr \<notin> ram_range b"
  shows "qemu_get_ram_ptr rl addr = Inl Abort"
proof -
  have "List.extract (\<lambda>b. addr - rb_offset b < rb_length b) (blocks rl) = None"
    using assms by (auto simp: extract_None_iff ram_wf_def in_block)
  then show ?thesis by (simp add: qemu_get_ram_ptr_def)
qed

lemma ram_wf_set_eq:
  "ram_wf (rl\<lparr>blocks := b # ys @ zs\<rparr>) \<longleftrightarrow> ram_wf (rl\<lparr>blocks := ys @ b # zs\<rparr>)"
  by (auto simp: ram_wf_def sorted_wrt_append apart_sym)

text \<open>The pointer of an offset depends on the set of blocks only, not on their order.\<close>

lemma qemu_get_ram_ptr_cong:
  assumes "ram_wf rl" "ram_wf rl'" "set (blocks rl) = set (blocks rl')"
  shows "andthen (qemu_get_ram_ptr rl a) (\<lambda>(_, p). Inr p) =
         andthen (qemu_get_ram_ptr rl' a) (\<lambda>(_, p). Inr p)"
proof (cases "\<exists>b \<in> set (blocks rl). unat a \<in> ram_range b")
  case True
  then obtain b where b: "b \<in> set (blocks rl)" "unat a \<in> ram_range b" by blast
  have "andthen (qemu_get_ram_ptr r a) (\<lambda>(_, p). Inr p) = Inr (rb_host b + (a - rb_offset b))"
    if "ram_wf r" "b \<in> set (blocks r)" for r
    by (rule qemu_get_ram_ptr_in [OF that b(2)]) simp
  with assms b(1) show ?thesis by (simp del: andthen_eq_Inr)
next
  case False
  with assms show ?thesis by (simp add: qemu_get_ram_ptr_none)
qed

text \<open>
  C14: The two translations are inverse: for an offset inside a block, qemu_get_ram_ptr returns
  the pointer at the same distance in the host memory of that block, and
  qemu_ram_addr_from_host gives the offset back. Moving the block to the front changes no
  later lookup of an offset, and the list stays well formed.
\<close>
theorem qemu_ram_ptr_roundtrip:
  assumes "ram_wf rl" and "b \<in> set (blocks rl)" and "unat addr \<in> ram_range b"
  shows "\<exists>rl' p. qemu_get_ram_ptr rl addr = Inr (rl', p)
    \<and> p = rb_host b + (addr - rb_offset b)
    \<and> qemu_ram_addr_from_host rl' p = Inr addr
    \<and> ram_wf rl' \<and> hd (blocks rl') = b \<and> set (blocks rl') = set (blocks rl)
    \<and> (\<forall>a. andthen (qemu_get_ram_ptr rl' a) (\<lambda>(_, q). Inr q) =
           andthen (qemu_get_ram_ptr rl a) (\<lambda>(_, q). Inr q))"
proof -
  from qemu_get_ram_ptr_in [OF assms] obtain ys zs where bl: "blocks rl = ys @ b # zs"
    and g: "qemu_get_ram_ptr rl addr =
            Inr (rl\<lparr>blocks := b # ys @ zs\<rparr>, rb_host b + (addr - rb_offset b))" .
  have "rl\<lparr>blocks := ys @ b # zs\<rparr> = rl" using bl by simp
  then have wf: "ram_wf (rl\<lparr>blocks := b # ys @ zs\<rparr>)" using assms(1) by (simp add: ram_wf_set_eq)
  have "block_ok b" using assms(1,2) by (simp add: ram_wf_def)
  then have "addr - rb_offset b < rb_length b" using assms(3) by (simp add: in_block)
  then have "qemu_ram_addr_from_host (rl\<lparr>blocks := b # ys @ zs\<rparr>)
      (rb_host b + (addr - rb_offset b)) = Inr addr"
    by (simp add: qemu_ram_addr_from_host_def)
  moreover have "set (blocks (rl\<lparr>blocks := b # ys @ zs\<rparr>)) = set (blocks rl)" using bl by auto
  ultimately show ?thesis using g wf qemu_get_ram_ptr_cong [OF wf assms(1)] by simp
qed

theorem qemu_ram_ptr_roundtrip_witness:
  "\<exists>rl'. qemu_get_ram_ptr \<lparr>phys_dirty = (\<lambda>_. 0), dirty_size = 3,
       blocks = [\<lparr>rb_host = 0x10000, rb_offset = 0, rb_length = 0x2000, rb_idstr = ''pc.ram''\<rparr>,
                 \<lparr>rb_host = 0x20000, rb_offset = 0x2000, rb_length = 0x1000, rb_idstr = ''vga''\<rparr>]\<rparr>
     0x2004 = Inr (rl', 0x20004) \<and> qemu_ram_addr_from_host rl' 0x20004 = Inr 0x2004"
proof -
  let ?v = "\<lparr>rb_host = 0x20000, rb_offset = 0x2000, rb_length = 0x1000, rb_idstr = ''vga''\<rparr>"
  let ?rl = "\<lparr>phys_dirty = (\<lambda>_. 0), dirty_size = 3,
       blocks = [\<lparr>rb_host = 0x10000, rb_offset = 0, rb_length = 0x2000, rb_idstr = ''pc.ram''\<rparr>, ?v]\<rparr>"
  have "ram_wf ?rl"
    by (simp add: ram_wf_def block_ok_def apart_def ram_range_def host_range_def)
  moreover have "?v \<in> set (blocks ?rl)" and "unat (0x2004 :: u64) \<in> ram_range ?v"
    by (simp_all add: ram_range_def)
  ultimately obtain rl' p where "qemu_get_ram_ptr ?rl 0x2004 = Inr (rl', p)"
    "p = rb_host ?v + (0x2004 - rb_offset ?v)" "qemu_ram_addr_from_host rl' p = Inr 0x2004"
    using qemu_ram_ptr_roundtrip [of ?rl ?v "0x2004"] by blast
  then show ?thesis by simp
qed

end
