(* ===== verification/Soft_TLB.thy ===== *)
theory Soft_TLB
  imports RAM_Blocks
begin

text \<open>
  The software TLB of exec.c and the jump cache that is flushed with it: CPUState with the
  fields of CPU_COMMON that these functions touch, tlb_flush and its variants, the region of
  large pages, tlb_set_page, the dirty tracking of TLB entries and the watchpoint list.
  An array of fixed size is a function on its indices; the statistics counter
  tlb_flush_count and the debug output are left out.
\<close>

section \<open>State\<close>

record CPUTLBEntry =
  addr_read :: u64
  addr_write :: u64
  addr_code :: u64
  addend :: u64

record CPUBreakpoint =
  bp_pc :: u64
  bp_flags :: u32

text \<open>\<open>wp_ref\<close> is the address of the watchpoint, which tells two equal ones apart.\<close>

record CPUWatchpoint =
  wp_ref :: nat
  wp_vaddr :: u64
  wp_len_mask :: u64
  wp_flags :: u32

record CPUState =
  current_tb :: tbptr
  mem_io_pc :: u64
  mem_io_vaddr :: u64
  interrupt_request :: u32
  exit_request :: u32
  tlb_table :: "nat \<Rightarrow> nat \<Rightarrow> CPUTLBEntry"
  iotlb :: "nat \<Rightarrow> nat \<Rightarrow> u64"
  tlb_flush_addr :: u64
  tlb_flush_mask :: u64
  tb_jmp_cache :: "nat \<Rightarrow> tbptr"
  icount_high :: u16
  breakpoints :: "CPUBreakpoint list"
  singlestep_enabled :: u32
  watchpoints :: "CPUWatchpoint list"
  watchpoint_hit :: "nat option"
  exception_index :: u32
  cpu_index :: nat

text \<open>A CPU as qemu_mallocz leaves it, all fields zero.\<close>

definition CPUState_zero :: CPUState where
  "CPUState_zero = \<lparr>current_tb = None, mem_io_pc = 0, mem_io_vaddr = 0, interrupt_request = 0,
     exit_request = 0,
     tlb_table = (\<lambda>_ _. \<lparr>addr_read = 0, addr_write = 0, addr_code = 0, addend = 0\<rparr>),
     iotlb = (\<lambda>_ _. 0), tlb_flush_addr = 0, tlb_flush_mask = 0, tb_jmp_cache = (\<lambda>_. None),
     icount_high = 0, breakpoints = [], singlestep_enabled = 0, watchpoints = [],
     watchpoint_hit = None, exception_index = 0, cpu_index = 0\<rparr>"

abbreviation (input) CPU_TLB_SIZE :: nat where "CPU_TLB_SIZE \<equiv> 256"
abbreviation (input) NB_MMU_MODES :: nat where "NB_MMU_MODES \<equiv> 2"
abbreviation (input) TLB_INVALID_MASK :: u64 where "TLB_INVALID_MASK \<equiv> 0x8"
abbreviation (input) TLB_NOTDIRTY :: u64 where "TLB_NOTDIRTY \<equiv> 0x10"
abbreviation (input) TLB_MMIO :: u64 where "TLB_MMIO \<equiv> 0x20"
abbreviation (input) TB_JMP_CACHE_SIZE :: nat where "TB_JMP_CACHE_SIZE \<equiv> 4096"
abbreviation (input) TB_JMP_PAGE_BITS :: nat where "TB_JMP_PAGE_BITS \<equiv> 6"
abbreviation (input) TB_JMP_PAGE_SIZE :: nat where "TB_JMP_PAGE_SIZE \<equiv> 64"
abbreviation (input) TB_JMP_ADDR_MASK :: u64 where "TB_JMP_ADDR_MASK \<equiv> 0x3F"
abbreviation (input) TB_JMP_PAGE_MASK :: u64 where "TB_JMP_PAGE_MASK \<equiv> 0xFC0"
abbreviation (input) IO_MEM_ROMD :: u64 where "IO_MEM_ROMD \<equiv> 1"
abbreviation (input) PAGE_READ :: u32 where "PAGE_READ \<equiv> 1"
abbreviation (input) PAGE_WRITE :: u32 where "PAGE_WRITE \<equiv> 2"
abbreviation (input) PAGE_EXEC :: u32 where "PAGE_EXEC \<equiv> 4"
abbreviation (input) BP_MEM_READ :: u32 where "BP_MEM_READ \<equiv> 1"
abbreviation (input) BP_MEM_WRITE :: u32 where "BP_MEM_WRITE \<equiv> 2"
abbreviation (input) BP_STOP_BEFORE_ACCESS :: u32 where "BP_STOP_BEFORE_ACCESS \<equiv> 4"
abbreviation (input) BP_WATCHPOINT_HIT :: u32 where "BP_WATCHPOINT_HIT \<equiv> 8"
abbreviation (input) BP_GDB :: u32 where "BP_GDB \<equiv> 16"

section \<open>Hashing and flushing\<close>

definition tb_jmp_cache_hash_page :: "u64 \<Rightarrow> nat" where
  "tb_jmp_cache_hash_page pc =
     (let tmp = pc XOR drop_bit (TARGET_PAGE_BITS - TB_JMP_PAGE_BITS) pc
      in unat (drop_bit (TARGET_PAGE_BITS - TB_JMP_PAGE_BITS) tmp AND TB_JMP_PAGE_MASK))"

definition tb_jmp_cache_hash_func :: "u64 \<Rightarrow> nat" where
  "tb_jmp_cache_hash_func pc =
     (let tmp = pc XOR drop_bit (TARGET_PAGE_BITS - TB_JMP_PAGE_BITS) pc
      in unat ((drop_bit (TARGET_PAGE_BITS - TB_JMP_PAGE_BITS) tmp AND TB_JMP_PAGE_MASK)
               OR (tmp AND TB_JMP_ADDR_MASK)))"

text \<open>memset of \<open>n\<close> pointers to zero from index \<open>i\<close>.\<close>

definition clear_ptrs :: "nat \<Rightarrow> nat \<Rightarrow> (nat \<Rightarrow> tbptr) \<Rightarrow> nat \<Rightarrow> tbptr" where
  "clear_ptrs i n a = (\<lambda>j. if i \<le> j \<and> j < i + n then None else a j)"

definition tlb_flush_jmp_cache :: "CPUState \<Rightarrow> u64 \<Rightarrow> CPUState" where
  "tlb_flush_jmp_cache env addr =
     (let a = clear_ptrs (tb_jmp_cache_hash_page (addr - TARGET_PAGE_SIZE)) TB_JMP_PAGE_SIZE
                (tb_jmp_cache env);
          a = clear_ptrs (tb_jmp_cache_hash_page addr) TB_JMP_PAGE_SIZE a
      in env\<lparr>tb_jmp_cache := a\<rparr>)"

definition s_cputlb_empty_entry :: CPUTLBEntry where
  "s_cputlb_empty_entry = \<lparr>addr_read = - 1, addr_write = - 1, addr_code = - 1, addend = - 1\<rparr>"

definition tlb_flush :: "CPUState \<Rightarrow> CPUState" where
  "tlb_flush env =
     env\<lparr>current_tb := None,
         tlb_table := (\<lambda>m i. if m < NB_MMU_MODES \<and> i < CPU_TLB_SIZE then s_cputlb_empty_entry
                             else tlb_table env m i),
         tb_jmp_cache := clear_ptrs 0 TB_JMP_CACHE_SIZE (tb_jmp_cache env),
         tlb_flush_addr := - 1,
         tlb_flush_mask := 0\<rparr>"

definition tlb_flush_entry :: "CPUTLBEntry \<Rightarrow> u64 \<Rightarrow> CPUTLBEntry" where
  "tlb_flush_entry te addr =
     (if addr = addr_read te AND (TARGET_PAGE_MASK OR TLB_INVALID_MASK) \<or>
         addr = addr_write te AND (TARGET_PAGE_MASK OR TLB_INVALID_MASK) \<or>
         addr = addr_code te AND (TARGET_PAGE_MASK OR TLB_INVALID_MASK)
      then s_cputlb_empty_entry else te)"

definition tlb_index :: "u64 \<Rightarrow> nat" where
  "tlb_index addr = unat (drop_bit TARGET_PAGE_BITS addr AND 0xFF)"

definition tlb_flush_page :: "CPUState \<Rightarrow> u64 \<Rightarrow> CPUState" where
  "tlb_flush_page env addr =
     (if addr AND tlb_flush_mask env = tlb_flush_addr env then tlb_flush env
      else
        let a = addr AND TARGET_PAGE_MASK;
            i = tlb_index a;
            env = env\<lparr>current_tb := None,
                      tlb_table := (\<lambda>m j. if m < NB_MMU_MODES \<and> j = i
                                          then tlb_flush_entry (tlb_table env m j) a
                                          else tlb_table env m j)\<rparr>
        in tlb_flush_jmp_cache env a)"

section \<open>Large pages\<close>

text \<open>The loop of tlb_add_large_page; each round shifts one more bit out, so 64 rounds are
  enough (lemma \<open>widen_mask_done\<close>).\<close>

fun widen_mask :: "nat \<Rightarrow> u64 \<Rightarrow> u64 \<Rightarrow> u64" where
  "widen_mask 0 d mk = mk"
| "widen_mask (Suc n) d mk = (if d AND mk \<noteq> 0 then widen_mask n d (push_bit 1 mk) else mk)"

definition tlb_add_large_page :: "CPUState \<Rightarrow> u64 \<Rightarrow> u64 \<Rightarrow> CPUState" where
  "tlb_add_large_page env vaddr sz =
     (let mk = NOT (sz - 1)
      in if tlb_flush_addr env = - 1
         then env\<lparr>tlb_flush_addr := vaddr AND mk, tlb_flush_mask := mk\<rparr>
         else
           let mk = widen_mask 64 (tlb_flush_addr env XOR vaddr) (mk AND tlb_flush_mask env)
           in env\<lparr>tlb_flush_addr := tlb_flush_addr env AND mk, tlb_flush_mask := mk\<rparr>)"

section \<open>Filling an entry\<close>

definition wp_page_hit :: "CPUState \<Rightarrow> u64 \<Rightarrow> u32 \<Rightarrow> bool" where
  "wp_page_hit env vaddr prot \<longleftrightarrow>
     (\<exists>wp \<in> set (watchpoints env). vaddr = wp_vaddr wp AND TARGET_PAGE_MASK \<and>
        (prot AND PAGE_WRITE \<noteq> 0 \<or> wp_flags wp AND BP_MEM_READ \<noteq> 0))"

text \<open>The iotlb value, the virtual address with its flags and the entry that tlb_set_page
  computes; \<open>pd\<close> is the phys_offset of the page and \<open>hit\<close> says that a watchpoint traps it.\<close>

definition tlb_page_iotlb :: "PhysPageDesc option \<Rightarrow> u64 \<Rightarrow> u64 \<Rightarrow> u64" where
  "tlb_page_iotlb p pd paddr =
     (if pd AND 0xFFF \<le> IO_MEM_ROM
      then (pd AND TARGET_PAGE_MASK) OR
           (if pd AND 0xFFF = IO_MEM_RAM then IO_MEM_NOTDIRTY else IO_MEM_ROM)
      else (pd AND 0xFFF) + (case p of Some d \<Rightarrow> region_offset d | None \<Rightarrow> paddr))"

definition tlb_page_address :: "u64 \<Rightarrow> u64 \<Rightarrow> u64" where
  "tlb_page_address pd vaddr =
     (if pd AND 0xFFF > IO_MEM_ROM \<and> pd AND IO_MEM_ROMD = 0 then vaddr OR TLB_MMIO else vaddr)"

definition tlb_page_entry :: "RAMList \<Rightarrow> u64 \<Rightarrow> u64 \<Rightarrow> bool \<Rightarrow> u32 \<Rightarrow> u64 \<Rightarrow> CPUTLBEntry" where
  "tlb_page_entry rl pd vaddr hit prot ptr =
     (let code_address = tlb_page_address pd vaddr;
          address = (if hit then code_address OR TLB_MMIO else code_address)
      in \<lparr>addr_read = (if prot AND PAGE_READ \<noteq> 0 then address else - 1),
          addr_write =
            (if prot AND PAGE_WRITE \<noteq> 0 then
               if pd AND 0xFFF = IO_MEM_ROM \<or> pd AND IO_MEM_ROMD \<noteq> 0 then address OR TLB_MMIO
               else if pd AND 0xFFF = IO_MEM_RAM \<and> \<not> cpu_physical_memory_is_dirty rl pd
               then address OR TLB_NOTDIRTY
               else address
             else - 1),
          addr_code = (if prot AND PAGE_EXEC \<noteq> 0 then code_address else - 1),
          addend = ptr - vaddr\<rparr>)"

text \<open>
  tlb_set_page reads the physical page table \<open>pm\<close> and the RAM list \<open>rl\<close>; the latter comes
  back reordered by qemu_get_ram_ptr. \<open>io_mem_watch\<close> is the io index of the watchpoint
  handlers.
\<close>

definition tlb_set_page ::
  "u64 \<Rightarrow> PhysPageDesc l1map \<Rightarrow> RAMList \<Rightarrow> CPUState \<Rightarrow> u64 \<Rightarrow> u64 \<Rightarrow> u32 \<Rightarrow> nat \<Rightarrow> u64
     \<Rightarrow> (CPUState \<times> RAMList) result" where
  "tlb_set_page io_mem_watch pm rl env vaddr paddr prot mmu_idx sz =
     (if sz < TARGET_PAGE_SIZE then Inl AssertFail
      else
        let env = (if sz \<noteq> TARGET_PAGE_SIZE then tlb_add_large_page env vaddr sz else env);
            p = (case phys_page_find pm (unat (drop_bit TARGET_PAGE_BITS paddr)) of
                   None \<Rightarrow> None | Some q \<Rightarrow> pd_get pm q);
            pd = (case p of None \<Rightarrow> IO_MEM_UNASSIGNED | Some d \<Rightarrow> phys_offset d)
        in andthen (qemu_get_ram_ptr rl (pd AND TARGET_PAGE_MASK)) (\<lambda>(rl, ptr).
           let hit = wp_page_hit env vaddr prot;
               io = (if hit then io_mem_watch + paddr else tlb_page_iotlb p pd paddr);
               index = tlb_index vaddr;
               te = tlb_page_entry rl pd vaddr hit prot ptr
           in Inr (env\<lparr>iotlb := (\<lambda>m i. if m = mmu_idx \<and> i = index then io - vaddr else iotlb env m i),
                       tlb_table := (\<lambda>m i. if m = mmu_idx \<and> i = index then te
                                           else tlb_table env m i)\<rparr>, rl)))"

section \<open>Dirty tracking\<close>

definition tlb_reset_dirty_range :: "CPUTLBEntry \<Rightarrow> u64 \<Rightarrow> u64 \<Rightarrow> CPUTLBEntry" where
  "tlb_reset_dirty_range te start len =
     (if addr_write te AND 0xFFF = IO_MEM_RAM \<and>
         (addr_write te AND TARGET_PAGE_MASK) + addend te - start < len
      then te\<lparr>addr_write := (addr_write te AND TARGET_PAGE_MASK) OR TLB_NOTDIRTY\<rparr>
      else te)"

definition map_tlb :: "(CPUTLBEntry \<Rightarrow> CPUTLBEntry) \<Rightarrow> CPUState \<Rightarrow> CPUState" where
  "map_tlb f env = env\<lparr>tlb_table := (\<lambda>m i. if m < NB_MMU_MODES \<and> i < CPU_TLB_SIZE
                                           then f (tlb_table env m i) else tlb_table env m i)\<rparr>"

definition cpu_physical_memory_reset_dirty ::
  "RAMList \<Rightarrow> CPUState list \<Rightarrow> u64 \<Rightarrow> u64 \<Rightarrow> u8 \<Rightarrow> (RAMList \<times> CPUState list) result" where
  "cpu_physical_memory_reset_dirty rl cpus start0 end0 dirty_flags =
     (let start = start0 AND TARGET_PAGE_MASK;
          e = TARGET_PAGE_ALIGN end0;
          len = e - start
      in if len = 0 then Inr (rl, cpus)
         else
           let rl = cpu_physical_memory_mask_dirty_range rl start (ucast len) dirty_flags
           in andthen (qemu_get_ram_ptr rl start) (\<lambda>(rl, start1).
              andthen (qemu_get_ram_ptr rl (e - 1)) (\<lambda>(rl, last1).
              if last1 - start1 \<noteq> (e - 1) - start then Inl Abort
              else Inr (rl, map (map_tlb (\<lambda>te. tlb_reset_dirty_range te start1 len)) cpus))))"

definition tlb_protect_code ::
  "RAMList \<Rightarrow> CPUState list \<Rightarrow> u64 \<Rightarrow> (RAMList \<times> CPUState list) result" where
  "tlb_protect_code rl cpus ram_addr =
     cpu_physical_memory_reset_dirty rl cpus ram_addr (ram_addr + TARGET_PAGE_SIZE) CODE_DIRTY_FLAG"

definition tlb_unprotect_code_phys :: "RAMList \<Rightarrow> u64 \<Rightarrow> RAMList" where
  "tlb_unprotect_code_phys rl ram_addr = cpu_physical_memory_set_dirty_flags rl ram_addr CODE_DIRTY_FLAG"

definition tlb_update_dirty :: "RAMList \<Rightarrow> CPUTLBEntry \<Rightarrow> CPUTLBEntry result" where
  "tlb_update_dirty rl te =
     (if addr_write te AND 0xFFF = IO_MEM_RAM then
        andthen (qemu_ram_addr_from_host rl ((addr_write te AND TARGET_PAGE_MASK) + addend te))
          (\<lambda>ram_addr. Inr (if cpu_physical_memory_is_dirty rl ram_addr then te
                           else te\<lparr>addr_write := addr_write te OR TLB_NOTDIRTY\<rparr>))
      else Inr te)"

definition cpu_tlb_update_dirty :: "RAMList \<Rightarrow> CPUState \<Rightarrow> CPUState result" where
  "cpu_tlb_update_dirty rl env =
     foldl (\<lambda>r (m, i). andthen r (\<lambda>env.
              andthen (tlb_update_dirty rl (tlb_table env m i)) (\<lambda>te.
              Inr (env\<lparr>tlb_table := (tlb_table env)(m := (tlb_table env m)(i := te))\<rparr>))))
       (Inr env) (List.product [0..<NB_MMU_MODES] [0..<CPU_TLB_SIZE])"

definition tlb_set_dirty1 :: "CPUTLBEntry \<Rightarrow> u64 \<Rightarrow> CPUTLBEntry" where
  "tlb_set_dirty1 te vaddr =
     (if addr_write te = vaddr OR TLB_NOTDIRTY then te\<lparr>addr_write := vaddr\<rparr> else te)"

definition tlb_set_dirty :: "CPUState \<Rightarrow> u64 \<Rightarrow> CPUState" where
  "tlb_set_dirty env vaddr =
     (let v = vaddr AND TARGET_PAGE_MASK;
          i = tlb_index v
      in env\<lparr>tlb_table := (\<lambda>m j. if m < NB_MMU_MODES \<and> j = i
                                 then tlb_set_dirty1 (tlb_table env m j) v
                                 else tlb_table env m j)\<rparr>)"

section \<open>Watchpoints\<close>

definition ENOENT :: int where "ENOENT = 2"
definition EINVAL :: int where "EINVAL = 22"

text \<open>\<open>ref\<close> is the address that qemu_malloc returns for the new watchpoint.\<close>

definition cpu_watchpoint_insert ::
  "nat \<Rightarrow> CPUState \<Rightarrow> u64 \<Rightarrow> u64 \<Rightarrow> u32 \<Rightarrow> CPUState \<times> int" where
  "cpu_watchpoint_insert ref env addr len flags =
     (let len_mask = NOT (len - 1)
      in if (len \<noteq> 1 \<and> len \<noteq> 2 \<and> len \<noteq> 4 \<and> len \<noteq> 8) \<or> addr AND NOT len_mask \<noteq> 0
         then (env, - EINVAL)
         else
           let wp = \<lparr>wp_ref = ref, wp_vaddr = addr, wp_len_mask = len_mask, wp_flags = flags\<rparr>;
               env = env\<lparr>watchpoints := (if flags AND BP_GDB \<noteq> 0 then wp # watchpoints env
                                         else watchpoints env @ [wp])\<rparr>
           in (tlb_flush_page env addr, 0))"

definition cpu_watchpoint_remove_by_ref :: "CPUState \<Rightarrow> CPUWatchpoint \<Rightarrow> CPUState" where
  "cpu_watchpoint_remove_by_ref env wp =
     tlb_flush_page (env\<lparr>watchpoints := filter (\<lambda>w. wp_ref w \<noteq> wp_ref wp) (watchpoints env)\<rparr>)
       (wp_vaddr wp)"

definition cpu_watchpoint_remove :: "CPUState \<Rightarrow> u64 \<Rightarrow> u64 \<Rightarrow> u32 \<Rightarrow> CPUState \<times> int" where
  "cpu_watchpoint_remove env addr len flags =
     (let len_mask = NOT (len - 1)
      in case List.find (\<lambda>wp. addr = wp_vaddr wp \<and> len_mask = wp_len_mask wp \<and>
                flags = wp_flags wp AND NOT BP_WATCHPOINT_HIT) (watchpoints env) of
           Some wp \<Rightarrow> (cpu_watchpoint_remove_by_ref env wp, 0)
         | None \<Rightarrow> (env, - ENOENT))"

definition cpu_watchpoint_remove_all :: "CPUState \<Rightarrow> u32 \<Rightarrow> CPUState" where
  "cpu_watchpoint_remove_all env mk =
     foldl (\<lambda>e wp. if wp_flags wp AND mk \<noteq> 0 then cpu_watchpoint_remove_by_ref e wp else e)
       env (watchpoints env)"

section \<open>Indices and hashes\<close>

lemma tlb_index_page: "a AND - 4096 = b AND - 4096 \<Longrightarrow> tlb_index a = tlb_index b"
  unfolding tlb_index_def by (drule same_page_drop) (simp only:)

lemma hash_page_bits:
  "bit (drop_bit 6 (pc XOR drop_bit 6 pc) AND 0xFC0 :: u64) n \<longleftrightarrow>
     6 \<le> n \<and> n < 12 \<and> bit pc (n + 6) \<noteq> bit pc (n + 12)"
proof -
  have e: "(0xFC0 :: u64) = push_bit 6 (mask 6)" by (simp add: mask_eq_exp_minus_1)
  have "bit (0xFC0 :: u64) n \<longleftrightarrow> 6 \<le> n \<and> n < 12"
    by (simp only: e bit_push_bit_iff bit_mask_iff possible_bit_word) auto
  moreover have "6 + n = n + 6" "6 + (n + 6) = n + 12" by simp_all
  ultimately show ?thesis by (simp only: bit_and_iff bit_xor_iff bit_drop_bit_eq o_def) blast
qed

lemma hash_page_same:
  assumes "a AND - 4096 = b AND - 4096"
  shows "tb_jmp_cache_hash_page a = tb_jmp_cache_hash_page b"
proof -
  have "drop_bit 6 (a XOR drop_bit 6 a) AND 0xFC0 = drop_bit 6 (b XOR drop_bit 6 b) AND 0xFC0"
  proof (rule bit_word_eqI, simp only: hash_page_bits)
    fix n :: nat
    show "(6 \<le> n \<and> n < 12 \<and> bit a (n + 6) \<noteq> bit a (n + 12)) =
          (6 \<le> n \<and> n < 12 \<and> bit b (n + 6) \<noteq> bit b (n + 12))"
      using same_page_bit [OF assms, of "n + 6"] same_page_bit [OF assms, of "n + 12"] by auto
  qed
  then show ?thesis by (simp add: tb_jmp_cache_hash_page_def Let_def)
qed

lemma hash_func_range:
  "tb_jmp_cache_hash_page pc \<le> tb_jmp_cache_hash_func pc"
  "tb_jmp_cache_hash_func pc < tb_jmp_cache_hash_page pc + 64"
  "tb_jmp_cache_hash_page pc + 64 \<le> 4096"
proof -
  define x where "x = drop_bit 6 (pc XOR drop_bit 6 pc) AND 0xFC0"
  define y where "y = (pc XOR drop_bit 6 pc) AND 0x3F"
  have "bit (y :: u64) n \<Longrightarrow> n < 6" for n
  proof -
    have e: "(0x3F :: u64) = mask 6" by (simp add: mask_eq_exp_minus_1)
    show "bit y n \<Longrightarrow> n < 6" by (simp only: y_def e bit_and_iff bit_mask_iff)
  qed
  moreover have "bit x n \<Longrightarrow> 6 \<le> n" for n by (simp only: x_def hash_page_bits)
  ultimately have "\<not> bit (x AND y) n" for n by (meson bit_and_iff leD)
  then have "x AND y = 0" by (intro bit_word_eqI) simp
  then have "x OR y = x + y" using word_plus_and_or [of x y] by simp
  moreover have "unat x \<le> 4032" "unat y \<le> 63"
    using word_and_le1 [of "drop_bit 6 (pc XOR drop_bit 6 pc)" 4032]
      word_and_le1 [of "pc XOR drop_bit 6 pc" 63]
    by (simp_all add: x_def y_def word_le_nat_alt)
  ultimately have "unat (x OR y) = unat x + unat y" by (simp add: unat_word_ariths)
  moreover have "tb_jmp_cache_hash_page pc = unat x" "tb_jmp_cache_hash_func pc = unat (x OR y)"
    by (simp_all add: tb_jmp_cache_hash_page_def tb_jmp_cache_hash_func_def x_def y_def Let_def)
  ultimately show "tb_jmp_cache_hash_page pc \<le> tb_jmp_cache_hash_func pc"
    "tb_jmp_cache_hash_func pc < tb_jmp_cache_hash_page pc + 64"
    "tb_jmp_cache_hash_page pc + 64 \<le> 4096"
    using \<open>unat x \<le> 4032\<close> \<open>unat y \<le> 63\<close> by linarith+
qed


section \<open>Flushing a page\<close>

text \<open>The comparison that the load and store helpers of softmmu_template.h make.\<close>

definition tlb_match :: "u64 \<Rightarrow> u64 \<Rightarrow> bool" where
  "tlb_match tlb_addr addr \<longleftrightarrow>
     addr AND TARGET_PAGE_MASK = tlb_addr AND (TARGET_PAGE_MASK OR TLB_INVALID_MASK)"

definition tlb_hits :: "CPUTLBEntry \<Rightarrow> u64 \<Rightarrow> bool" where
  "tlb_hits te addr \<longleftrightarrow>
     tlb_match (addr_read te) addr \<or> tlb_match (addr_write te) addr \<or> tlb_match (addr_code te) addr"

lemma tlb_match_invalid [simp]: "\<not> tlb_match (- 1) addr"
proof
  assume "tlb_match (- 1) addr"
  then have "bit (addr AND - 4096) 3 = bit (- 4088 :: u64) 3" by (simp add: tlb_match_def)
  then show False unfolding bit_not_FFF by (simp add: bit_iff_odd_drop_bit)
qed

lemma empty_entry_misses [simp]: "\<not> tlb_hits s_cputlb_empty_entry addr"
  by (simp add: tlb_hits_def s_cputlb_empty_entry_def)

lemma tlb_flush_entry_eq:
  "tlb_flush_entry te (addr AND - 4096) = (if tlb_hits te addr then s_cputlb_empty_entry else te)"
  by (simp add: tlb_flush_entry_def tlb_hits_def tlb_match_def)

lemma tlb_index_less [simp]: "tlb_index a < 256"
  unfolding tlb_index_def using word_and_le1 [of "drop_bit 12 a" 255] by (simp add: word_le_nat_alt)

lemma tlb_index_idem [simp]: "tlb_index (a AND - 4096) = tlb_index a"
  by (rule tlb_index_page) simp

lemma hash_func_less [simp]: "tb_jmp_cache_hash_func pc < 4096"
  using hash_func_range [of pc] by linarith

lemma tlb_hits_page: "a AND - 4096 = b AND - 4096 \<Longrightarrow> tlb_hits te a = tlb_hits te b"
  by (simp add: tlb_hits_def tlb_match_def)

lemma flush_jmp_cache_clears:
  assumes "pc AND - 4096 = addr AND - 4096 \<or> pc AND - 4096 = (addr - 4096) AND - 4096"
  shows "tb_jmp_cache (tlb_flush_jmp_cache env addr) (tb_jmp_cache_hash_func pc) = None"
  using assms hash_func_range(1,2) [of pc] hash_page_same [of pc addr] hash_page_same [of pc "addr - 4096"]
  by (auto simp: tlb_flush_jmp_cache_def Let_def clear_ptrs_def)

lemma tlb_flush_clears:
  "m < 2 \<Longrightarrow> i < 256 \<Longrightarrow> tlb_table (tlb_flush env) m i = s_cputlb_empty_entry"
  "j < 4096 \<Longrightarrow> tb_jmp_cache (tlb_flush env) j = None"
  by (simp_all add: tlb_flush_def clear_ptrs_def)

lemma tlb_flush_page_misses:
  assumes "m < NB_MMU_MODES" and "a AND - 4096 = addr AND - 4096"
  shows "\<not> tlb_hits (tlb_table (tlb_flush_page env addr) m (tlb_index a)) a"
proof -
  have "tlb_index a = tlb_index addr" "\<And>te. tlb_hits te a = tlb_hits te addr"
    using assms(2) by (simp_all add: tlb_index_page [of a addr] tlb_hits_page [of a addr])
  then show ?thesis
    using assms(1) by (simp add: tlb_flush_page_def tlb_flush_clears Let_def tlb_flush_entry_eq
        tlb_flush_jmp_cache_def)
qed

text \<open>
  C4: After tlb_flush_page no TLB entry of any MMU mode matches any address of the page, for a
  read, a write or a fetch, the jump cache holds no block whose pc lies in the page or in the
  page before it, and, unless the page belongs to the remembered large page region, every
  entry that does not map the page is kept.
\<close>
theorem tlb_flush_page_correct:
  assumes "m < NB_MMU_MODES" and "a AND TARGET_PAGE_MASK = addr AND TARGET_PAGE_MASK"
  shows "\<not> tlb_hits (tlb_table (tlb_flush_page env addr) m (tlb_index a)) a
    \<and> current_tb (tlb_flush_page env addr) = None
    \<and> (\<forall>pc. pc AND TARGET_PAGE_MASK \<in> {addr AND TARGET_PAGE_MASK,
             ((addr AND TARGET_PAGE_MASK) - TARGET_PAGE_SIZE) AND TARGET_PAGE_MASK} \<longrightarrow>
          tb_jmp_cache (tlb_flush_page env addr) (tb_jmp_cache_hash_func pc) = None)
    \<and> (addr AND tlb_flush_mask env \<noteq> tlb_flush_addr env \<longrightarrow>
        (\<forall>i. i \<noteq> tlb_index addr \<or> \<not> tlb_hits (tlb_table env m i) addr \<longrightarrow>
           tlb_table (tlb_flush_page env addr) m i = tlb_table env m i))"
proof (cases "addr AND tlb_flush_mask env = tlb_flush_addr env")
  case True
  then have "tlb_flush_page env addr = tlb_flush env" by (simp add: tlb_flush_page_def)
  with True assms(1) show ?thesis by (simp add: tlb_flush_clears) (simp add: tlb_flush_def)
next
  case False
  then have f: "tlb_flush_page env addr = tlb_flush_jmp_cache
      (env\<lparr>current_tb := None,
           tlb_table := (\<lambda>m j. if m < 2 \<and> j = tlb_index addr
              then (if tlb_hits (tlb_table env m j) addr then s_cputlb_empty_entry
                    else tlb_table env m j) else tlb_table env m j)\<rparr>) (addr AND - 4096)"
    by (simp add: tlb_flush_page_def Let_def tlb_flush_entry_eq cong: if_cong)
  have "tb_jmp_cache (tlb_flush_page env addr) (tb_jmp_cache_hash_func pc) = None"
    if "pc AND - 4096 = addr AND - 4096 \<or> pc AND - 4096 = ((addr AND - 4096) - 4096) AND - 4096" for pc
    unfolding f by (rule flush_jmp_cache_clears) (use that in simp)
  moreover have "tlb_table (tlb_flush_page env addr) m i = tlb_table env m i"
    if "i \<noteq> tlb_index addr \<or> \<not> tlb_hits (tlb_table env m i) addr" for i
    using that by (auto simp: f tlb_flush_jmp_cache_def Let_def)
  moreover have "current_tb (tlb_flush_page env addr) = None"
    by (simp add: f tlb_flush_jmp_cache_def Let_def)
  ultimately show ?thesis using tlb_flush_page_misses [of m a addr env] assms by auto
qed

section \<open>The large page region\<close>

definition large_ok :: "CPUState \<Rightarrow> bool" where
  "large_ok env \<longleftrightarrow> (tlb_flush_addr env = - 1 \<and> tlb_flush_mask env = 0) \<or>
     (\<exists>k \<ge> 12. tlb_flush_mask env = NOT (mask k) \<and>
        tlb_flush_addr env AND tlb_flush_mask env = tlb_flush_addr env)"

lemma push_bit_not_mask: "push_bit 1 (NOT (mask k)) = (NOT (mask (Suc k)) :: u64)"
  by (rule bit_word_eqI, simp only: bit_push_bit_iff bit_not_iff bit_mask_iff possible_bit_word) auto

lemmas not_mask_double = push_bit_not_mask [simplified]

lemma not_mask_and: "NOT (mask j) AND NOT (mask k) = (NOT (mask (max j k)) :: u64)"
  by (rule bit_word_eqI) (auto simp: bit_simps)

lemma widen_mask_done:
  "\<exists>k \<ge> j. widen_mask n d (NOT (mask j)) = NOT (mask k) \<and> (d AND NOT (mask k) = 0 \<or> k = j + n)"
proof (induction n arbitrary: j)
  case (Suc n)
  from Suc.IH [of "Suc j"] obtain k where "k \<ge> Suc j"
    "widen_mask n d (NOT (mask (Suc j))) = NOT (mask k)" "d AND NOT (mask k) = 0 \<or> k = Suc j + n"
    by blast
  then show ?case
    by (intro exI [of _ "if d AND NOT (mask j) = 0 then j else k"]) (auto simp: not_mask_double)
qed auto

lemma widen_mask_64:
  obtains k where "k \<ge> j" "widen_mask 64 d (NOT (mask j)) = NOT (mask k)" "d AND NOT (mask k) = 0"
proof -
  obtain k where k: "k \<ge> j" "widen_mask 64 d (NOT (mask j)) = NOT (mask k)"
    "d AND NOT (mask k) = 0 \<or> k = j + 64" using widen_mask_done by blast
  have "NOT (mask (j + 64)) = (0 :: u64)" by (rule bit_word_eqI) (auto simp: bit_simps)
  then have "d AND NOT (mask k) = 0" using k(3) by auto
  with k(1,2) that show ?thesis by blast
qed

lemma and_not_mask_mono:
  "a AND NOT (mask j) = b AND NOT (mask j) \<Longrightarrow> j \<le> k \<Longrightarrow> a AND NOT (mask k) = (b :: u64) AND NOT (mask k)"
  by (metis (no_types, lifting) and.assoc max.absorb2 not_mask_and)

text \<open>
  C15: The remembered region covers every large page entered since the last full flush:
  adding a page of size 2^s extends the region to all addresses of that page and keeps those
  that it covered, so tlb_flush_page of any such address is a full flush; the search for the
  mask always ends.
\<close>
theorem tlb_add_large_page_covers:
  assumes "large_ok env" and "12 \<le> s" and "s < 64"
    and "env' = tlb_add_large_page env vaddr (2 ^ s)"
  shows "large_ok env'
    \<and> (\<forall>a. a AND NOT (2 ^ s - 1) = vaddr AND NOT (2 ^ s - 1) \<longrightarrow>
          tlb_flush_page env' a = tlb_flush env')
    \<and> (\<forall>a. a AND tlb_flush_mask env = tlb_flush_addr env \<longrightarrow>
          tlb_flush_page env' a = tlb_flush env')
    \<and> tlb_flush_addr env' \<noteq> - 1"
proof -
  have sz: "2 ^ s - 1 = (mask s :: u64)" by (simp add: mask_eq_exp_minus_1)
  have cov: "tlb_flush_page env' a = tlb_flush env'"
    if "a AND tlb_flush_mask env' = tlb_flush_addr env'" for a using that by (simp add: tlb_flush_page_def)
  have ne: "x AND NOT (mask k) \<noteq> - 1" if "12 \<le> k" for x :: u64 and k
  proof
    assume "x AND NOT (mask k) = - 1"
    then have "bit (x AND NOT (mask k)) 0 = bit (- 1 :: u64) 0" by simp
    with that show False by (simp add: bit_simps)
  qed
  show ?thesis
  proof (cases "tlb_flush_addr env = - 1")
    case True
    with assms(4) have e: "env' = env\<lparr>tlb_flush_addr := vaddr AND NOT (mask s), tlb_flush_mask := NOT (mask s)\<rparr>"
      by (simp add: tlb_add_large_page_def sz Let_def)
    have "tlb_flush_mask env = 0" using True assms(1) ne unfolding large_ok_def by metis
    with True e assms(2) ne [OF assms(2)] show ?thesis
      by (auto simp: sz large_ok_def tlb_flush_page_def intro!: exI [of _ s])
  next
    case False
    with assms(1) obtain k0 where k0: "12 \<le> k0" "tlb_flush_mask env = NOT (mask k0)"
      "tlb_flush_addr env AND NOT (mask k0) = tlb_flush_addr env" by (auto simp: large_ok_def)
    obtain k where k: "k \<ge> max s k0"
      "widen_mask 64 (tlb_flush_addr env XOR vaddr) (NOT (mask (max s k0))) = NOT (mask k)"
      "(tlb_flush_addr env XOR vaddr) AND NOT (mask k) = 0" using widen_mask_64 by blast
    with False assms(4) have e: "env' = env\<lparr>tlb_flush_addr := tlb_flush_addr env AND NOT (mask k),
        tlb_flush_mask := NOT (mask k)\<rparr>"
      by (simp add: tlb_add_large_page_def sz Let_def k0(2) not_mask_and)
    have eq: "vaddr AND NOT (mask k) = tlb_flush_addr env AND NOT (mask k)"
    proof (rule bit_word_eqI)
      fix n assume "n < LENGTH(64)"
      have "bit ((tlb_flush_addr env XOR vaddr) AND NOT (mask k)) n = False" by (simp add: k(3))
      then show "bit (vaddr AND NOT (mask k)) n = bit (tlb_flush_addr env AND NOT (mask k)) n"
        by (auto simp: bit_simps)
    qed
    show ?thesis
    proof (intro conjI allI impI)
      show "large_ok env'" using e k(1) k0(1) by (auto simp: large_ok_def intro!: exI [of _ k])
      show "tlb_flush_addr env' \<noteq> - 1" using ne [of k] e k(1) k0(1) by simp
      show "tlb_flush_page env' a = tlb_flush env'" if "a AND NOT (2 ^ s - 1) = vaddr AND NOT (2 ^ s - 1)" for a
        using and_not_mask_mono [OF that [unfolded sz], of k] k(1) eq by (intro cov) (simp add: e)
      show "tlb_flush_page env' a = tlb_flush env'" if "a AND tlb_flush_mask env = tlb_flush_addr env" for a
        using and_not_mask_mono [of a k0 "tlb_flush_addr env" k] that k0 k(1) by (intro cov) (simp add: e)
    qed
  qed
qed

section \<open>Filling an entry from RAM\<close>

lemma aligned_or_match:
  assumes "v AND - 4096 = (v :: u64)" and "f \<in> {0, 0x10, 0x20, 0x30}"
  shows "tlb_match (v OR f) a \<longleftrightarrow> a AND - 4096 = v"
    and "(v OR f) AND 0xFFF = f" and "(v OR f) AND - 4096 = v"
proof -
  have and_v: "v AND w = v AND (- 4096 AND w)" for w
    by (metis and.assoc assms(1))
  have M: "(v OR f) AND - 4088 = v"
    using assms and_v [of "- 4088"] by (auto simp: bit.conj_disj_distrib2)
  then show "tlb_match (v OR f) a \<longleftrightarrow> a AND - 4096 = v" by (simp add: tlb_match_def)
  show "(v OR f) AND 0xFFF = f"
    using assms(2) and_v [of "0xFFF"] by (auto simp: bit.conj_disj_distrib2)
  show "(v OR f) AND - 4096 = v" using assms by (auto simp: bit.conj_disj_distrib2)
qed

lemma add_large_page_keeps [simp]:
  "watchpoints (tlb_add_large_page env v sz) = watchpoints env"
  "tlb_table (tlb_add_large_page env v sz) = tlb_table env"
  "iotlb (tlb_add_large_page env v sz) = iotlb env"
  by (simp_all add: tlb_add_large_page_def Let_def)

lemma wp_page_hit_large [simp]:
  "wp_page_hit (tlb_add_large_page env v sz) vaddr prot = wp_page_hit env vaddr prot"
  by (simp add: wp_page_hit_def)

text \<open>
  C16: Filling the TLB from a RAM page without watchpoints: the entry of the page matches
  exactly the accesses that the protection allows, adding the addend to any address of the
  page gives the host address of that byte in the RAM block, a write takes the fast path
  exactly when the page is fully dirty, and every other entry is kept.
\<close>
theorem tlb_set_page_ram:
  assumes "TARGET_PAGE_SIZE \<le> sz" and "vaddr AND TARGET_PAGE_MASK = vaddr"
    and "phys_page_find pm (unat (drop_bit TARGET_PAGE_BITS paddr)) = Some q"
    and "pd_get pm q = Some d" and "phys_offset d AND 0xFFF = IO_MEM_RAM"
    and "ram_wf rl" and "b \<in> set (blocks rl)" and "unat (phys_offset d) \<in> ram_range b"
    and "\<not> wp_page_hit env vaddr prot"
  shows "\<exists>env' rl'. tlb_set_page w pm rl env vaddr paddr prot mmu_idx sz = Inr (env', rl')
    \<and> ram_wf rl' \<and> set (blocks rl') = set (blocks rl) \<and> phys_dirty rl' = phys_dirty rl
    \<and> (\<forall>a te. a AND TARGET_PAGE_MASK = vaddr \<and> te = tlb_table env' mmu_idx (tlb_index a) \<longrightarrow>
          (tlb_match (addr_read te) a \<longleftrightarrow> prot AND PAGE_READ \<noteq> 0)
        \<and> (tlb_match (addr_write te) a \<longleftrightarrow> prot AND PAGE_WRITE \<noteq> 0)
        \<and> (tlb_match (addr_code te) a \<longleftrightarrow> prot AND PAGE_EXEC \<noteq> 0)
        \<and> a + addend te = rb_host b + (phys_offset d + (a AND 0xFFF) - rb_offset b)
        \<and> (addr_write te AND 0xFFF = 0 \<longleftrightarrow>
             prot AND PAGE_WRITE \<noteq> 0 \<and> cpu_physical_memory_is_dirty rl (phys_offset d)))
    \<and> (\<forall>m i. m \<noteq> mmu_idx \<or> i \<noteq> tlb_index vaddr \<longrightarrow> tlb_table env' m i = tlb_table env m i)"
proof -
  have pg: "phys_offset d AND - 4096 = phys_offset d"
    using page_split [of "phys_offset d"] assms(5) by simp
  from assms(5) have romd: "phys_offset d AND 1 = 0"
  proof -
    have "phys_offset d AND 1 = (phys_offset d AND 0xFFF) AND 1" by (simp add: and.assoc)
    then show ?thesis using assms(5) by simp
  qed
  from qemu_get_ram_ptr_in [OF assms(6-8)] obtain ys zs where bl: "blocks rl = ys @ b # zs"
    and g: "qemu_get_ram_ptr rl (phys_offset d) =
            Inr (rl\<lparr>blocks := b # ys @ zs\<rparr>, rb_host b + (phys_offset d - rb_offset b))" .
  define rl' where "rl' = rl\<lparr>blocks := b # ys @ zs\<rparr>"
  have wf: "ram_wf rl'"
  proof -
    have "rl\<lparr>blocks := ys @ b # zs\<rparr> = rl" using bl by simp
    then show ?thesis using assms(6) by (simp add: rl'_def ram_wf_set_eq)
  qed
  have v: "tlb_match vaddr a \<longleftrightarrow> a AND - 4096 = vaddr" "tlb_match (vaddr OR 16) a \<longleftrightarrow> a AND - 4096 = vaddr"
    "vaddr AND 0xFFF = 0" "(vaddr OR 16) AND 0xFFF = 16" for a
    using aligned_or_match [of vaddr 0] aligned_or_match [of vaddr 16] assms(2) by simp_all
  have host: "a + (h - vaddr) = h + (a AND 0xFFF)" if "a AND - 4096 = vaddr" for a h
    using page_split [of a] that by (simp add: algebra_simps)
  have idx: "tlb_index a = tlb_index vaddr" if "a AND - 4096 = vaddr" for a
    using that assms(2) by (intro tlb_index_page) simp
  define te where "te = tlb_page_entry rl' (phys_offset d) vaddr False prot
      (rb_host b + (phys_offset d - rb_offset b))"
  define env1 where "env1 = (if sz \<noteq> 4096 then tlb_add_large_page env vaddr sz else env)"
  have wp: "wp_page_hit env1 vaddr prot = False" and tt: "tlb_table env1 = tlb_table env"
    using assms(9) by (simp_all add: env1_def)
  obtain io where r: "tlb_set_page w pm rl env vaddr paddr prot mmu_idx sz =
      Inr (env1\<lparr>iotlb := io, tlb_table := (\<lambda>m i. if m = mmu_idx \<and> i = tlb_index vaddr then te
                                          else tlb_table env1 m i)\<rparr>, rl')"
  proof (rule that)
    have "\<not> sz < 4096" using assms(1) by simp
    then show "tlb_set_page w pm rl env vaddr paddr prot mmu_idx sz =
      Inr (env1\<lparr>iotlb := (\<lambda>m i. if m = mmu_idx \<and> i = tlb_index vaddr
                               then tlb_page_iotlb (Some d) (phys_offset d) paddr - vaddr
                               else iotlb env1 m i),
                tlb_table := (\<lambda>m i. if m = mmu_idx \<and> i = tlb_index vaddr then te
                                    else tlb_table env1 m i)\<rparr>, rl')"
      unfolding tlb_set_page_def env1_def [symmetric] te_def
      by (simp add: assms(3,4) pg g wp Let_def rl'_def cong: if_cong)
  qed
  have "addr_read te = (if prot AND 1 \<noteq> 0 then vaddr else - 1)"
    "addr_write te = (if prot AND 2 \<noteq> 0 then
          if cpu_physical_memory_is_dirty rl (phys_offset d) then vaddr else vaddr OR 16 else - 1)"
    "addr_code te = (if prot AND 4 \<noteq> 0 then vaddr else - 1)"
    "addend te = rb_host b + (phys_offset d - rb_offset b) - vaddr"
    by (simp_all add: te_def tlb_page_entry_def tlb_page_address_def Let_def assms(5) romd
        rl'_def cpu_physical_memory_is_dirty_def)
  note te = this
  have "a + addend te = rb_host b + (phys_offset d + (a AND 0xFFF) - rb_offset b)"
    if "a AND - 4096 = vaddr" for a
    unfolding te(4) using host [OF that, of "rb_host b + (phys_offset d - rb_offset b)"]
    by (simp add: algebra_simps)
  then have "(tlb_match (addr_read te) a \<longleftrightarrow> prot AND PAGE_READ \<noteq> 0)
        \<and> (tlb_match (addr_write te) a \<longleftrightarrow> prot AND PAGE_WRITE \<noteq> 0)
        \<and> (tlb_match (addr_code te) a \<longleftrightarrow> prot AND PAGE_EXEC \<noteq> 0)
        \<and> a + addend te = rb_host b + (phys_offset d + (a AND 0xFFF) - rb_offset b)
        \<and> (addr_write te AND 0xFFF = 0 \<longleftrightarrow>
             prot AND PAGE_WRITE \<noteq> 0 \<and> cpu_physical_memory_is_dirty rl (phys_offset d))"
    if "a AND - 4096 = vaddr" for a
    using that v te(1-3) by simp
  with r wf idx tt show ?thesis by (auto simp: rl'_def bl)
qed

theorem tlb_flush_page_correct_witness:
  "tlb_hits (tlb_table CPUState_zero 1 0) 0x10
   \<and> \<not> tlb_hits (tlb_table (tlb_flush_page CPUState_zero 0xabc) 1 0) 0x10
   \<and> (\<exists>env. tlb_hits (tlb_table env 1 3) 0x3010 \<and> tlb_flush_mask env = 0 \<and> tlb_flush_addr env = - 1
        \<and> \<not> tlb_hits (tlb_table (tlb_flush_page env 0x3abc) 1 3) 0x3010)"
proof -
  let ?te = "\<lparr>addr_read = 0x3000, addr_write = - 1, addr_code = - 1, addend = 0\<rparr>"
  let ?env = "CPUState_zero\<lparr>tlb_table := \<lambda>_ _. ?te, tlb_flush_addr := - 1\<rparr>"
  have i: "tlb_index 0x3010 = 3" "tlb_index 0x10 = 0" by (simp_all add: tlb_index_def)
  have "tlb_hits (tlb_table CPUState_zero 1 0) 0x10"
    by (simp add: tlb_hits_def tlb_match_def CPUState_zero_def)
  moreover have "tlb_hits (tlb_table ?env 1 3) 0x3010" by (simp add: tlb_hits_def tlb_match_def)
  moreover have "\<not> tlb_hits (tlb_table (tlb_flush_page ?env 0x3abc) 1 3) 0x3010"
    using tlb_flush_page_correct [of 1 "0x3010" "0x3abc" ?env] i by simp
  moreover have "\<not> tlb_hits (tlb_table (tlb_flush_page CPUState_zero 0xabc) 1 0) 0x10"
    using tlb_flush_page_correct [of 1 "0x10" "0xabc" CPUState_zero] i by simp
  moreover have "tlb_flush_mask ?env = 0 \<and> tlb_flush_addr ?env = - 1" by (simp add: CPUState_zero_def)
  ultimately show ?thesis by blast
qed

theorem tlb_add_large_page_covers_witness:
  "let env = CPUState_zero\<lparr>tlb_flush_addr := 0x200000, tlb_flush_mask := NOT (mask 21)\<rparr>;
       env' = tlb_add_large_page env 0x600000 (2 ^ 21)
   in large_ok env \<and> tlb_flush_page env' 0x7abcde = tlb_flush env' \<and>
      tlb_flush_page env' 0x3abcde = tlb_flush env'"
proof -
  let ?env = "CPUState_zero\<lparr>tlb_flush_addr := 0x200000, tlb_flush_mask := NOT (mask 21)\<rparr>"
  have ok: "large_ok ?env"
    unfolding large_ok_def by (intro disjI2 exI [of _ 21]) (simp add: mask_eq_exp_minus_1)
  have "(0x7abcde :: u64) AND NOT (2 ^ 21 - 1) = 0x600000 AND NOT (2 ^ 21 - 1)"
    "(0x3abcde :: u64) AND tlb_flush_mask ?env = tlb_flush_addr ?env"
    by (simp_all add: mask_eq_exp_minus_1)
  with tlb_add_large_page_covers [OF ok, of 21 _ "0x600000"] ok show ?thesis
    unfolding Let_def by auto
qed

theorem tlb_set_page_ram_witness:
  "\<exists>pm env' rl' te. tlb_set_page 0 pm
      \<lparr>phys_dirty = (\<lambda>_. 0xff), dirty_size = 2,
       blocks = [\<lparr>rb_host = 0x10000, rb_offset = 0, rb_length = 0x2000, rb_idstr = ''pc.ram''\<rparr>]\<rparr>
      CPUState_zero 0x7000 0x5000 3 0 0x1000 = Inr (env', rl') \<and>
     te = tlb_table env' 0 7 \<and> tlb_match (addr_write te) 0x7123 \<and> \<not> tlb_match (addr_code te) 0x7123 \<and>
     0x7123 + addend te = 0x11123"
proof -
  let ?b = "\<lparr>rb_host = 0x10000, rb_offset = 0, rb_length = 0x2000, rb_idstr = ''pc.ram''\<rparr>"
  let ?rl = "\<lparr>phys_dirty = (\<lambda>_. 0xff), dirty_size = 2, blocks = [?b]\<rparr>"
  let ?d = "\<lparr>phys_offset = 0x1000, region_offset = 0\<rparr>"
  obtain pm where pm: "phys_page_find pm 5 = Some (phys_page_ptr 5)" "pd_get pm (phys_page_ptr 5) = Some ?d"
    by (rule phys_map_with [of 5 ?d]) simp_all
  have i: "tlb_index 0x7123 = 7" by (simp add: tlb_index_def)
  have wf: "ram_wf ?rl" by (simp add: ram_wf_def block_ok_def)
  have pre: "phys_page_find pm (unat (drop_bit 12 (0x5000 :: u64))) = Some (phys_page_ptr 5)"
    "unat (phys_offset ?d) \<in> ram_range ?b" "\<not> wp_page_hit CPUState_zero 0x7000 3"
    using pm by (simp_all add: ram_range_def wp_page_hit_def CPUState_zero_def)
  have pre': "(0x1000 :: u64) \<le> 0x1000" "(0x7000 :: u64) AND NOT 0xFFF = 0x7000"
    "phys_offset ?d AND 0xFFF = 0" "?b \<in> set (blocks ?rl)" by simp_all
  from tlb_set_page_ram [OF pre'(1,2) pre(1) pm(2) pre'(3) wf pre'(4) pre(2,3), of 0 0]
  obtain env' rl' where r: "tlb_set_page 0 pm ?rl CPUState_zero 0x7000 0x5000 3 0 0x1000 = Inr (env', rl')"
    and a: "\<forall>a te. a AND NOT 0xFFF = 0x7000 \<and> te = tlb_table env' 0 (tlb_index a) \<longrightarrow>
          (tlb_match (addr_read te) a \<longleftrightarrow> (3 :: u32) AND 1 \<noteq> 0)
        \<and> (tlb_match (addr_write te) a \<longleftrightarrow> (3 :: u32) AND 2 \<noteq> 0)
        \<and> (tlb_match (addr_code te) a \<longleftrightarrow> (3 :: u32) AND 4 \<noteq> 0)
        \<and> a + addend te = rb_host ?b + (phys_offset ?d + (a AND 0xFFF) - rb_offset ?b)" by blast
  from a [rule_format, of "0x7123" "tlb_table env' 0 7"] i
  have "tlb_match (addr_write (tlb_table env' 0 7)) 0x7123 \<and> \<not> tlb_match (addr_code (tlb_table env' 0 7)) 0x7123
    \<and> 0x7123 + addend (tlb_table env' 0 7) = 0x11123" by simp
  with r show ?thesis by blast
qed

section \<open>Clearing dirty flags\<close>

lemma ram_wf_dirty [simp]: "ram_wf (rl\<lparr>phys_dirty := f\<rparr>) = ram_wf rl"
  by (simp add: ram_wf_def)

lemma signed_pages:
  fixes w :: u32
  shows "unat w < 2 ^ 31 \<Longrightarrow> sint (signed_drop_bit 12 w) = int (unat w div 4096)"
    and "2 ^ 31 \<le> unat w \<Longrightarrow> sint (signed_drop_bit 12 w) < 0"
proof -
  have lt: "uint w < 2 ^ 32" using uint_lt2p [of w] by simp
  have u: "uint w = int (unat w)" by simp
  assume "unat w < 2 ^ 31"
  then have "int (unat w) < int (2 ^ 31)" by (simp only: of_nat_less_iff)
  then have "uint w < 2 ^ 31" by (simp only: u of_nat_power of_nat_numeral)
  moreover have "- (2 ^ 31) \<le> uint w" by (rule order_trans [of _ 0]) simp_all
  ultimately have "sint w = uint w"
    using signed_take_bit_int_eq_self [of 31 "uint w"] by (simp add: sint_uint)
  then show "sint (signed_drop_bit 12 w) = int (unat w div 4096)"
    by (simp only: sint_signed_drop_bit_eq) (simp add: drop_bit_eq_div zdiv_int)
next
  have lt: "uint w < 2 ^ 32" using uint_lt2p [of w] by simp
  have u: "uint w = int (unat w)" by simp
  assume "2 ^ 31 \<le> unat w"
  then have "int (2 ^ 31) \<le> int (unat w)" by (simp only: of_nat_le_iff)
  then have "2 ^ 31 \<le> uint w" by (simp only: u of_nat_power of_nat_numeral)
  then have "sint w \<le> uint w - 2 ^ 32"
    using signed_take_bit_int_less_eq [of 31 "uint w"] by (simp add: sint_uint)
  with lt have "sint w < 0" by simp
  then show "sint (signed_drop_bit 12 w) < 0"
    by (simp only: sint_signed_drop_bit_eq drop_bit_negative_int_iff)
qed

lemma page_index_iff:
  assumes "4096 dvd unat s" and "4096 dvd n"
  shows "page_index s \<le> i \<and> i < page_index s + n div 4096 \<longleftrightarrow>
         unat s \<le> 4096 * i \<and> 4096 * i < unat s + n"
  using assms unfolding page_index_def unat_drop12 by (elim dvdE) (simp, linarith)

lemma unat_page_dvd: "4096 dvd unat (w AND - 4096 :: u64)"
  by (simp only: page_unat) simp

lemma unat_ucast32: "unat (w :: u64) < 2 ^ 32 \<Longrightarrow> unat (ucast w :: u32) = unat w"
  by (simp add: unsigned_ucast_eq take_bit_nat_eq_self)

text \<open>What masking does to the dirty bytes, for a range of whole pages.\<close>

lemma mask_dirty_range_pages:
  fixes len :: u64
  assumes "4096 dvd unat s" and "4096 dvd unat len" and "unat len < 2 ^ 32"
  shows "phys_dirty (cpu_physical_memory_mask_dirty_range rl s (ucast len) fl) i =
     (if unat len < 2 ^ 31 \<and> unat s \<le> 4096 * i \<and> 4096 * i < unat s + unat len
      then phys_dirty rl i AND NOT fl else phys_dirty rl i)"
proof (cases "unat len < 2 ^ 31")
  case True
  then have "sint (signed_drop_bit 12 (ucast len :: u32)) = int (unat len div 4096)"
    using assms(3) signed_pages(1) [of "ucast len"] by (simp only: unat_ucast32)
  moreover have "(page_index s \<le> i \<and> int i < int (page_index s) + int (unat len div 4096)) \<longleftrightarrow>
      unat s \<le> 4096 * i \<and> 4096 * i < unat s + unat len"
    using page_index_iff [OF assms(1,2), of i] by linarith
  ultimately show ?thesis using True
    by (simp only: cpu_physical_memory_mask_dirty_range_def Let_def) simp
next
  case False
  then have "sint (signed_drop_bit 12 (ucast len :: u32)) < 0"
    using assms(3) signed_pages(2) [of "ucast len"] by (simp only: unat_ucast32 not_less)
  then have "\<not> (page_index s \<le> i \<and>
      int i < int (page_index s) + sint (signed_drop_bit 12 (ucast len :: u32)))" by linarith
  then show ?thesis using False
    by (simp only: cpu_physical_memory_mask_dirty_range_def Let_def) auto
qed

lemma mask_dirty_range_keeps [simp]:
  "blocks (cpu_physical_memory_mask_dirty_range rl s l fl) = blocks rl"
  "ram_wf (cpu_physical_memory_mask_dirty_range rl s l fl) = ram_wf rl"
  by (simp_all add: cpu_physical_memory_mask_dirty_range_def Let_def)

lemma qemu_get_ram_ptr_obtain:
  assumes "ram_wf rl" and "b \<in> set (blocks rl)" and "unat addr \<in> ram_range b"
  obtains rl' where "qemu_get_ram_ptr rl addr = Inr (rl', rb_host b + (addr - rb_offset b))"
    and "ram_wf rl'" and "set (blocks rl') = set (blocks rl)" and "phys_dirty rl' = phys_dirty rl"
proof -
  from qemu_get_ram_ptr_in [OF assms] obtain ys zs where bl: "blocks rl = ys @ b # zs"
    and g: "qemu_get_ram_ptr rl addr =
            Inr (rl\<lparr>blocks := b # ys @ zs\<rparr>, rb_host b + (addr - rb_offset b))" .
  have "rl\<lparr>blocks := ys @ b # zs\<rparr> = rl" using bl by simp
  then have "ram_wf (rl\<lparr>blocks := b # ys @ zs\<rparr>)" using assms(1) by (simp add: ram_wf_set_eq)
  with g show ?thesis by (rule that) (auto simp: bl)
qed

text \<open>The whole of cpu_physical_memory_reset_dirty on a range inside one block.\<close>

lemma reset_dirty_run:
  fixes start endp :: u64
  assumes "ram_wf rl" and "b \<in> set (blocks rl)"
    and "s = start AND TARGET_PAGE_MASK" and "e = TARGET_PAGE_ALIGN endp" and "s < e"
    and "unat s \<in> ram_range b" and "unat (e - 1) \<in> ram_range b"
  obtains rl' where "cpu_physical_memory_reset_dirty rl cpus start endp fl =
      Inr (rl', map (map_tlb (\<lambda>te. tlb_reset_dirty_range te (rb_host b + (s - rb_offset b)) (e - s))) cpus)"
    and "ram_wf rl'" and "set (blocks rl') = set (blocks rl)"
    and "phys_dirty rl' = phys_dirty (cpu_physical_memory_mask_dirty_range rl s (ucast (e - s)) fl)"
proof -
  let ?rl = "cpu_physical_memory_mask_dirty_range rl s (ucast (e - s)) fl"
  have "ram_wf ?rl" "b \<in> set (blocks ?rl)" using assms(1,2) by simp_all
  from qemu_get_ram_ptr_obtain [OF this assms(6)] obtain r1 where
    r1: "qemu_get_ram_ptr ?rl s = Inr (r1, rb_host b + (s - rb_offset b))"
      "ram_wf r1" "set (blocks r1) = set (blocks rl)" "phys_dirty r1 = phys_dirty ?rl"
    by (metis mask_dirty_range_keeps(1))
  have "b \<in> set (blocks r1)" using r1(3) assms(2) by simp
  from qemu_get_ram_ptr_obtain [OF r1(2) this assms(7)] obtain r2 where
    r2: "qemu_get_ram_ptr r1 (e - 1) = Inr (r2, rb_host b + (e - 1 - rb_offset b))"
      "ram_wf r2" "set (blocks r2) = set (blocks rl)" "phys_dirty r2 = phys_dirty ?rl"
    by (metis r1(3,4))
  have "e - s \<noteq> 0" using assms(5) by auto
  moreover have "(rb_host b + (e - 1 - rb_offset b)) - (rb_host b + (s - rb_offset b)) = e - 1 - s" by simp
  ultimately have "cpu_physical_memory_reset_dirty rl cpus start endp fl =
      Inr (r2, map (map_tlb (\<lambda>te. tlb_reset_dirty_range te (rb_host b + (s - rb_offset b)) (e - s))) cpus)"
    unfolding cpu_physical_memory_reset_dirty_def Let_def assms(3,4) [symmetric]
    by (simp only: r1(1) r2(1) andthen_simps prod.case simp_thms if_False)
  with r2(2-4) that show ?thesis by blast
qed

lemma reset_dirty_range_entry:
  assumes "te' = tlb_reset_dirty_range te start len" and "addr_write te' AND 0xFFF = 0"
  shows "te' = te" and "\<not> (addr_write te' AND - 4096) + addend te' - start < len"
proof -
  have "((addr_write te AND - 4096) OR 16) AND 0xFFF = (16 :: u64)"
    by (simp add: bit.conj_disj_distrib2 and.assoc)
  then show "te' = te" "\<not> (addr_write te' AND - 4096) + addend te' - start < len"
    using assms by (auto simp: tlb_reset_dirty_range_def split: if_splits)
qed

text \<open>
  C17: Clearing dirty flags of a range below 2 GiB inside one RAM block: exactly the pages of
  the range lose exactly the given flags, the list stays well formed, and afterwards no TLB
  entry of any CPU lets a write go straight to a page of the range.
\<close>
theorem reset_dirty_correct:
  assumes "ram_wf rl" and "b \<in> set (blocks rl)"
    and "s = start AND TARGET_PAGE_MASK" and "e = TARGET_PAGE_ALIGN endp" and "s < e"
    and "unat s \<in> ram_range b" and "unat (e - 1) \<in> ram_range b"
    and "unat (e - s) < 2 ^ 31"
  shows "\<exists>rl' cpus'. cpu_physical_memory_reset_dirty rl cpus start endp fl = Inr (rl', cpus')
    \<and> ram_wf rl' \<and> set (blocks rl') = set (blocks rl) \<and> length cpus' = length cpus
    \<and> (\<forall>i. phys_dirty rl' i = (if unat s \<le> 4096 * i \<and> 4096 * i < unat e
                              then phys_dirty rl i AND NOT fl else phys_dirty rl i))
    \<and> (\<forall>env m i a. env \<in> set cpus' \<and> m < NB_MMU_MODES \<and> i < CPU_TLB_SIZE \<and> s \<le> a \<and> a < e
         \<and> addr_write (tlb_table env m i) AND 0xFFF = 0 \<longrightarrow>
         (addr_write (tlb_table env m i) AND TARGET_PAGE_MASK) + addend (tlb_table env m i)
           \<noteq> rb_host b + (a - rb_offset b))"
proof -
  from reset_dirty_run [OF assms(1-7)] obtain rl' where
    r: "cpu_physical_memory_reset_dirty rl cpus start endp fl =
      Inr (rl', map (map_tlb (\<lambda>te. tlb_reset_dirty_range te (rb_host b + (s - rb_offset b)) (e - s))) cpus)"
      "ram_wf rl'" "set (blocks rl') = set (blocks rl)"
      "phys_dirty rl' = phys_dirty (cpu_physical_memory_mask_dirty_range rl s (ucast (e - s)) fl)"
    by blast
  have al: "4096 dvd unat s" "4096 dvd unat e"
    using assms(3,4) by (simp_all add: unat_page_dvd TARGET_PAGE_ALIGN_def)
  have len: "unat (e - s) = unat e - unat s" by (rule unat_sub [OF order_less_imp_le [OF assms(5)]])
  have le: "unat s \<le> unat e" using assms(5) by (simp add: word_less_nat_alt)
  have dirty: "phys_dirty rl' i = (if unat s \<le> 4096 * i \<and> 4096 * i < unat e
                              then phys_dirty rl i AND NOT fl else phys_dirty rl i)" for i
    unfolding r(4)
    using mask_dirty_range_pages [of s "e - s" rl fl i] al assms(8) len le by (simp add: dvd_diff_nat)
  have "(addr_write (tlb_table env m i) AND - 4096) + addend (tlb_table env m i)
           \<noteq> rb_host b + (a - rb_offset b)"
    if "env \<in> set (map (map_tlb (\<lambda>te. tlb_reset_dirty_range te (rb_host b + (s - rb_offset b)) (e - s))) cpus)"
      "m < 2" "i < 256" "s \<le> a" "a < e" "addr_write (tlb_table env m i) AND 0xFFF = 0" for env m i a
  proof
    from that(1-3) obtain te where te: "tlb_table env m i =
        tlb_reset_dirty_range te (rb_host b + (s - rb_offset b)) (e - s)"
      by (auto simp: map_tlb_def)
    assume eq: "(addr_write (tlb_table env m i) AND - 4096) + addend (tlb_table env m i)
           = rb_host b + (a - rb_offset b)"
    have "a - s < e - s" using that(4,5) len
      by (simp add: word_less_nat_alt word_le_nat_alt unat_sub)
    moreover have "rb_host b + (a - rb_offset b) - (rb_host b + (s - rb_offset b)) = a - s" by simp
    ultimately show False using reset_dirty_range_entry(2) [OF te that(6)] eq by simp
  qed
  note entry = this
  show ?thesis
  proof (intro exI conjI allI impI)
    show "cpu_physical_memory_reset_dirty rl cpus start endp fl =
      Inr (rl', map (map_tlb (\<lambda>te. tlb_reset_dirty_range te (rb_host b + (s - rb_offset b)) (e - s))) cpus)"
      by (rule r(1))
  qed (use r(2,3) dirty in simp_all, use entry in auto)
qed

text \<open>
  C18: The dirty range is passed to cpu_physical_memory_mask_dirty_range as a C int, so for a
  range of 2 GiB or more, below 4 GiB, cpu_physical_memory_reset_dirty succeeds and leaves
  every dirty byte as it was.
\<close>
theorem reset_dirty_2GiB_noop:
  assumes "ram_wf rl" and "b \<in> set (blocks rl)"
    and "s = start AND TARGET_PAGE_MASK" and "e = TARGET_PAGE_ALIGN endp" and "s < e"
    and "unat s \<in> ram_range b" and "unat (e - 1) \<in> ram_range b"
    and "2 ^ 31 \<le> unat (e - s)" and "unat (e - s) < 2 ^ 32"
  shows "\<exists>rl' cpus'. cpu_physical_memory_reset_dirty rl cpus start endp fl = Inr (rl', cpus')
    \<and> phys_dirty rl' = phys_dirty rl"
proof -
  have al: "4096 dvd unat s" "4096 dvd unat e"
    using assms(3,4) by (simp_all add: unat_page_dvd TARGET_PAGE_ALIGN_def)
  have "unat (e - s) = unat e - unat s" by (rule unat_sub [OF order_less_imp_le [OF assms(5)]])
  then have "phys_dirty (cpu_physical_memory_mask_dirty_range rl s (ucast (e - s)) fl) i = phys_dirty rl i" for i
    using mask_dirty_range_pages [of s "e - s" rl fl i] al assms(8,9) by (simp add: dvd_diff_nat)
  then show ?thesis using reset_dirty_run [OF assms(1-7)] by (metis ext)
qed

theorem reset_dirty_correct_witness:
  "\<exists>rl' cpus'. cpu_physical_memory_reset_dirty
      \<lparr>phys_dirty = (\<lambda>_. 0xff), dirty_size = 2,
       blocks = [\<lparr>rb_host = 0x10000, rb_offset = 0, rb_length = 0x2000, rb_idstr = ''pc.ram''\<rparr>]\<rparr>
      [CPUState_zero] 0x1000 0x1800 CODE_DIRTY_FLAG = Inr (rl', cpus')
    \<and> phys_dirty rl' 1 = 0xfd \<and> phys_dirty rl' 0 = 0xff"
proof -
  let ?b = "\<lparr>rb_host = 0x10000, rb_offset = 0, rb_length = 0x2000, rb_idstr = ''pc.ram''\<rparr>"
  let ?rl = "\<lparr>phys_dirty = (\<lambda>_. 0xff), dirty_size = 2, blocks = [?b]\<rparr>"
  have wf: "ram_wf ?rl" by (simp add: ram_wf_def block_ok_def)
  have pre: "?b \<in> set (blocks ?rl)" "(0x1000 :: u64) = 0x1000 AND NOT 0xFFF"
    "(0x2000 :: u64) = TARGET_PAGE_ALIGN 0x1800" "(0x1000 :: u64) < 0x2000"
    "unat (0x1000 :: u64) \<in> ram_range ?b" "unat (0x2000 - 1 :: u64) \<in> ram_range ?b"
    "unat (0x2000 - 0x1000 :: u64) < 2 ^ 31"
    by (simp_all add: TARGET_PAGE_ALIGN_def ram_range_def)
  from reset_dirty_correct [OF wf pre, of "[CPUState_zero]" 2] obtain rl' cpus'
    where "cpu_physical_memory_reset_dirty ?rl [CPUState_zero] 0x1000 0x1800 2 = Inr (rl', cpus')"
      "\<forall>i. phys_dirty rl' i = (if unat (0x1000 :: u64) \<le> 4096 * i \<and> 4096 * i < unat (0x2000 :: u64)
            then phys_dirty ?rl i AND NOT 2 else phys_dirty ?rl i)" by blast
  then show ?thesis by (intro exI conjI) auto
qed

theorem reset_dirty_2GiB_noop_witness:
  "\<exists>rl' cpus'. cpu_physical_memory_reset_dirty
      \<lparr>phys_dirty = (\<lambda>_. 0xff), dirty_size = 0x80000,
       blocks = [\<lparr>rb_host = 0x10000, rb_offset = 0, rb_length = 0x80000000, rb_idstr = ''pc.ram''\<rparr>]\<rparr>
      [CPUState_zero] 0 0x80000000 CODE_DIRTY_FLAG = Inr (rl', cpus')
    \<and> phys_dirty rl' 0 = 0xff"
proof -
  let ?b = "\<lparr>rb_host = 0x10000, rb_offset = 0, rb_length = 0x80000000, rb_idstr = ''pc.ram''\<rparr>"
  let ?rl = "\<lparr>phys_dirty = (\<lambda>_. 0xff), dirty_size = 0x80000, blocks = [?b]\<rparr>"
  have wf: "ram_wf ?rl" by (simp add: ram_wf_def block_ok_def)
  have pre: "?b \<in> set (blocks ?rl)" "(0 :: u64) = 0 AND NOT 0xFFF"
    "(0x80000000 :: u64) = TARGET_PAGE_ALIGN 0x80000000" "(0 :: u64) < 0x80000000"
    "unat (0 :: u64) \<in> ram_range ?b" "unat (0x80000000 - 1 :: u64) \<in> ram_range ?b"
    "2 ^ 31 \<le> unat (0x80000000 - 0 :: u64)" "unat (0x80000000 - 0 :: u64) < 2 ^ 32"
    by (simp_all add: TARGET_PAGE_ALIGN_def ram_range_def)
  from reset_dirty_2GiB_noop [OF wf pre, of "[CPUState_zero]" 2] show ?thesis by auto
qed

section \<open>Watchpoints\<close>

lemma tlb_flush_page_keeps [simp]:
  "watchpoints (tlb_flush_page env a) = watchpoints env"
  "breakpoints (tlb_flush_page env a) = breakpoints env"
  by (simp_all add: tlb_flush_page_def tlb_flush_def tlb_flush_jmp_cache_def Let_def)

lemma find_append:
  "List.find P (xs @ ys) = (case List.find P xs of None \<Rightarrow> List.find P ys | Some x \<Rightarrow> Some x)"
  by (induction xs) auto

lemma aligned_len:
  assumes "len \<in> {1, 2, 4, 8}"
  shows "addr AND (len - 1) = 0 \<longleftrightarrow> unat addr mod unat (len :: u64) = 0"
proof -
  have "addr AND mask n = 0 \<longleftrightarrow> unat addr mod 2 ^ n = 0" for n
    by (metis unat_and_mask unat_eq_0)
  from this [of 0] this [of 1] this [of 2] this [of 3] assms show ?thesis
    by (auto simp: mask_eq_exp_minus_1)
qed

lemma and_not_disjoint:
  assumes "w AND m = (0 :: 'a::len word)"
  shows "w AND NOT m = w"
proof -
  have "w AND NOT m = (w AND NOT m) OR (w AND m)" using assms by simp
  then show ?thesis by (metis and.right_neutral bit.conj_disj_distrib bit.disj_cancel_left)
qed

text \<open>
  C19: Inserting a watchpoint with a length and an alignment that the check accepts makes
  every write to its page take the slow path: no entry of the TLB maps the page any more and
  the next fill of the page for writing sees the watchpoint. Removing it again with the same
  arguments, its flags without BP_WATCHPOINT_HIT, restores the list of watchpoints: always
  when it went to the front as a watchpoint of the debugger, and when it went to the back
  provided that no watchpoint of the same address, length and flags was there before. The
  identity of the new watchpoint, its address in memory, is one that no other has. Any other
  length, and any unaligned address, is refused and changes nothing.
\<close>
theorem cpu_watchpoint_insert_correct:
  assumes "cpu_watchpoint_insert ref env addr len flags = (env', r)"
    and "cpu_watchpoint_remove env' addr len flags = (env'', r')"
  shows "(if len \<in> {1, 2, 4, 8} \<and> unat addr mod unat len = 0
    then r = 0
       \<and> (ref \<notin> wp_ref ` set (watchpoints env) \<and> flags AND BP_WATCHPOINT_HIT = 0 \<and>
           (flags AND BP_GDB \<noteq> 0 \<or>
            (\<forall>wp \<in> set (watchpoints env). \<not> (wp_vaddr wp = addr \<and> wp_len_mask wp = NOT (len - 1) \<and>
               wp_flags wp AND NOT BP_WATCHPOINT_HIT = flags)))
           \<longrightarrow> r' = 0 \<and> watchpoints env'' = watchpoints env)
       \<and> (\<forall>prot. prot AND PAGE_WRITE \<noteq> 0 \<longrightarrow> wp_page_hit env' (addr AND TARGET_PAGE_MASK) prot)
       \<and> (\<forall>m a. m < NB_MMU_MODES \<and> a AND TARGET_PAGE_MASK = addr AND TARGET_PAGE_MASK \<longrightarrow>
            \<not> tlb_hits (tlb_table env' m (tlb_index a)) a)
    else r = - EINVAL \<and> env' = env)"
proof (cases "len \<in> {1, 2, 4, 8} \<and> unat addr mod unat len = 0")
  case True
  then have ok: "len = 1 \<or> len = 2 \<or> len = 4 \<or> len = 8" "addr AND NOT (NOT (len - 1)) = 0"
    by (auto simp: aligned_len)
  define wp where "wp = \<lparr>wp_ref = ref, wp_vaddr = addr, wp_len_mask = NOT (len - 1), wp_flags = flags\<rparr>"
  define ws where "ws = (if flags AND 16 \<noteq> 0 then wp # watchpoints env else watchpoints env @ [wp])"
  have ins: "env' = tlb_flush_page (env\<lparr>watchpoints := ws\<rparr>) addr" "r = 0"
    using assms(1) ok by (auto simp: cpu_watchpoint_insert_def Let_def ws_def wp_def)
  have rem: "r' = 0 \<and> watchpoints env'' = watchpoints env"
    if fresh: "ref \<notin> wp_ref ` set (watchpoints env)" and hit: "flags AND 8 = 0"
      and first: "flags AND 16 \<noteq> 0 \<or> (\<forall>w \<in> set (watchpoints env).
        \<not> (wp_vaddr w = addr \<and> wp_len_mask w = NOT (len - 1) \<and> wp_flags w AND NOT 8 = flags))"
  proof -
    let ?P = "\<lambda>w. addr = wp_vaddr w \<and> NOT (len - 1) = wp_len_mask w \<and> flags = wp_flags w AND NOT 8"
    have "?P wp" using and_not_disjoint [OF hit] by (simp add: wp_def)
    moreover have "List.find ?P (watchpoints env) = None" if "flags AND 16 = 0"
      using first that by (auto simp: find_None_iff)
    ultimately have "List.find ?P ws = Some wp" by (simp add: ws_def find_append)
    moreover have "filter (\<lambda>w. wp_ref w \<noteq> wp_ref wp) ws = watchpoints env"
      using fresh by (auto simp: ws_def wp_def filter_id_conv)
    ultimately show ?thesis
      using assms(2) ins(1) by (auto simp: cpu_watchpoint_remove_def cpu_watchpoint_remove_by_ref_def Let_def)
  qed
  have "wp_page_hit env' (addr AND - 4096) prot" if "prot AND 2 \<noteq> 0" for prot
    using that by (auto simp: wp_page_hit_def ins ws_def wp_def)
  with True ins rem show ?thesis by (simp add: tlb_flush_page_misses)
next
  case False
  then have "(len \<noteq> 1 \<and> len \<noteq> 2 \<and> len \<noteq> 4 \<and> len \<noteq> 8) \<or> addr AND NOT (NOT (len - 1)) \<noteq> 0"
    using aligned_len [of len addr] unfolding bit.double_compl by blast
  then show ?thesis using assms(1) False by (auto simp: cpu_watchpoint_insert_def Let_def)
qed

theorem cpu_watchpoint_insert_correct_witness:
  "let wp = \<lparr>wp_ref = 3, wp_vaddr = 0x1004, wp_len_mask = NOT 3, wp_flags = BP_MEM_READ\<rparr>;
       env = CPUState_zero\<lparr>watchpoints := [wp]\<rparr>
   in \<exists>env' env''. cpu_watchpoint_insert 7 env 0x1004 4 BP_MEM_WRITE = (env', 0) \<and>
        watchpoints env' \<noteq> [wp] \<and>
        cpu_watchpoint_remove env' 0x1004 4 BP_MEM_WRITE = (env'', 0) \<and> watchpoints env'' = [wp]"
proof -
  let ?wp = "\<lparr>wp_ref = 3, wp_vaddr = 0x1004, wp_len_mask = NOT 3, wp_flags = 1\<rparr>"
  let ?env = "CPUState_zero\<lparr>watchpoints := [?wp]\<rparr>"
  obtain env' r where i: "cpu_watchpoint_insert 7 ?env 0x1004 4 2 = (env', r)" by fastforce
  obtain env'' r' where d: "cpu_watchpoint_remove env' 0x1004 4 2 = (env'', r')" by fastforce
  from i have "watchpoints env' \<noteq> [?wp]" by (auto simp: cpu_watchpoint_insert_def Let_def)
  moreover have "r = 0 \<and> r' = 0 \<and> watchpoints env'' = [?wp]"
    using cpu_watchpoint_insert_correct [OF i d] by simp
  ultimately show ?thesis using i d by simp
qed

end
