(* ===== verification/Jmp_Patch.thy ===== *)
theory Jmp_Patch
  imports HQ_Prelude
begin

text \<open>
  Patching the direct jump of a translated block on an x86-64 host (tb_set_jmp_target1 of
  exec-all.h): the stores it makes, in order, to the host code memory, and what the five
  bytes decode to after each of them. Each C store is one step, as the code relies on.
\<close>

section \<open>Code memory\<close>

type_synonym code_mem = "u64 \<Rightarrow> u8"

definition byte_of :: "nat \<Rightarrow> 'a::len word \<Rightarrow> u8" where
  "byte_of i w = ucast (drop_bit (8 * i) w)"

definition store8 :: "code_mem \<Rightarrow> u64 \<Rightarrow> u8 \<Rightarrow> code_mem" where
  "store8 m a v = m(a := v)"

definition store16 :: "code_mem \<Rightarrow> u64 \<Rightarrow> u16 \<Rightarrow> code_mem" where
  "store16 m a v = m(a := byte_of 0 v, a + 1 := byte_of 1 v)"

definition store32 :: "code_mem \<Rightarrow> u64 \<Rightarrow> u32 \<Rightarrow> code_mem" where
  "store32 m a v = m(a := byte_of 0 v, a + 1 := byte_of 1 v, a + 2 := byte_of 2 v, a + 3 := byte_of 3 v)"

definition load32 :: "code_mem \<Rightarrow> u64 \<Rightarrow> u32" where
  "load32 m a = ucast (m a) OR push_bit 8 (ucast (m (a + 1)))
      OR push_bit 16 (ucast (m (a + 2))) OR push_bit 24 (ucast (m (a + 3)))"

section \<open>Patching\<close>

text \<open>The memories after each store; the last one is what the call leaves. \<open>jmp_addr\<close> is the
  address of the 32-bit displacement, one byte behind the opcode.\<close>

definition patch_steps :: "code_mem \<Rightarrow> u64 \<Rightarrow> u64 \<Rightarrow> code_mem list" where
  "patch_steps m jmp_addr addr =
     (let d = addr - (jmp_addr + 4)
      in if jmp_addr mod 4 = 0
         then [store32 m jmp_addr (ucast d)]
         else
           let m1 = store16 m (jmp_addr - 1) 0xfeeb;
               m2 = store8 m1 (jmp_addr + 1) (byte_of 1 d);
               m3 = store8 m2 (jmp_addr + 2) (byte_of 2 d);
               m4 = store8 m3 (jmp_addr + 3) (byte_of 3 d);
               m5 = store16 m4 (jmp_addr - 1) (push_bit 8 (ucast (byte_of 0 d)) OR 0xe9)
           in [m1, m2, m3, m4, m5])"

definition tb_set_jmp_target1 :: "code_mem \<Rightarrow> u64 \<Rightarrow> u64 \<Rightarrow> code_mem" where
  "tb_set_jmp_target1 m jmp_addr addr = last (patch_steps m jmp_addr addr)"

text \<open>The branch instructions involved: JMP rel32 (E9) and JMP rel8 (EB).\<close>

definition branch_target :: "code_mem \<Rightarrow> u64 \<Rightarrow> u64 option" where
  "branch_target m a =
     (if m a = 0xe9 then Some (a + 5 + scast (load32 m (a + 1)))
      else if m a = 0xeb then Some (a + 2 + scast (m (a + 1)))
      else None)"

section \<open>What the stores decode to\<close>

text \<open>A displacement that fits in 32 bits signed.\<close>

definition rel32_fits :: "u64 \<Rightarrow> u64 \<Rightarrow> bool" where
  "rel32_fits jmp_addr addr \<longleftrightarrow> scast (ucast (addr - (jmp_addr + 4)) :: u32) = addr - (jmp_addr + 4)"

lemma load32_bytes:
  fixes w :: u64
  assumes "m a = byte_of 0 w" "m (a + 1) = byte_of 1 w" "m (a + 2) = byte_of 2 w" "m (a + 3) = byte_of 3 w"
  shows "load32 m a = ucast w"
proof (rule bit_word_eqI)
  fix n assume "n < LENGTH(32)"
  then have n: "n < 32" by simp
  have b: "bit (load32 m a) n \<longleftrightarrow> (n < 8 \<and> bit (m a) n) \<or> (8 \<le> n \<and> n < 16 \<and> bit (m (a + 1)) (n - 8)) \<or>
      (16 \<le> n \<and> n < 24 \<and> bit (m (a + 2)) (n - 16)) \<or> (24 \<le> n \<and> n < 32 \<and> bit (m (a + 3)) (n - 24))"
    using n by (auto simp: load32_def bit_simps dest: bit_imp_le_length)
  have "bit (byte_of i w) j \<longleftrightarrow> j < 8 \<and> bit w (8 * i + j)" for i j
    by (auto simp: byte_of_def bit_simps ac_simps dest: bit_imp_le_length)
  then show "bit (load32 m a) n = bit (ucast w :: u32) n"
    using n unfolding b assms
    by (cases "n < 8"; cases "n < 16"; cases "n < 24") (auto simp: bit_simps)
qed

lemma byte_consts [simp]:
  "byte_of 0 (0xfeeb :: u16) = 0xeb" "byte_of (Suc 0) (0xfeeb :: u16) = 0xfe"
  by (simp_all add: byte_of_def)

lemma byte_e9 [simp]:
  "byte_of 0 (push_bit 8 (ucast (v :: u8)) OR 0xe9 :: u16) = 0xe9"
  "byte_of (Suc 0) (push_bit 8 (ucast (v :: u8)) OR 0xe9 :: u16) = v"
proof -
  have b: "bit (byte_of i w) j \<longleftrightarrow> j < 8 \<and> bit w (8 * i + j)" for i j and w :: u16
    by (auto simp: byte_of_def bit_simps ac_simps dest: bit_imp_le_length)
  have e: "bit (0xe9 :: u16) j \<longleftrightarrow> j < 8 \<and> bit (0xe9 :: u8) j" for j
  proof -
    have "(0xe9 :: u16) = ucast (0xe9 :: u8)" by simp
    then have "bit (0xe9 :: u16) j = bit (ucast (0xe9 :: u8) :: u16) j" by (simp only:)
    also have "\<dots> \<longleftrightarrow> j < 8 \<and> bit (0xe9 :: u8) j"
      by (simp only: bit_ucast_iff) (auto dest: bit_imp_le_length)
    finally show ?thesis .
  qed
  show "byte_of 0 (push_bit 8 (ucast (v :: u8)) OR 0xe9 :: u16) = 0xe9"
    by (rule bit_word_eqI) (auto simp: b bit_or_iff bit_push_bit_iff e)
  show "byte_of (Suc 0) (push_bit 8 (ucast (v :: u8)) OR 0xe9 :: u16) = v"
  proof (rule bit_word_eqI)
    fix n assume "n < LENGTH(8)"
    moreover have "\<not> bit (0xe9 :: u16) (8 + n)" by (simp only: e) simp
    ultimately show "bit (byte_of (Suc 0) (push_bit 8 (ucast v) OR 0xe9 :: u16)) n = bit v n"
      by (simp only: b bit_or_iff bit_push_bit_iff) (auto simp: bit_simps)
  qed
qed

lemma self_branch: "scast (0xfe :: u8) = (- 2 :: u64)"
  by simp

lemma byte_ucast: "i < 4 \<Longrightarrow> byte_of i (ucast (w :: u64) :: u32) = byte_of i w"
  by (rule bit_word_eqI) (auto simp: byte_of_def bit_simps)

lemma branch_target_rel32:
  assumes "rel32_fits (b + 1) addr" and "d = addr - (b + 5)"
    and "x b = 0xe9" "x (b + 1) = byte_of 0 d" "x (b + 2) = byte_of 1 d" "x (b + 3) = byte_of 2 d"
      "x (b + 4) = byte_of 3 d"
  shows "branch_target x b = Some addr"
proof -
  have "load32 x (b + 1) = ucast d"
    by (rule load32_bytes) (use assms in \<open>simp_all add: add.assoc\<close>)
  moreover have "b + 5 + scast (ucast d :: u32) = addr"
    using assms(1,2) by (simp add: rel32_fits_def add.assoc)
  ultimately show ?thesis using assms(3) by (simp add: branch_target_def)
qed

lemma branch_target_self: "x b = 0xeb \<Longrightarrow> x (b + 1) = 0xfe \<Longrightarrow> branch_target x b = Some b"
  by (simp add: branch_target_def)

lemma set_jmp_target1_other:
  "a \<notin> {b, b + 1, b + 2, b + 3, b + 4} \<Longrightarrow> tb_set_jmp_target1 m (b + 1) addr a = m a"
  by (simp add: tb_set_jmp_target1_def patch_steps_def Let_def store8_def store16_def store32_def
      add.assoc)

lemma set_jmp_target1_target:
  assumes "m b = 0xe9" and "rel32_fits (b + 1) addr"
  shows "branch_target (tb_set_jmp_target1 m (b + 1) addr) b = Some addr"
    and "tb_set_jmp_target1 m (b + 1) addr b = 0xe9"
  using assms(1)
  by (auto simp: tb_set_jmp_target1_def patch_steps_def Let_def store8_def store16_def store32_def
      byte_ucast add.assoc intro!: branch_target_rel32 [OF assms(2) refl])

section \<open>Properties\<close>

text \<open>
  C20: Patching a jump while another thread may execute it: starting from a JMP rel32 at
  \<open>b\<close>, after every single store the instruction at \<open>b\<close> is either the finished jump to the
  new target or a branch to itself, so no thread is ever sent to a mixture of the old and the
  new displacement; the last store leaves the finished jump, and no byte outside the five
  bytes of the instruction changes at any point.
\<close>
theorem patch_steps_safe:
  assumes "m b = 0xe9" and "rel32_fits (b + 1) addr" and "m' \<in> set (patch_steps m (b + 1) addr)"
  shows "branch_target m' b \<in> {Some b, Some addr}
    \<and> (\<forall>a. a \<notin> {b, b + 1, b + 2, b + 3, b + 4} \<longrightarrow> m' a = m a)
    \<and> branch_target (tb_set_jmp_target1 m (b + 1) addr) b = Some addr"
proof (intro conjI)
  show "branch_target m' b \<in> {Some b, Some addr}"
    using assms(1,3) unfolding patch_steps_def Let_def
    by (auto simp: store8_def store16_def store32_def byte_ucast add.assoc
        intro!: branch_target_rel32 [OF assms(2) refl] branch_target_self split: if_splits)
  show "\<forall>a. a \<notin> {b, b + 1, b + 2, b + 3, b + 4} \<longrightarrow> m' a = m a"
    using assms(3) unfolding patch_steps_def Let_def
    by (auto simp: store8_def store16_def store32_def add.assoc split: if_splits)
qed (use set_jmp_target1_target(1) assms(1,2) in blast)

theorem patch_steps_safe_witness:
  "let m = (\<lambda>_. 0)(0x1001 := 0xe9); ms = patch_steps m 0x1002 0x5000
   in length ms = 5 \<and> branch_target (ms ! 2) 0x1001 = Some 0x1001 \<and>
      branch_target (tb_set_jmp_target1 m 0x1002 0x5000) 0x1001 = Some 0x5000"
proof -
  let ?m = "(\<lambda>_. 0)(0x1001 := 0xe9) :: code_mem"
  have len: "length (patch_steps ?m 0x1002 0x5000) = 5" by (simp add: patch_steps_def Let_def)
  have "rel32_fits (0x1001 + 1) 0x5000" by (simp add: rel32_fits_def)
  moreover have "patch_steps ?m 0x1002 0x5000 ! 2 \<in> set (patch_steps ?m (0x1001 + 1) 0x5000)"
    using len by simp
  ultimately have "branch_target (tb_set_jmp_target1 ?m 0x1002 0x5000) 0x1001 = Some 0x5000"
    using patch_steps_safe [of ?m "0x1001" "0x5000"] by simp
  moreover have "branch_target (patch_steps ?m 0x1002 0x5000 ! 2) 0x1001 = Some 0x1001"
    by (simp add: patch_steps_def Let_def branch_target_def store8_def store16_def)
  ultimately show ?thesis using len by (simp add: Let_def)
qed

end
