(* ===== verification/Slot_List.thy ===== *)
theory Slot_List
  imports HQ_Prelude
begin

text \<open>
  The interface of the lists that the block cache threads through its blocks. A pointer
  lives in a slot, the head of a list or a field of an element, and each element has one
  slot that points on. The three removal loops of exec.c (tb_remove, tb_page_remove and the
  search of tb_jmp_remove) walk from slot to slot until the pointer hits the block to
  remove and then bypass it; they share the contract \<open>slot_list\<close>.
\<close>

lemma lseg_unlink:
  assumes "lseg nx p (ys @ k # zs) q" and "distinct (ys @ k # zs)"
  shows "lseg (if ys = [] then nx else nx(last ys := nx k)) (if ys = [] then nx k else p) (ys @ zs) q"
proof (cases ys rule: rev_cases)
  case Nil
  with assms show ?thesis by simp
next
  case (snoc us u)
  from assms(1) have "lseg nx p us (Some u)" "nx u = Some k" "lseg nx (nx k) zs q"
    unfolding snoc by (auto simp: lseg_append)
  moreover have "u \<notin> set us" "u \<notin> set zs" using assms(2) unfolding snoc by auto
  ultimately have "lseg (nx(u := nx k)) p us (Some u)" "lseg (nx(u := nx k)) (nx k) zs q" by simp_all
  then have "lseg (nx(u := nx k)) p (us @ [u] @ zs) q" by (auto simp: lseg_append)
  then show ?thesis by (simp add: snoc)
qed

locale slot_list =
  fixes get :: "'s \<Rightarrow> 'c \<Rightarrow> 'v option"
    and put :: "'s \<Rightarrow> 'c \<Rightarrow> 'v option \<Rightarrow> 's"
    and slot :: "'v \<Rightarrow> 'c"
    and hit :: "'t \<Rightarrow> 'v \<Rightarrow> bool"
    and rm :: "nat \<Rightarrow> 's \<Rightarrow> 'c \<Rightarrow> 't \<Rightarrow> 's result"
  assumes get_put: "get (put s c p) c' = (if c' = c then p else get s c')"
    and slot_inj: "slot v = slot w \<Longrightarrow> v = w"
    and rm_step: "rm (Suc n) s c t =
      (case get s c of
         None \<Rightarrow> Inl NullDeref
       | Some k \<Rightarrow> if hit t k then Inr (put s c (get s (slot k))) else rm n s (slot k) t)"
begin

lemma rm_finds:
  assumes "lseg (\<lambda>v. get s (slot v)) (get s c) (ys @ [k]) r"
    and "\<forall>y \<in> set ys. \<not> hit t y" and "hit t k" and "length ys < n"
  shows "rm n s c t = Inr (put s (if ys = [] then c else slot (last ys)) (get s (slot k)))"
  using assms
proof (induction ys arbitrary: c n)
  case Nil
  then obtain n' where "n = Suc n'" by (cases n) auto
  with Nil show ?case by (simp add: rm_step)
next
  case (Cons y ys)
  then obtain n' where n: "n = Suc n'" by (cases n) auto
  from Cons.prems have "rm n' s (slot y) t =
      Inr (put s (if ys = [] then slot y else slot (last ys)) (get s (slot k)))"
    by (intro Cons.IH) (auto simp: n)
  with Cons.prems show ?case by (simp add: n rm_step)
qed

lemma rm_chain:
  assumes l: "lseg (\<lambda>v. get s (slot v)) (get s c) (ys @ k # zs) q"
    and d: "distinct (ys @ k # zs)" and c: "c \<notin> slot ` set (ys @ k # zs)"
    and miss: "\<forall>y \<in> set ys. \<not> hit t y" and h: "hit t k" and n: "length ys < n"
  obtains s' where "rm n s c t = Inr s'"
    and "s' = put s (if ys = [] then c else slot (last ys)) (get s (slot k))"
    and "lseg (\<lambda>v. get s' (slot v)) (get s' c) (ys @ zs) q"
    and "\<And>c'. c' \<noteq> c \<Longrightarrow> c' \<notin> slot ` set ys \<Longrightarrow> get s' c' = get s c'"
proof -
  let ?c = "if ys = [] then c else slot (last ys)"
  let ?s = "put s ?c (get s (slot k))"
  from l have "lseg (\<lambda>v. get s (slot v)) (get s c) (ys @ [k]) (get s (slot k))"
    by (auto simp: lseg_append)
  then have "rm n s c t = Inr ?s" using miss h n by (rule rm_finds)
  moreover have "lseg (\<lambda>v. get ?s (slot v)) (get ?s c) (ys @ zs) q"
  proof (cases "ys = []")
    case True
    have "get (put s c p) (slot z) = get s (slot z)" if "z \<in> set zs" for z p
      using c that by (auto simp: get_put)
    then have "lseg (\<lambda>v. get (put s c p) (slot v)) r zs q = lseg (\<lambda>v. get s (slot v)) r zs q" for p r
      by (rule lseg_cong)
    with True lseg_unlink [OF l d] show ?thesis by (simp add: get_put [of s c _ c])
  next
    case False
    then have "c \<noteq> slot (last ys)" using c by auto
    moreover have "(\<lambda>v. get ?s (slot v)) = (\<lambda>v. get s (slot v))(last ys := get s (slot k))"
      using False by (auto simp: get_put fun_eq_iff dest: slot_inj)
    ultimately show ?thesis using lseg_unlink [OF l d] False by (simp add: get_put)
  qed
  moreover have "get ?s c' = get s c'" if "c' \<noteq> c" "c' \<notin> slot ` set ys" for c'
    using that by (auto simp: get_put)
  ultimately show ?thesis by (rule that [OF _ refl])
qed

end

end
