(* ===== verification/TB_Cache.thy ===== *)
theory TB_Cache
  imports Soft_TLB Jmp_Patch Slot_List
begin

text \<open>
  The translation block cache of exec.c, exec-all.h and cpu-exec.c: allocation of blocks,
  the physical hash lists, the per-page lists, the circular jump lists with the patched
  jumps in the code buffer, the jump cache of each CPU, lookup, invalidation and flush.
  A block is named by its index in the array tbs. A pointer with a tag in its low bits is a
  pair of index and tag. A C loop over a list has a bound on its rounds as first argument;
  the lemmas show that the bound \<open>list_fuel\<close> is never reached on a well-formed cache.
\<close>

section \<open>State\<close>

record TranslationBlock =
  pc :: u64
  cs_base :: u64
  tbflags :: u64
  tbsize :: u16
  cflags :: u16
  tc_ptr :: u64
  opt_ptr :: u64
  phys_hash_next :: tbptr
  page_next :: "nat \<Rightarrow> tagptr"
  page_addr :: "nat \<Rightarrow> u64"
  tb_next_offset :: "nat \<Rightarrow> u16"
  tb_jmp_offset :: "nat \<Rightarrow> u16"
  jmp_next :: "nat \<Rightarrow> tagptr"
  jmp_first :: tagptr
  icount :: u32
  ib_jmp_offset :: u16
  ib_num_chain :: u16
  tbmode :: nat
  tbinvalidated :: bool
  tb_gen_pending :: bool
  exec_count :: nat
  jmp_pc :: "nat \<Rightarrow> u64"

text \<open>\<open>code_gen_buffer\<close>, \<open>code_gen_buffer_size\<close>, \<open>code_gen_buffer_max_size\<close> and
  \<open>code_gen_max_blocks\<close> are set once by code_gen_alloc.\<close>

record TBContext =
  tbs :: "nat \<Rightarrow> TranslationBlock"
  nb_tbs :: nat
  tb_phys_hash :: "nat \<Rightarrow> tbptr"
  l1_map :: "PageDesc l1map"
  cpus :: "CPUState list"
  ram :: RAMList
  code :: code_mem
  code_gen_ptr :: u64
  code_gen_buffer :: u64
  code_gen_buffer_size :: u64
  code_gen_buffer_max_size :: u64
  code_gen_max_blocks :: nat
  tb_invalidated_flag :: bool

abbreviation (input) CODE_GEN_PHYS_HASH_SIZE :: nat where "CODE_GEN_PHYS_HASH_SIZE \<equiv> 32768"
abbreviation (input) CODE_GEN_ALIGN :: u64 where "CODE_GEN_ALIGN \<equiv> 16"
abbreviation (input) NO_PAGE :: u64 where "NO_PAGE \<equiv> - 1"

definition tb_phys_hash_func :: "u64 \<Rightarrow> nat" where
  "tb_phys_hash_func p = unat (p AND 0x7FFF)"

definition upd_tb :: "nat \<Rightarrow> (TranslationBlock \<Rightarrow> TranslationBlock) \<Rightarrow> TBContext \<Rightarrow> TBContext" where
  "upd_tb t f st = st\<lparr>tbs := (tbs st)(t := f (tbs st t))\<rparr>"

definition list_fuel :: "TBContext \<Rightarrow> nat" where
  "list_fuel st = 2 * nb_tbs st + 2"

section \<open>Unlinking from a list\<close>

text \<open>
  tb_remove on a list that is given by its head pointer and the array of blocks. \<open>None\<close> is
  the slot of the head, \<open>Some t\<close> the field phys_hash_next of block \<open>t\<close>.
\<close>

definition hash_slot :: "tbptr \<times> (nat \<Rightarrow> TranslationBlock) \<Rightarrow> tbptr \<Rightarrow> tbptr" where
  "hash_slot s c = (case c of None \<Rightarrow> fst s | Some t \<Rightarrow> phys_hash_next (snd s t))"

definition set_hash_slot ::
  "tbptr \<times> (nat \<Rightarrow> TranslationBlock) \<Rightarrow> tbptr \<Rightarrow> tbptr \<Rightarrow> tbptr \<times> (nat \<Rightarrow> TranslationBlock)" where
  "set_hash_slot s c v = (case c of
       None \<Rightarrow> (v, snd s)
     | Some t \<Rightarrow> (fst s, (snd s)(t := (snd s t)\<lparr>phys_hash_next := v\<rparr>)))"

fun tb_remove ::
  "nat \<Rightarrow> tbptr \<times> (nat \<Rightarrow> TranslationBlock) \<Rightarrow> tbptr \<Rightarrow> nat \<Rightarrow> (tbptr \<times> (nat \<Rightarrow> TranslationBlock)) result" where
  "tb_remove 0 s ptb tb = Inl NoFuel"
| "tb_remove (Suc n) s ptb tb =
     (case hash_slot s ptb of
        None \<Rightarrow> Inl NullDeref
      | Some tb1 \<Rightarrow>
          if tb1 = tb then Inr (set_hash_slot s ptb (hash_slot s (Some tb1)))
          else tb_remove n s (Some tb1) tb)"

text \<open>tb_page_remove: the same on the tagged pointers of a page list.\<close>

definition page_slot :: "tagptr \<times> (nat \<Rightarrow> TranslationBlock) \<Rightarrow> tagptr \<Rightarrow> tagptr" where
  "page_slot s c = (case c of None \<Rightarrow> fst s | Some (t, n) \<Rightarrow> page_next (snd s t) n)"

definition set_page_slot ::
  "tagptr \<times> (nat \<Rightarrow> TranslationBlock) \<Rightarrow> tagptr \<Rightarrow> tagptr \<Rightarrow> tagptr \<times> (nat \<Rightarrow> TranslationBlock)" where
  "set_page_slot s c v = (case c of
       None \<Rightarrow> (v, snd s)
     | Some (t, n) \<Rightarrow>
         (fst s, (snd s)(t := (snd s t)\<lparr>page_next := (page_next (snd s t))(n := v)\<rparr>)))"

fun tb_page_remove ::
  "nat \<Rightarrow> tagptr \<times> (nat \<Rightarrow> TranslationBlock) \<Rightarrow> tagptr \<Rightarrow> nat \<Rightarrow> (tagptr \<times> (nat \<Rightarrow> TranslationBlock)) result" where
  "tb_page_remove 0 s ptb tb = Inl NoFuel"
| "tb_page_remove (Suc n) s ptb tb =
     (case page_slot s ptb of
        None \<Rightarrow> Inl NullDeref
      | Some (tb1, n1) \<Rightarrow>
          if tb1 = tb then Inr (set_page_slot s ptb (page_slot s (Some (tb1, n1))))
          else tb_page_remove n s (Some (tb1, n1)) tb)"

section \<open>Jump lists\<close>

text \<open>The pointer fields of the jump lists: jmp_next[0], jmp_next[1] and, with tag 2,
  jmp_first.\<close>

definition jmp_slot :: "(nat \<Rightarrow> TranslationBlock) \<Rightarrow> nat \<times> nat \<Rightarrow> tagptr" where
  "jmp_slot ts c = (if snd c = 2 then jmp_first (ts (fst c)) else jmp_next (ts (fst c)) (snd c))"

definition set_jmp_slot ::
  "(nat \<Rightarrow> TranslationBlock) \<Rightarrow> nat \<times> nat \<Rightarrow> tagptr \<Rightarrow> nat \<Rightarrow> TranslationBlock" where
  "set_jmp_slot ts c v =
     (if snd c = 2 then ts(fst c := (ts (fst c))\<lparr>jmp_first := v\<rparr>)
      else ts(fst c := (ts (fst c))\<lparr>jmp_next := (jmp_next (ts (fst c)))(snd c := v)\<rparr>))"

text \<open>The search of tb_jmp_remove for the slot that holds \<open>(tb, n)\<close>, and the unlinking.\<close>

fun jmp_unlink ::
  "nat \<Rightarrow> (nat \<Rightarrow> TranslationBlock) \<Rightarrow> nat \<times> nat \<Rightarrow> nat \<times> nat \<Rightarrow> (nat \<Rightarrow> TranslationBlock) result" where
  "jmp_unlink 0 ts ptb k = Inl NoFuel"
| "jmp_unlink (Suc f) ts ptb k =
     (case jmp_slot ts ptb of
        None \<Rightarrow> Inl NullDeref
      | Some k1 \<Rightarrow>
          if k1 = k then Inr (set_jmp_slot ts ptb (jmp_slot ts k))
          else jmp_unlink f ts k1 k)"

definition tb_jmp_remove :: "TBContext \<Rightarrow> nat \<Rightarrow> nat \<Rightarrow> TBContext result" where
  "tb_jmp_remove st tb n =
     (if jmp_next (tbs st tb) n = None then Inr st
      else andthen (jmp_unlink (list_fuel st) (tbs st) (tb, n) (tb, n)) (\<lambda>ts.
        Inr (st\<lparr>tbs := set_jmp_slot ts (tb, n) None\<rparr>)))"

definition tb_set_jmp_target :: "TBContext \<Rightarrow> nat \<Rightarrow> nat \<Rightarrow> u64 \<Rightarrow> TBContext" where
  "tb_set_jmp_target st tb n addr =
     st\<lparr>code := tb_set_jmp_target1 (code st) (tc_ptr (tbs st tb) + ucast (tb_jmp_offset (tbs st tb) n)) addr\<rparr>"

definition tb_reset_jump :: "TBContext \<Rightarrow> nat \<Rightarrow> nat \<Rightarrow> TBContext" where
  "tb_reset_jump st tb n =
     tb_set_jmp_target st tb n (tc_ptr (tbs st tb) + ucast (tb_next_offset (tbs st tb) n))"

definition tb_add_jump :: "TBContext \<Rightarrow> nat \<Rightarrow> nat \<Rightarrow> nat \<Rightarrow> TBContext" where
  "tb_add_jump st tb n tb_next =
     (if jmp_next (tbs st tb) n = None then
        let st = tb_set_jmp_target st tb n (tc_ptr (tbs st tb_next));
            st = upd_tb tb (\<lambda>b. b\<lparr>jmp_next := (jmp_next b)(n := jmp_first (tbs st tb_next))\<rparr>) st
        in upd_tb tb_next (\<lambda>b. b\<lparr>jmp_first := Some (tb, n)\<rparr>) st
      else st)"

text \<open>The last loop of tb_phys_invalidate: every block that jumps here gets its own exit back.\<close>

fun reset_incoming :: "nat \<Rightarrow> TBContext \<Rightarrow> tagptr \<Rightarrow> TBContext result" where
  "reset_incoming 0 st p = Inl NoFuel"
| "reset_incoming (Suc f) st p =
     (case p of
        None \<Rightarrow> Inl NullDeref
      | Some (tb1, n1) \<Rightarrow>
          if n1 = 2 then Inr st
          else
            let tb2 = jmp_next (tbs st tb1) n1;
                st = tb_reset_jump st tb1 n1
            in reset_incoming f (upd_tb tb1 (\<lambda>b. b\<lparr>jmp_next := (jmp_next b)(n1 := None)\<rparr>) st) tb2)"

section \<open>Invalidating a block\<close>

text \<open>The part of tb_phys_invalidate for one page of the block.\<close>

definition page_unlink :: "TBContext \<Rightarrow> nat \<Rightarrow> u64 \<Rightarrow> TBContext result" where
  "page_unlink st tb a =
     (case page_find (l1_map st) (unat (drop_bit TARGET_PAGE_BITS a)) of
        None \<Rightarrow> Inl NullDeref
      | Some p \<Rightarrow>
          (case pd_get (l1_map st) p of
             None \<Rightarrow> Inl NullDeref
           | Some d \<Rightarrow>
               andthen (tb_page_remove (list_fuel st) (first_tb d, tbs st) None tb) (\<lambda>(first, ts).
                 Inr (st\<lparr>tbs := ts,
                         l1_map := pd_put (l1_map st) p
                           (invalidate_page_bitmap (d\<lparr>first_tb := first\<rparr>))\<rparr>))))"

definition tb_hash_index :: "TranslationBlock \<Rightarrow> nat" where
  "tb_hash_index b = tb_phys_hash_func (page_addr b 0 + (pc b AND 0xFFF))"

definition drop_from_jmp_cache :: "nat \<Rightarrow> nat \<Rightarrow> CPUState \<Rightarrow> CPUState" where
  "drop_from_jmp_cache h tb env =
     (if tb_jmp_cache env h = Some tb then env\<lparr>tb_jmp_cache := (tb_jmp_cache env)(h := None)\<rparr> else env)"

definition tb_phys_invalidate :: "TBContext \<Rightarrow> nat \<Rightarrow> u64 \<Rightarrow> TBContext result" where
  "tb_phys_invalidate st tb pg =
     (let h = tb_hash_index (tbs st tb)
      in andthen (tb_remove (list_fuel st) (tb_phys_hash st h, tbs st) None tb) (\<lambda>(first, ts).
         let st = st\<lparr>tb_phys_hash := (tb_phys_hash st)(h := first), tbs := ts\<rparr>
         in andthen (if page_addr (tbs st tb) 0 \<noteq> pg then page_unlink st tb (page_addr (tbs st tb) 0)
                     else Inr st) (\<lambda>st.
            andthen (if page_addr (tbs st tb) 1 \<noteq> NO_PAGE \<and> page_addr (tbs st tb) 1 \<noteq> pg
                     then page_unlink st tb (page_addr (tbs st tb) 1) else Inr st) (\<lambda>st.
            let hc = tb_jmp_cache_hash_func (pc (tbs st tb));
                st = st\<lparr>tb_invalidated_flag := True, cpus := map (drop_from_jmp_cache hc tb) (cpus st)\<rparr>
            in andthen (tb_jmp_remove st tb 0) (\<lambda>st.
               andthen (tb_jmp_remove st tb 1) (\<lambda>st.
               andthen (reset_incoming (list_fuel st) st (jmp_first (tbs st tb))) (\<lambda>st.
               Inr (upd_tb tb (\<lambda>b. b\<lparr>jmp_first := Some (tb, 2)\<rparr>) st))))))))"

section \<open>Flushing, allocating and linking\<close>

text \<open>
  tb_flush without the user-mode calls optimization_reset and llvm_tb_flush, which act on the
  state of the optimizer, and without its statistics counters.
\<close>

definition tb_flush :: "TBContext \<Rightarrow> TBContext result" where
  "tb_flush st =
     (if code_gen_ptr st - code_gen_buffer st > code_gen_buffer_size st then Inl Abort
      else Inr (st\<lparr>nb_tbs := 0,
                   cpus := map (\<lambda>env. env\<lparr>tb_jmp_cache := clear_ptrs 0 TB_JMP_CACHE_SIZE (tb_jmp_cache env)\<rparr>)
                             (cpus st),
                   tb_phys_hash := clear_ptrs 0 CODE_GEN_PHYS_HASH_SIZE (tb_phys_hash st),
                   l1_map := page_flush_tb (l1_map st),
                   code_gen_ptr := code_gen_buffer st\<rparr>))"

text \<open>\<open>want_flush\<close> is the answer of llvm_check_flush. The environment copy that a recycled
  block may own is released to the host allocator and has no model.\<close>

definition tb_alloc :: "bool \<Rightarrow> TBContext \<Rightarrow> u64 \<Rightarrow> TBContext \<times> tbptr" where
  "tb_alloc want_flush st pc0 =
     (if nb_tbs st \<ge> code_gen_max_blocks st \<or>
         code_gen_ptr st - code_gen_buffer st \<ge> code_gen_buffer_max_size st \<or> want_flush
      then (st, None)
      else
        let t = nb_tbs st
        in (upd_tb t (\<lambda>b. b\<lparr>pc := pc0, cflags := 0, ib_num_chain := 0, ib_jmp_offset := 0xffff,
                            tbmode := 0, tb_gen_pending := False, tbinvalidated := False,
                            jmp_pc := (jmp_pc b)(0 := - 1, 1 := - 1), exec_count := 0, opt_ptr := 0\<rparr>)
              (st\<lparr>nb_tbs := t + 1\<rparr>), Some t))"

definition tb_free :: "TBContext \<Rightarrow> nat \<Rightarrow> TBContext" where
  "tb_free st tb =
     (if nb_tbs st > 0 \<and> tb = nb_tbs st - 1
      then st\<lparr>code_gen_ptr := tc_ptr (tbs st tb), nb_tbs := nb_tbs st - 1\<rparr> else st)"

text \<open>tb_alloc_page of the system emulator: the first block of a page write-protects it.\<close>

definition tb_alloc_page :: "TBContext \<Rightarrow> nat \<Rightarrow> nat \<Rightarrow> u64 \<Rightarrow> TBContext result" where
  "tb_alloc_page st tb n pa =
     (case page_find_alloc (l1_map st) (unat (drop_bit TARGET_PAGE_BITS pa)) True of
        (m, None) \<Rightarrow> Inl NullDeref
      | (m, Some p) \<Rightarrow>
          (case pd_get m p of
             None \<Rightarrow> Inl NullDeref
           | Some d \<Rightarrow>
               let st = upd_tb tb (\<lambda>b. b\<lparr>page_addr := (page_addr b)(n := pa),
                                         page_next := (page_next b)(n := first_tb d)\<rparr>) st;
                   st = st\<lparr>l1_map := pd_put m p (invalidate_page_bitmap (d\<lparr>first_tb := Some (tb, n)\<rparr>))\<rparr>
               in if first_tb d = None then
                    andthen (tlb_protect_code (ram st) (cpus st) pa) (\<lambda>(r, cs).
                      Inr (st\<lparr>ram := r, cpus := cs\<rparr>))
                  else Inr st))"

definition tb_link_page :: "TBContext \<Rightarrow> nat \<Rightarrow> u64 \<Rightarrow> u64 \<Rightarrow> TBContext result" where
  "tb_link_page st tb phys_pc phys_page2 =
     (let h = tb_phys_hash_func phys_pc;
          st = upd_tb tb (\<lambda>b. b\<lparr>phys_hash_next := tb_phys_hash st h\<rparr>) st;
          st = st\<lparr>tb_phys_hash := (tb_phys_hash st)(h := Some tb)\<rparr>
      in andthen (tb_alloc_page st tb 0 (phys_pc AND TARGET_PAGE_MASK)) (\<lambda>st.
         andthen (if phys_page2 \<noteq> NO_PAGE then tb_alloc_page st tb 1 phys_page2
                  else Inr (upd_tb tb (\<lambda>b. b\<lparr>page_addr := (page_addr b)(1 := NO_PAGE)\<rparr>) st)) (\<lambda>st.
         let st = upd_tb tb (\<lambda>b. b\<lparr>jmp_first := Some (tb, 2),
                                   jmp_next := (jmp_next b)(0 := None, 1 := None)\<rparr>) st;
             st = (if tb_next_offset (tbs st tb) 0 \<noteq> 0xffff then tb_reset_jump st tb 0 else st);
             st = (if tb_next_offset (tbs st tb) 1 \<noteq> 0xffff then tb_reset_jump st tb 1 else st)
         in Inr st)))"

section \<open>Generating and finding\<close>

text \<open>
  The translator cpu_gen_code is the parameter \<open>gen\<close>: from the block and the code memory it
  gives the block with its size and jump offsets, the memory with the host code, and the
  number of bytes of host code. get_page_addr_code is the parameter \<open>phys\<close>. The pair
  \<open>want_flush\<close> holds the answers of llvm_check_flush to the first and to the second tb_alloc.
\<close>

type_synonym gen_fun = "TranslationBlock \<Rightarrow> code_mem \<Rightarrow> TranslationBlock \<times> code_mem \<times> u64"

definition tb_gen_alloc :: "bool \<times> bool \<Rightarrow> TBContext \<Rightarrow> u64 \<Rightarrow> (TBContext \<times> nat) result" where
  "tb_gen_alloc want_flush st pc0 =
     (case tb_alloc (fst want_flush) st pc0 of
        (st, Some tb) \<Rightarrow> Inr (st, tb)
      | (st, None) \<Rightarrow> andthen (tb_flush st) (\<lambda>st.
          (case tb_alloc (snd want_flush) st pc0 of
             (st, Some tb) \<Rightarrow> Inr (st\<lparr>tb_invalidated_flag := True\<rparr>, tb)
           | (st, None) \<Rightarrow> Inl NullDeref)))"

definition tb_gen_link ::
  "(u64 \<Rightarrow> u64) \<Rightarrow> gen_fun \<Rightarrow> TBContext \<Rightarrow> nat \<Rightarrow> u64 \<Rightarrow> u64 \<Rightarrow> u64 \<Rightarrow> u64 \<Rightarrow> u16 \<Rightarrow> (TBContext \<times> nat) result" where
  "tb_gen_link phys gen st tb phys_pc pc0 csb flags cfl =
     (let p = code_gen_ptr st;
          st = upd_tb tb (\<lambda>b. b\<lparr>tc_ptr := p, opt_ptr := p, cs_base := csb, tbflags := flags, cflags := cfl\<rparr>) st;
          (b, m, sz) = gen (tbs st tb) (code st);
          st = st\<lparr>tbs := (tbs st)(tb := b), code := m,
                  code_gen_ptr := (p + sz + CODE_GEN_ALIGN - 1) AND NOT (CODE_GEN_ALIGN - 1)\<rparr>;
          virt_page2 = (pc0 + ucast (tbsize b) - 1) AND TARGET_PAGE_MASK;
          phys_page2 = (if pc0 AND TARGET_PAGE_MASK \<noteq> virt_page2 then phys virt_page2 else NO_PAGE)
      in andthen (tb_link_page st tb phys_pc phys_page2) (\<lambda>st. Inr (st, tb)))"

definition tb_gen_code ::
  "(u64 \<Rightarrow> u64) \<Rightarrow> gen_fun \<Rightarrow> bool \<times> bool \<Rightarrow> TBContext \<Rightarrow> u64 \<Rightarrow> u64 \<Rightarrow> u64 \<Rightarrow> u16 \<Rightarrow> (TBContext \<times> nat) result" where
  "tb_gen_code phys gen want_flush st pc0 csb flags cfl =
     (let phys_pc = phys pc0
      in andthen (tb_gen_alloc want_flush st pc0) (\<lambda>(st, tb).
         tb_gen_link phys gen st tb phys_pc pc0 csb flags cfl))"

text \<open>The test of tb_find_slow on one block, and its walk through the hash list.\<close>

definition tb_matches :: "(u64 \<Rightarrow> u64) \<Rightarrow> TranslationBlock \<Rightarrow> u64 \<Rightarrow> u64 \<Rightarrow> u64 \<Rightarrow> bool" where
  "tb_matches phys b pc0 csb flags \<longleftrightarrow>
     pc b = pc0 \<and> page_addr b 0 = phys pc0 AND TARGET_PAGE_MASK \<and> cs_base b = csb \<and> tbflags b = flags \<and>
     (page_addr b 1 \<noteq> NO_PAGE \<longrightarrow>
        page_addr b 1 = phys ((pc0 AND TARGET_PAGE_MASK) + TARGET_PAGE_SIZE))"

fun hash_find :: "nat \<Rightarrow> (nat \<Rightarrow> TranslationBlock) \<Rightarrow> (TranslationBlock \<Rightarrow> bool) \<Rightarrow> tbptr \<Rightarrow> tbptr result" where
  "hash_find 0 ts P p = Inl NoFuel"
| "hash_find (Suc n) ts P p =
     (case p of
        None \<Rightarrow> Inr None
      | Some tb \<Rightarrow> if P (ts tb) then Inr (Some tb) else hash_find n ts P (phys_hash_next (ts tb)))"

definition set_jmp_cache :: "TBContext \<Rightarrow> nat \<Rightarrow> u64 \<Rightarrow> nat \<Rightarrow> TBContext" where
  "set_jmp_cache st i pc0 tb =
     st\<lparr>cpus := (cpus st)[i := (cpus st ! i)\<lparr>tb_jmp_cache :=
          (tb_jmp_cache (cpus st ! i))(tb_jmp_cache_hash_func pc0 := Some tb)\<rparr>]\<rparr>"

text \<open>\<open>i\<close> is the position of the running CPU in the list of CPUs.\<close>

definition tb_find_slow ::
  "(u64 \<Rightarrow> u64) \<Rightarrow> gen_fun \<Rightarrow> bool \<times> bool \<Rightarrow> TBContext \<Rightarrow> nat \<Rightarrow> u64 \<Rightarrow> u64 \<Rightarrow> u64 \<Rightarrow> (TBContext \<times> nat) result" where
  "tb_find_slow phys gen want_flush st i pc0 csb flags =
     (let st = st\<lparr>tb_invalidated_flag := False\<rparr>;
          h = tb_phys_hash_func (phys pc0)
      in andthen (hash_find (list_fuel st) (tbs st) (\<lambda>b. tb_matches phys b pc0 csb flags)
                    (tb_phys_hash st h)) (\<lambda>r.
         andthen (case r of Some tb \<Rightarrow> Inr (st, tb)
                  | None \<Rightarrow> tb_gen_code phys gen want_flush st pc0 csb flags 0) (\<lambda>(st, tb).
         Inr (set_jmp_cache st i pc0 tb, tb))))"

definition tb_find_fast ::
  "(u64 \<Rightarrow> u64) \<Rightarrow> gen_fun \<Rightarrow> bool \<times> bool \<Rightarrow> TBContext \<Rightarrow> nat \<Rightarrow> u64 \<Rightarrow> u64 \<Rightarrow> u64 \<Rightarrow> (TBContext \<times> nat) result" where
  "tb_find_fast phys gen want_flush st i pc0 csb flags =
     (case tb_jmp_cache (cpus st ! i) (tb_jmp_cache_hash_func pc0) of
        Some tb \<Rightarrow>
          if pc (tbs st tb) \<noteq> pc0 \<or> cs_base (tbs st tb) \<noteq> csb \<or> tbflags (tbs st tb) \<noteq> flags
          then tb_find_slow phys gen want_flush st i pc0 csb flags
          else Inr (st, tb)
      | None \<Rightarrow> tb_find_slow phys gen want_flush st i pc0 csb flags)"

text \<open>
  The part of the loop of cpu_exec between two executions of host code: look the block up,
  forget the previous block when something was invalidated meanwhile, chain the previous
  block to the new one unless that one spans two pages, and make it the current block.
  \<open>next_tb\<close> is the block and the exit that the host code returned, \<open>None\<close> for 0.
\<close>

definition cpu_exec_find_tb ::
  "(u64 \<Rightarrow> u64) \<Rightarrow> gen_fun \<Rightarrow> bool \<times> bool \<Rightarrow> TBContext \<Rightarrow> nat \<Rightarrow> u64 \<Rightarrow> u64 \<Rightarrow> u64 \<Rightarrow> tagptr \<Rightarrow> (TBContext \<times> nat) result" where
  "cpu_exec_find_tb phys gen want_flush st i pc0 csb flags next_tb =
     andthen (tb_find_fast phys gen want_flush st i pc0 csb flags) (\<lambda>(st, tb).
       let (next_tb, st) = (if tb_invalidated_flag st then (None, st\<lparr>tb_invalidated_flag := False\<rparr>)
                            else (next_tb, st));
           st = (case next_tb of
                   None \<Rightarrow> st
                 | Some (s, n) \<Rightarrow> if page_addr (tbs st tb) 1 = NO_PAGE then tb_add_jump st s n tb else st)
       in Inr (st\<lparr>cpus := (cpus st)[i := (cpus st ! i)\<lparr>current_tb := Some tb\<rparr>]\<rparr>, tb))"

text \<open>The binary search of tb_find_pc over the start addresses.\<close>

function search_pc :: "(nat \<Rightarrow> u64) \<Rightarrow> u64 \<Rightarrow> int \<Rightarrow> int \<Rightarrow> int" where
  "search_pc tc p m_min m_max =
     (if m_min \<le> m_max then
        let m = (m_min + m_max) div 2; v = tc (nat m)
        in if v = p then m
           else if p < v then search_pc tc p m_min (m - 1)
           else search_pc tc p (m + 1) m_max
      else m_max)"
  by pat_completeness auto
termination
  by (relation "measure (\<lambda>(tc, p, a, b). nat (b - a + 1))") auto

declare search_pc.simps [simp del]

definition tb_find_pc :: "TBContext \<Rightarrow> u64 \<Rightarrow> int option" where
  "tb_find_pc st p =
     (if nb_tbs st = 0 then None
      else if p < code_gen_buffer st \<or> p \<ge> code_gen_ptr st then None
      else Some (search_pc (\<lambda>t. tc_ptr (tbs st t)) p 0 (int (nb_tbs st) - 1)))"

section \<open>The three kinds of list\<close>

interpretation hl: slot_list hash_slot set_hash_slot Some "\<lambda>t k. k = t" tb_remove
  by unfold_locales (auto simp: hash_slot_def set_hash_slot_def split: option.splits)

interpretation pl: slot_list page_slot set_page_slot Some "\<lambda>t k. fst k = t" tb_page_remove
  by unfold_locales (auto simp: page_slot_def set_page_slot_def split: option.splits)

interpretation jl: slot_list jmp_slot set_jmp_slot "\<lambda>k. k" "\<lambda>t k. k = t" jmp_unlink
  by unfold_locales (auto simp: jmp_slot_def set_jmp_slot_def prod_eq_iff split: option.splits)

end
