(* ===== verification/Page_Bitmap.thy ===== *)
theory Page_Bitmap
  imports TB_Cache
begin

text \<open>
  The bitmap of the bytes of a page that hold translated code (exec.c): set_bits and
  build_page_bitmap, and the invariant that a bitmap, while it exists, is exact.
\<close>

section \<open>Model\<close>

text \<open>The byte at index \<open>i\<close> of the table is replaced; outside the table the program would
  corrupt memory, which is a fault. Positions are below 4096, so the C ints are naturals.\<close>

definition upd_byte :: "u8 list \<Rightarrow> nat \<Rightarrow> (u8 \<Rightarrow> u8) \<Rightarrow> u8 list result" where
  "upd_byte tab i f = (if i < length tab then Inr (tab[i := f (tab ! i)]) else Inl OutOfBounds)"

function fill_bytes :: "u8 list \<Rightarrow> nat \<Rightarrow> nat \<Rightarrow> nat \<Rightarrow> (u8 list \<times> nat \<times> nat) result" where
  "fill_bytes tab i start end1 =
     (if start < end1 then andthen (upd_byte tab i (\<lambda>_. 0xff)) (\<lambda>tab. fill_bytes tab (i + 1) (start + 8) end1)
      else Inr (tab, i, start))"
  by pat_completeness auto
termination
  by (relation "measure (\<lambda>(tab, i, start, end1). end1 - start)") auto

declare fill_bytes.simps [simp del]

definition set_bits :: "u8 list \<Rightarrow> nat \<Rightarrow> nat \<Rightarrow> u8 list result" where
  "set_bits tab start len =
     (let end0 = start + len;
          i = start div 8;
          msk = push_bit (start mod 8) 0xff :: u32
      in if start div 8 * 8 = end0 div 8 * 8 then
           if start < end0 then
             upd_byte tab i (\<lambda>b. b OR ucast (msk AND NOT (push_bit (end0 mod 8) 0xff)))
           else Inr tab
         else
           andthen (upd_byte tab i (\<lambda>b. b OR ucast msk)) (\<lambda>tab.
           andthen (fill_bytes tab (i + 1) ((start + 8) div 8 * 8) (end0 div 8 * 8)) (\<lambda>(tab, i, start).
             if start < end0 then
               upd_byte tab i (\<lambda>b. b OR ucast (NOT (push_bit (end0 mod 8) 0xff) :: u32))
             else Inr tab)))"

text \<open>The part of the page that the block covers as its first (0) or second (1) page.\<close>

definition tb_span :: "TranslationBlock \<Rightarrow> nat \<Rightarrow> nat \<times> nat" where
  "tb_span b n =
     (if n = 0 then
        let tb_start = unat (pc b AND 0xFFF); tb_end = tb_start + unat (tbsize b)
        in (tb_start, if tb_end > 4096 then 4096 else tb_end)
      else (0, unat ((pc b + ucast (tbsize b)) AND 0xFFF)))"

fun build_bits :: "nat \<Rightarrow> (nat \<Rightarrow> TranslationBlock) \<Rightarrow> u8 list \<Rightarrow> tagptr \<Rightarrow> u8 list result" where
  "build_bits 0 ts tab p = Inl NoFuel"
| "build_bits (Suc f) ts tab p =
     (case p of
        None \<Rightarrow> Inr tab
      | Some (tb, n) \<Rightarrow>
          let (tb_start, tb_end) = tb_span (ts tb) n
          in andthen (set_bits tab tb_start (tb_end - tb_start)) (\<lambda>tab.
             build_bits f ts tab (page_next (ts tb) n)))"

definition build_page_bitmap :: "nat \<Rightarrow> (nat \<Rightarrow> TranslationBlock) \<Rightarrow> PageDesc \<Rightarrow> PageDesc result" where
  "build_page_bitmap f ts d =
     andthen (build_bits f ts (replicate 512 0) (first_tb d)) (\<lambda>tab. Inr (d\<lparr>code_bitmap := Some tab\<rparr>))"

section \<open>Setting bits\<close>

definition page_bit :: "u8 list \<Rightarrow> nat \<Rightarrow> bool" where
  "page_bit tab i = bit (tab ! (i div 8)) (i mod 8)"

lemma bit_head: "k < 8 \<Longrightarrow> j < 8 \<Longrightarrow> bit (ucast (push_bit k 0xff :: u32) :: u8) j \<longleftrightarrow> k \<le> j"
proof -
  have "(0xff :: u32) = mask 8" by (simp add: mask_eq_exp_minus_1)
  then show "k < 8 \<Longrightarrow> j < 8 \<Longrightarrow> bit (ucast (push_bit k 0xff :: u32) :: u8) j \<longleftrightarrow> k \<le> j"
    by (simp only: bit_simps) auto
qed

lemma bit_tail: "k < 8 \<Longrightarrow> j < 8 \<Longrightarrow> bit (ucast (NOT (push_bit k 0xff) :: u32) :: u8) j \<longleftrightarrow> j < k"
proof -
  have "(0xff :: u32) = mask 8" by (simp add: mask_eq_exp_minus_1)
  then show "k < 8 \<Longrightarrow> j < 8 \<Longrightarrow> bit (ucast (NOT (push_bit k 0xff) :: u32) :: u8) j \<longleftrightarrow> j < k"
    by (simp only: bit_simps) auto
qed

lemma bit_mid: "k < 8 \<Longrightarrow> k' < 8 \<Longrightarrow> j < 8 \<Longrightarrow>
    bit (ucast (push_bit k 0xff AND NOT (push_bit k' 0xff) :: u32) :: u8) j \<longleftrightarrow> k \<le> j \<and> j < k'"
proof -
  have "(0xff :: u32) = mask 8" by (simp add: mask_eq_exp_minus_1)
  then show "k < 8 \<Longrightarrow> k' < 8 \<Longrightarrow> j < 8 \<Longrightarrow>
    bit (ucast (push_bit k 0xff AND NOT (push_bit k' 0xff) :: u32) :: u8) j \<longleftrightarrow> k \<le> j \<and> j < k'"
    by (simp only: bit_simps) auto
qed

lemma bit_ff: "j < 8 \<Longrightarrow> bit (0xff :: u8) j"
proof -
  have "(0xff :: u8) = mask 8" by (simp add: mask_eq_exp_minus_1)
  then show "j < 8 \<Longrightarrow> bit (0xff :: u8) j" by (simp only: bit_mask_iff) simp
qed

lemma upd_byte_bits:
  assumes "p < length tab" and "\<And>j. j < 8 \<Longrightarrow> bit (f (tab ! p)) j \<longleftrightarrow> bit (tab ! p) j \<or> a \<le> 8 * p + j \<and> 8 * p + j < b"
    and "8 * p \<le> a \<or> b \<le> a" "b \<le> 8 * p + 8"
  obtains tab' where "upd_byte tab p f = Inr tab'" "length tab' = length tab"
    "\<And>i. page_bit tab' i \<longleftrightarrow> page_bit tab i \<or> a \<le> i \<and> i < b"
proof -
  have "page_bit (tab[p := f (tab ! p)]) i \<longleftrightarrow> page_bit tab i \<or> a \<le> i \<and> i < b" for i
  proof (cases "i div 8 = p")
    case True
    then have "i = 8 * p + i mod 8" by auto
    then show ?thesis using True assms(1) assms(2) [of "i mod 8"] by (simp add: page_bit_def)
  next
    case False
    then have "i < 8 * p \<or> 8 * p + 8 \<le> i" by auto
    then show ?thesis using False assms(1,3,4) by (auto simp: page_bit_def)
  qed
  with assms(1) show ?thesis by (intro that [of "tab[p := f (tab ! p)]"]) (simp_all add: upd_byte_def)
qed

lemma fill_bytes_bits:
  assumes "q \<le> length tab" and "p \<le> q"
  shows "\<exists>tab'. fill_bytes tab p (8 * p) (8 * q) = Inr (tab', q, 8 * q) \<and> length tab' = length tab \<and>
     (\<forall>i. page_bit tab' i \<longleftrightarrow> page_bit tab i \<or> 8 * p \<le> i \<and> i < 8 * q)"
  using assms(2,1)
proof (induction arbitrary: tab rule: inc_induct)
  case base
  then show ?case by (subst fill_bytes.simps) auto
next
  case (step p)
  obtain t1 where t1: "upd_byte tab p (\<lambda>_. 0xff) = Inr t1" "length t1 = length tab"
    "\<And>i. page_bit t1 i \<longleftrightarrow> page_bit tab i \<or> 8 * p \<le> i \<and> i < 8 * p + 8"
    by (rule upd_byte_bits [of p tab "\<lambda>_. 0xff" "8 * p" "8 * p + 8"]) (use step bit_ff in auto)
  from step.IH [of t1] step.prems t1(2) obtain t2 where
    t2: "fill_bytes t1 (Suc p) (8 * Suc p) (8 * q) = Inr (t2, q, 8 * q)" "length t2 = length tab"
      "\<forall>i. page_bit t2 i \<longleftrightarrow> page_bit t1 i \<or> 8 * Suc p \<le> i \<and> i < 8 * q" by auto
  have "page_bit t2 i \<longleftrightarrow> page_bit tab i \<or> 8 * p \<le> i \<and> i < 8 * q" for i using spec [OF t2(3), of i] t1(3) [of i] step.hyps by auto
  moreover have "fill_bytes tab p (8 * p) (8 * q) = fill_bytes t1 (Suc p) (8 * Suc p) (8 * q)"
    using step.hyps t1(1) by (subst fill_bytes.simps) (simp add: add.commute)
  ultimately show ?case using t2(1,2) by auto
qed

lemma set_bits_bits:
  assumes "start + len \<le> 8 * length tab"
  obtains tab' where "set_bits tab start len = Inr tab'" "length tab' = length tab"
    "\<And>i. page_bit tab' i \<longleftrightarrow> page_bit tab i \<or> start \<le> i \<and> i < start + len"
proof -
  define p a e q b where "p = start div 8" and "a = start mod 8" and "e = start + len"
    and "q = e div 8" and "b = e mod 8"
  have s: "start = 8 * p + a" "a < 8" and e: "e = 8 * q + b" "b < 8" and le: "start \<le> e" "e \<le> 8 * length tab"
    using assms by (simp_all add: p_def a_def e_def q_def b_def)
  have pq: "p \<le> q" unfolding p_def q_def by (rule div_le_mono [OF le(1)])
  let ?m = "push_bit a 0xff :: u32" and ?n = "push_bit b 0xff :: u32"
  have def: "set_bits tab start len =
      (if p = q then if start < e then upd_byte tab p (\<lambda>x. x OR ucast (?m AND NOT ?n)) else Inr tab
       else andthen (upd_byte tab p (\<lambda>x. x OR ucast ?m)) (\<lambda>tab.
            andthen (fill_bytes tab (p + 1) (8 * (p + 1)) (8 * q)) (\<lambda>(tab, i, s).
              if s < e then upd_byte tab i (\<lambda>x. x OR ucast (NOT ?n)) else Inr tab)))"
  proof -
    have s8: "(start + 8) div 8 * 8 = 8 * (p + 1)" using div_add_self2 [of 8 start] by (simp add: p_def)
    have "(x * 8 = y * 8) = (x = y)" for x y :: nat by simp
    then show ?thesis
      unfolding set_bits_def Let_def s8 unfolding e_def [symmetric] p_def a_def q_def b_def by (simp add: mult.commute)
  qed
  show ?thesis
  proof (cases "p = q")
    case same: True
    show ?thesis
    proof (cases "start < e")
      case True
      have "p < length tab" using le(2) True s e same by linarith
      then obtain t1 where "upd_byte tab p (\<lambda>x. x OR ucast (?m AND NOT ?n)) = Inr t1"
        "length t1 = length tab" "\<And>i. page_bit t1 i \<longleftrightarrow> page_bit tab i \<or> start \<le> i \<and> i < e"
      proof (rule upd_byte_bits)
        show "bit (tab ! p OR ucast (?m AND NOT ?n)) j \<longleftrightarrow>
            bit (tab ! p) j \<or> start \<le> 8 * p + j \<and> 8 * p + j < e" if "j < 8" for j
          unfolding bit_or_iff bit_mid [OF s(2) e(2) that] using s(1) e(1) same by auto
      qed (use s e same in auto)
      with True same def show ?thesis unfolding e_def by (intro that [of t1]) simp_all
    next
      case False
      then show ?thesis using same def le(1) by (intro that [of tab]) (auto simp: e_def)
    qed
  next
    case False
    then have lt: "p < q" using pq by simp
    then have "p < length tab" using le(2) e(1) by linarith
    then obtain t1 where t1: "upd_byte tab p (\<lambda>x. x OR ucast ?m) = Inr t1"
      "length t1 = length tab" "\<And>i. page_bit t1 i \<longleftrightarrow> page_bit tab i \<or> start \<le> i \<and> i < 8 * p + 8"
    proof (rule upd_byte_bits)
      show "bit (tab ! p OR ucast ?m) j \<longleftrightarrow> bit (tab ! p) j \<or> start \<le> 8 * p + j \<and> 8 * p + j < 8 * p + 8"
        if "j < 8" for j unfolding bit_or_iff bit_head [OF s(2) that] using s(1) that by auto
    qed (use s in auto)
    obtain t2 where t2: "fill_bytes t1 (p + 1) (8 * (p + 1)) (8 * q) = Inr (t2, q, 8 * q)"
      "length t2 = length t1" "\<And>i. page_bit t2 i \<longleftrightarrow> page_bit t1 i \<or> 8 * (p + 1) \<le> i \<and> i < 8 * q"
      using fill_bytes_bits [of q t1 "p + 1"] le(2) e(1) lt t1(2) by auto
    have run: "set_bits tab start len = (if 8 * q < e then upd_byte t2 q (\<lambda>x. x OR ucast (NOT ?n)) else Inr t2)"
      unfolding def t1(1) andthen_simps t2(1) prod.case using False by simp
    have b2: "page_bit t2 i \<longleftrightarrow> page_bit tab i \<or> start \<le> i \<and> i < 8 * q" for i
      using t2(3) [of i] t1(3) [of i] lt s by auto
    show ?thesis
    proof (cases "8 * q < e")
      case True
      have "q < length t2" using True le(2) t1(2) t2(2) by linarith
      then obtain t3 where t3: "upd_byte t2 q (\<lambda>x. x OR ucast (NOT ?n)) = Inr t3"
        "length t3 = length t2" "\<And>i. page_bit t3 i \<longleftrightarrow> page_bit t2 i \<or> 8 * q \<le> i \<and> i < e"
      proof (rule upd_byte_bits)
        show "bit (t2 ! q OR ucast (NOT ?n)) j \<longleftrightarrow> bit (t2 ! q) j \<or> 8 * q \<le> 8 * q + j \<and> 8 * q + j < e"
          if "j < 8" for j unfolding bit_or_iff bit_tail [OF e(2) that] using e(1) by auto
      qed (use e in auto)
      have "start \<le> 8 * q" using lt s by linarith
      then have "page_bit t3 i \<longleftrightarrow> page_bit tab i \<or> start \<le> i \<and> i < e" for i
        using t3(3) [of i] b2 [of i] True by auto
      with True t3 t2(2) t1(2) run show ?thesis unfolding e_def by (intro that [of t3]) simp_all
    next
      case False
      then have "8 * q = e" using e(1) by linarith
      with False b2 t2(2) t1(2) run show ?thesis unfolding e_def by (intro that [of t2]) simp_all
    qed
  qed
qed


section \<open>Exact bitmaps\<close>

definition in_span :: "TranslationBlock \<Rightarrow> nat \<Rightarrow> nat \<Rightarrow> bool" where
  "in_span b n i \<longleftrightarrow> fst (tb_span b n) \<le> i \<and> i < snd (tb_span b n)"

definition bitmap_exact :: "(nat \<Rightarrow> TranslationBlock) \<Rightarrow> u8 list \<Rightarrow> (nat \<times> nat) list \<Rightarrow> bool" where
  "bitmap_exact ts tab ks \<longleftrightarrow> length tab = 512 \<and>
     (\<forall>i < 4096. page_bit tab i \<longleftrightarrow> (\<exists>k \<in> set ks. in_span (ts (fst k)) (snd k) i))"

lemma in_span_cong: "pc b' = pc b \<Longrightarrow> tbsize b' = tbsize b \<Longrightarrow> in_span b' = in_span b"
  by (simp add: in_span_def tb_span_def fun_eq_iff)

lemma bitmap_exact_cong:
  assumes "\<And>k. k \<in> set ks \<Longrightarrow> pc (ts' (fst k)) = pc (ts (fst k)) \<and> tbsize (ts' (fst k)) = tbsize (ts (fst k))"
  shows "bitmap_exact ts' tab ks = bitmap_exact ts tab ks"
proof -
  have "in_span (ts' (fst k)) = in_span (ts (fst k))" if "k \<in> set ks" for k
    using in_span_cong [of "ts' (fst k)" "ts (fst k)"] assms [OF that] by simp
  then show ?thesis by (simp add: bitmap_exact_def)
qed

lemma tb_span_bound: "snd (tb_span b n) \<le> 4096" "fst (tb_span b n) < 4096"
  using unat_and_FFF [of "pc b"] unat_and_FFF [of "pc b + ucast (tbsize b)"]
  by (auto simp: tb_span_def Let_def)

lemma build_bits_chain:
  assumes "chain (\<lambda>k. page_next (ts (fst k)) (snd k)) p ks" and "length ks < f" and "length tab = 512"
  shows "\<exists>tab'. build_bits f ts tab p = Inr tab' \<and> length tab' = 512 \<and>
     (\<forall>i. page_bit tab' i \<longleftrightarrow> page_bit tab i \<or> (\<exists>k \<in> set ks. in_span (ts (fst k)) (snd k) i))"
  using assms
proof (induction ks arbitrary: p f tab)
  case Nil
  then obtain g where "f = Suc g" by (cases f) auto
  with Nil show ?case by auto
next
  case (Cons k ks)
  obtain t n where k: "k = (t, n)" by fastforce
  obtain g where f: "f = Suc g" using Cons.prems(2) by (cases f) auto
  obtain a e where sp: "tb_span (ts t) n = (a, e)" by fastforce
  have le: "a + (e - a) \<le> 8 * length tab" using tb_span_bound [of "ts t" n] Cons.prems(3) by (simp add: sp)
  obtain t1 where t1: "set_bits tab a (e - a) = Inr t1" "length t1 = length tab"
    "\<And>i. page_bit t1 i \<longleftrightarrow> page_bit tab i \<or> a \<le> i \<and> i < a + (e - a)"
    by (rule set_bits_bits [OF le]) (rule that)
  have sp1: "in_span (ts t) n i \<longleftrightarrow> a \<le> i \<and> i < a + (e - a)" for i by (auto simp: in_span_def sp)
  from Cons.IH [of "page_next (ts t) n" g t1] obtain t2 where
    t2: "build_bits g ts t1 (page_next (ts t) n) = Inr t2" "length t2 = 512"
      "\<forall>i. page_bit t2 i \<longleftrightarrow> page_bit t1 i \<or> (\<exists>k \<in> set ks. in_span (ts (fst k)) (snd k) i)"
    using Cons.prems t1(2) by (auto simp: f k)
  moreover have "page_bit t2 i \<longleftrightarrow> page_bit tab i \<or> (\<exists>x \<in> set (k # ks). in_span (ts (fst x)) (snd x) i)" for i
    using spec [OF t2(3), of i] t1(3) [of i] sp1 [of i] by (auto simp: k)
  ultimately show ?case using Cons.prems(1) t1(1) by (simp add: f k sp)
qed

lemma build_page_bitmap_exact:
  assumes "chain (\<lambda>k. page_next (ts (fst k)) (snd k)) (first_tb d) ks" and "length ks < f"
  obtains tab where "build_page_bitmap f ts d = Inr (d\<lparr>code_bitmap := Some tab\<rparr>)" "bitmap_exact ts tab ks"
proof -
  have "\<not> page_bit (replicate 512 0) i" if "i < 4096" for i
    using that by (simp add: page_bit_def less_mult_imp_div_less)
  with build_bits_chain [OF assms, of "replicate 512 0"] obtain tab where
    "build_bits f ts (replicate 512 0) (first_tb d) = Inr tab" "bitmap_exact ts tab ks"
    by (auto simp: bitmap_exact_def)
  then show ?thesis by (intro that) (simp_all add: build_page_bitmap_def)
qed

end
