(* ===== verification/TB_Inv.thy ===== *)
theory TB_Inv
  imports Page_Bitmap
begin

text \<open>
  The refinement of the pointer structures of the block cache to lists: for every hash
  bucket, page and block the abstract state holds the list that the pointers spell out, and
  every operation of TB_Cache is shown to act on the lists as its abstract counterpart,
  within the bounds on its loops.
\<close>

section \<open>The lists as a whole\<close>

text \<open>What stays of a block when the pointers of the lists are masked.\<close>

definition tb_core :: "TranslationBlock \<Rightarrow> TranslationBlock" where
  "tb_core b = b\<lparr>phys_hash_next := None, page_next := (\<lambda>_. None), jmp_next := (\<lambda>_. None), jmp_first := None\<rparr>"

lemma tb_core_eqD:
  assumes "tb_core b = tb_core b'"
  shows "pc b = pc b'" "page_addr b = page_addr b'" "tc_ptr b = tc_ptr b'" "cs_base b = cs_base b'"
    "tbflags b = tbflags b'" "tbsize b = tbsize b'" "tb_jmp_offset b = tb_jmp_offset b'"
    "tb_next_offset b = tb_next_offset b'" "tb_hash_index b = tb_hash_index b'"
  using assms by (cases b; cases b'; simp add: tb_core_def tb_hash_index_def)+

lemma tb_core_simps [simp]:
  "tb_core (b\<lparr>phys_hash_next := x\<rparr>) = tb_core b" "tb_core (b\<lparr>page_next := y\<rparr>) = tb_core b"
  "tb_core (b\<lparr>jmp_next := z\<rparr>) = tb_core b" "tb_core (b\<lparr>jmp_first := w\<rparr>) = tb_core b"
  by (simp_all add: tb_core_def)

lemma tb_remove_chain:
  assumes "chain (\<lambda>t. phys_hash_next (ts t)) hp (ys @ t # zs)" and "length ys < n"
  obtains hp' ts' where "tb_remove n (hp, ts) None t = Inr (hp', ts')"
    and "chain (\<lambda>t. phys_hash_next (ts' t)) hp' (ys @ zs)"
    and "\<And>u. ts' u = (ts u)\<lparr>phys_hash_next := phys_hash_next (ts' u)\<rparr>"
    and "\<And>u. u \<notin> set ys \<Longrightarrow> ts' u = ts u"
proof -
  have l: "lseg (\<lambda>v. hash_slot (hp, ts) (Some v)) (hash_slot (hp, ts) None) (ys @ t # zs) None"
    using assms(1) by (simp add: hash_slot_def)
  have d: "distinct (ys @ t # zs)" by (rule chain_distinct [OF assms(1)])
  obtain s' where s': "tb_remove n (hp, ts) None t = Inr s'"
    "s' = set_hash_slot (hp, ts) (if ys = [] then None else Some (last ys)) (hash_slot (hp, ts) (Some t))"
    "lseg (\<lambda>v. hash_slot s' (Some v)) (hash_slot s' None) (ys @ zs) None"
    by (rule hl.rm_chain [OF l d, of t n]) (use assms(2) d in auto)
  show ?thesis
  proof (rule that [of "fst s'" "snd s'"])
    show "chain (\<lambda>t. phys_hash_next (snd s' t)) (fst s') (ys @ zs)"
      using s'(3) by (simp add: hash_slot_def)
  qed (use s'(1,2) in \<open>auto simp: set_hash_slot_def\<close>)
qed

lemma tb_page_remove_chain:
  assumes "chain (\<lambda>k. page_next (ts (fst k)) (snd k)) hp (ys @ k # zs)" and "length ys < n"
    and "fst k = t" and "\<forall>y \<in> set ys. fst y \<noteq> t"
  obtains hp' ts' where "tb_page_remove n (hp, ts) None t = Inr (hp', ts')"
    and "chain (\<lambda>k. page_next (ts' (fst k)) (snd k)) hp' (ys @ zs)"
    and "\<And>u. ts' u = (ts u)\<lparr>page_next := page_next (ts' u)\<rparr>"
    and "\<And>u m. (u, m) \<notin> set ys \<Longrightarrow> page_next (ts' u) m = page_next (ts u) m"
proof -
  have ps: "page_slot s (Some v) = page_next (snd s (fst v)) (snd v)" for s v
    by (cases v) (simp add: page_slot_def)
  have l: "lseg (\<lambda>v. page_slot (hp, ts) (Some v)) (page_slot (hp, ts) None) (ys @ k # zs) None"
    using assms(1) by (simp add: ps) (simp add: page_slot_def)
  have d: "distinct (ys @ k # zs)" by (rule chain_distinct [OF assms(1)])
  obtain s' where s': "tb_page_remove n (hp, ts) None t = Inr s'"
    "s' = set_page_slot (hp, ts) (if ys = [] then None else Some (last ys)) (page_slot (hp, ts) (Some k))"
    "lseg (\<lambda>v. page_slot s' (Some v)) (page_slot s' None) (ys @ zs) None"
    by (rule pl.rm_chain [OF l d, of t n]) (use assms d in auto)
  show ?thesis
  proof (rule that [of "fst s'" "snd s'"])
    show "chain (\<lambda>k. page_next (snd s' (fst k)) (snd k)) (fst s') (ys @ zs)"
      using s'(3) by (simp add: ps) (simp add: page_slot_def)
    show "snd s' u = (ts u)\<lparr>page_next := page_next (snd s' u)\<rparr>" for u
      by (cases "last ys") (simp add: s'(2) set_page_slot_def)
    show "page_next (snd s' u) m = page_next (ts u) m" if "(u, m) \<notin> set ys" for u m
      using that last_in_set [of ys] by (cases "last ys") (auto simp: s'(2) set_page_slot_def)
  qed (simp add: s'(1))
qed

section \<open>Page lists\<close>

definition page_first :: "TBContext \<Rightarrow> nat \<Rightarrow> tagptr" where
  "page_first st p = (case pd_get (l1_map st) (page_ptr p) of None \<Rightarrow> None | Some d \<Rightarrow> first_tb d)"

definition page_bitmap :: "PageDesc l1map \<Rightarrow> nat \<Rightarrow> u8 list option" where
  "page_bitmap m p = (case pd_get m (page_ptr p) of None \<Rightarrow> None | Some d \<Rightarrow> code_bitmap d)"

text \<open>The page lists, without a block in two of them at once; a bitmap that exists is exact.\<close>

definition page_rel :: "TBContext \<Rightarrow> (nat \<Rightarrow> (nat \<times> nat) list) \<Rightarrow> bool" where
  "page_rel st PL \<longleftrightarrow> wf_map V_SPACE (l1_map st) \<and>
     (\<forall>p < V_PAGES. chain (\<lambda>k. page_next (tbs st (fst k)) (snd k)) (page_first st p) (PL p)) \<and>
     (\<forall>p < V_PAGES. \<forall>p' < V_PAGES. p \<noteq> p' \<longrightarrow> set (PL p) \<inter> set (PL p') = {}) \<and>
     (\<forall>p < V_PAGES. \<forall>tab. page_bitmap (l1_map st) p = Some tab \<longrightarrow> bitmap_exact (tbs st) tab (PL p))"

lemma page_first_put:
  assumes "wf_map V_SPACE (l1_map st)" "p < V_PAGES" "p' < V_PAGES" "pd_get (l1_map st) (page_ptr p) \<noteq> None"
  shows "page_first (st\<lparr>tbs := ts, l1_map := pd_put (l1_map st) (page_ptr p) d\<rparr>) p' =
     (if p' = p then first_tb d else page_first st p')"
  using vp.put_get [OF assms(1-4), of d] by (simp add: page_first_def)

lemma page_bitmap_put:
  assumes "wf_map V_SPACE m" "p < V_PAGES" "q < V_PAGES" "pd_get m (page_ptr p) \<noteq> None"
  shows "page_bitmap (pd_put m (page_ptr p) d) q = (if q = p then code_bitmap d else page_bitmap m q)"
  using vp.put_get [OF assms, of d] by (simp add: page_bitmap_def)

lemma page_unlink_rel:
  assumes rel: "page_rel st PL" and p: "p = unat (drop_bit 12 a)" "p < V_PAGES"
    and PL: "PL p = ys @ k # zs" and k: "fst k = t" "\<forall>y \<in> set ys. fst y \<noteq> t"
    and len: "length ys < list_fuel st"
  obtains ts m where "page_unlink st t a = Inr (st\<lparr>tbs := ts, l1_map := m\<rparr>)"
    and "page_rel (st\<lparr>tbs := ts, l1_map := m\<rparr>) (PL(p := ys @ zs))"
    and "\<And>u. ts u = (tbs st u)\<lparr>page_next := page_next (ts u)\<rparr>"
    and "\<And>q. q < V_PAGES \<Longrightarrow> pd_get (l1_map st) (page_ptr q) \<noteq> None \<Longrightarrow> pd_get m (page_ptr q) \<noteq> None"
proof -
  have wf: "wf_map V_SPACE (l1_map st)"
    and ch: "\<And>p. p < V_PAGES \<Longrightarrow> chain (\<lambda>k. page_next (tbs st (fst k)) (snd k)) (page_first st p) (PL p)"
    and dj: "\<And>p p'. p < V_PAGES \<Longrightarrow> p' < V_PAGES \<Longrightarrow> p \<noteq> p' \<Longrightarrow> set (PL p) \<inter> set (PL p') = {}"
    and bm: "\<And>p tab. p < V_PAGES \<Longrightarrow> page_bitmap (l1_map st) p = Some tab \<Longrightarrow> bitmap_exact (tbs st) tab (PL p)"
    using rel by (auto simp: page_rel_def)
  from ch [OF p(2)] PL have "page_first st p \<noteq> None" by (cases ys) auto
  then obtain d where d: "pd_get (l1_map st) (page_ptr p) = Some d" "page_first st p = first_tb d"
    by (auto simp: page_first_def split: option.splits)
  have f: "page_find (l1_map st) (unat (drop_bit 12 a)) = Some (page_ptr p)"
    unfolding p(1) [symmetric] page_find_eq [OF wf p(2)] d(1) by simp
  from ch [OF p(2)] have "chain (\<lambda>k. page_next (tbs st (fst k)) (snd k)) (first_tb d) (ys @ k # zs)"
    by (simp add: d PL)
  from tb_page_remove_chain [OF this len k] obtain hp' ts' where
    r: "tb_page_remove (list_fuel st) (first_tb d, tbs st) None t = Inr (hp', ts')"
      "chain (\<lambda>k. page_next (ts' (fst k)) (snd k)) hp' (ys @ zs)"
      "\<And>u. ts' u = (tbs st u)\<lparr>page_next := page_next (ts' u)\<rparr>"
      "\<And>u m. (u, m) \<notin> set ys \<Longrightarrow> page_next (ts' u) m = page_next (tbs st u) m" by blast
  let ?d = "invalidate_page_bitmap (d\<lparr>first_tb := hp'\<rparr>)"
  let ?st = "st\<lparr>tbs := ts', l1_map := pd_put (l1_map st) (page_ptr p) ?d\<rparr>"
  have "page_unlink st t a = Inr ?st" by (simp add: page_unlink_def f d r(1))
  moreover have "page_rel ?st (PL(p := ys @ zs))"
    unfolding page_rel_def
  proof (intro conjI allI impI)
    show "wf_map V_SPACE (l1_map ?st)" using vp.put_invar [OF wf p(2)] by simp
  next
    fix q :: nat assume q: "q < V_PAGES"
    have pf: "page_first ?st q = (if q = p then hp' else page_first st q)"
      using page_first_put [OF wf p(2) q, of ?d ts'] d(1) by (simp add: invalidate_page_bitmap_def)
    show "chain (\<lambda>k. page_next (tbs ?st (fst k)) (snd k)) (page_first ?st q) ((PL(p := ys @ zs)) q)"
    proof (cases "q = p")
      case True
      then show ?thesis using pf r(2) by simp
    next
      case False
      have "page_next (ts' (fst x)) (snd x) = page_next (tbs st (fst x)) (snd x)" if "x \<in> set (PL q)" for x
        using dj [OF q p(2) False] that PL by (intro r(4)) auto
      then have "chain (\<lambda>k. page_next (ts' (fst k)) (snd k)) r (PL q) =
          chain (\<lambda>k. page_next (tbs st (fst k)) (snd k)) r (PL q)" for r by (rule lseg_cong)
      with False pf ch [OF q] show ?thesis by simp
    qed
  next
    fix q q' :: nat assume "q < V_PAGES" "q' < V_PAGES" "q \<noteq> q'"
    then show "set ((PL(p := ys @ zs)) q) \<inter> set ((PL(p := ys @ zs)) q') = {}"
      using dj [of q q'] PL by auto
  next
    fix q :: nat and tab assume q: "q < V_PAGES" and tab: "page_bitmap (l1_map ?st) q = Some tab"
    have "page_bitmap (l1_map ?st) q = (if q = p then None else page_bitmap (l1_map st) q)"
      using page_bitmap_put [OF wf p(2) q, of ?d] d(1) by (simp add: invalidate_page_bitmap_def)
    with tab have "q \<noteq> p" "bitmap_exact (tbs st) tab (PL q)" using bm [OF q] by (auto split: if_splits)
    moreover have "pc (ts' u) = pc (tbs st u) \<and> tbsize (ts' u) = tbsize (tbs st u)" for u by (subst r(3), subst r(3)) simp
    ultimately show "bitmap_exact (tbs ?st) tab ((PL(p := ys @ zs)) q)"
      using bitmap_exact_cong [of "PL q" ts' "tbs st"] by simp
  qed
  moreover have "pd_get (pd_put (l1_map st) (page_ptr p) ?d) (page_ptr q) \<noteq> None"
    if "q < V_PAGES" "pd_get (l1_map st) (page_ptr q) \<noteq> None" for q
    using vp.put_get [OF wf p(2) that(1), of ?d] that(2) d(1) by simp
  ultimately show ?thesis using r(3) by (intro that)
qed

section \<open>Jump lists\<close>

text \<open>
  The list of a block \<open>t\<close> runs from jmp_first to the slot \<open>(t, 2)\<close> itself. Cutting every
  list at its head slot makes all of them chains over one next-pointer function.
\<close>

definition jcut :: "(nat \<Rightarrow> TranslationBlock) \<Rightarrow> nat \<times> nat \<Rightarrow> tagptr" where
  "jcut ts k = (if snd k = 2 then None else jmp_slot ts k)"

definition jmp_rel :: "(nat \<Rightarrow> TranslationBlock) \<Rightarrow> nat set \<Rightarrow> (nat \<Rightarrow> (nat \<times> nat) list) \<Rightarrow> bool" where
  "jmp_rel ts L J \<longleftrightarrow>
     (\<forall>t \<in> L. chain (jcut ts) (jmp_slot ts (t, 2)) (J t @ [(t, 2)])) \<and>
     (\<forall>t \<in> L. \<forall>k \<in> set (J t). fst k \<in> L \<and> snd k < 2) \<and>
     (\<forall>s \<in> L. \<forall>n < 2. jmp_slot ts (s, n) \<noteq> None \<longrightarrow> (\<exists>t \<in> L. (s, n) \<in> set (J t)))"

lemma jcut_lseg:
  assumes "\<forall>k \<in> set xs. snd k < 2"
  shows "chain (jcut ts) p (xs @ [(t, 2)]) \<longleftrightarrow> lseg (jmp_slot ts) p xs (Some (t, 2))"
proof -
  have "lseg (jcut ts) q xs r = lseg (jmp_slot ts) q xs r" for q r
    by (rule lseg_cong) (use assms in \<open>auto simp: jcut_def\<close>)
  then show ?thesis by (auto simp: lseg_append jcut_def)
qed

lemma jmp_rel_disjoint:
  assumes "jmp_rel ts L J" "t \<in> L" "t' \<in> L" "k \<in> set (J t)" "k \<in> set (J t')"
  shows "t = t'"
proof -
  from assms(4,5) obtain ys zs ys' zs' where J: "J t = ys @ k # zs" "J t' = ys' @ k # zs'"
    by (meson split_list)
  have "chain (jcut ts) (jcut ts k) (zs @ [(t, 2)])" "chain (jcut ts) (jcut ts k) (zs' @ [(t', 2)])"
    using assms(1-3) J by (auto simp: jmp_rel_def lseg_append)
  then have "zs @ [(t, 2)] = zs' @ [(t', 2)]" by (rule chain_unique)
  then show ?thesis by simp
qed

lemma jmp_rel_distinct:
  assumes "jmp_rel ts L J" "t \<in> L"
  shows "distinct (J t)" and "(t, 2) \<notin> set (J t)"
proof -
  have "chain (jcut ts) (jmp_slot ts (t, 2)) (J t @ [(t, 2)])" using assms by (simp add: jmp_rel_def)
  from chain_distinct [OF this] show "distinct (J t)" "(t, 2) \<notin> set (J t)" by auto
qed

lemma jmp_rel_len:
  assumes "jmp_rel ts L J" "t \<in> L" "\<forall>u \<in> L. u < nb"
  shows "length (J t) \<le> 2 * nb"
proof -
  have "length (J t) \<le> nb * 2"
    using jmp_rel_distinct(1) [OF assms(1,2)] assms by (intro distinct_pairs_length) (auto simp: jmp_rel_def)
  then show ?thesis by simp
qed

text \<open>Changing slots: a list whose elements and head keep their slots is unchanged.\<close>

lemma jcut_chain_cong:
  assumes "\<And>k. k \<in> set xs \<Longrightarrow> snd k < 2 \<and> jmp_slot ts' k = jmp_slot ts k"
  shows "chain (jcut ts') p (xs @ [(t, 2)]) = chain (jcut ts) p (xs @ [(t, 2)])"
  by (rule lseg_cong) (use assms in \<open>auto simp: jcut_def\<close>)

lemma jmp_unlink_rel:
  assumes rel: "jmp_rel ts L J" and g: "g \<in> L" and J: "J g = ys @ k # zs" and n: "length (J g) < f"
  obtains ts' where "jmp_unlink f ts k k = Inr ts'"
    and "ts' = set_jmp_slot ts (if ys = [] then (g, 2) else last ys) (jmp_slot ts k)"
    and "chain (jcut ts') (jmp_slot ts' (g, 2)) (ys @ zs @ [(g, 2)])"
proof -
  have el: "snd x < 2" if "x \<in> set (J g)" for x using rel g that by (auto simp: jmp_rel_def)
  have d: "distinct (ys @ k # zs)" "(g, 2) \<notin> set (ys @ k # zs)"
    using jmp_rel_distinct [OF rel g] J by simp_all
  have "chain (jcut ts) (jmp_slot ts (g, 2)) (J g @ [(g, 2)])" using rel g by (simp add: jmp_rel_def)
  then have l: "lseg (jmp_slot ts) (jmp_slot ts (g, 2)) (ys @ k # zs) (Some (g, 2))"
    using el J by (subst (asm) jcut_lseg) auto
  then have "lseg (jmp_slot ts) (jmp_slot ts k) zs (Some (g, 2))"
    "lseg (jmp_slot ts) (jmp_slot ts (g, 2)) ys (Some k)"
    by (auto simp: lseg_append)
  then have "lseg (jmp_slot ts) (jmp_slot ts k) ((zs @ (g, 2) # ys) @ [k]) (jmp_slot ts k)"
    by (auto simp: lseg_append)
  then have r: "jmp_unlink f ts k k =
      Inr (set_jmp_slot ts (if zs @ (g, 2) # ys = [] then k else last (zs @ (g, 2) # ys)) (jmp_slot ts k))"
    by (rule jl.rm_finds) (use d n J in auto)
  let ?c = "if ys = [] then (g, 2) else last ys"
  let ?ts = "set_jmp_slot ts ?c (jmp_slot ts k)"
  from r have "jmp_unlink f ts k k = Inr ?ts" by (simp split: if_splits)
  moreover have "chain (jcut ?ts) (jmp_slot ?ts (g, 2)) (ys @ zs @ [(g, 2)])"
  proof -
    from lseg_unlink [OF l d(1)]
    have "lseg (if ys = [] then jmp_slot ts else (jmp_slot ts)(last ys := jmp_slot ts k))
        (if ys = [] then jmp_slot ts k else jmp_slot ts (g, 2)) (ys @ zs) (Some (g, 2))" .
    moreover have "jmp_slot ?ts (g, 2) = (if ys = [] then jmp_slot ts k else jmp_slot ts (g, 2))"
      using d(2) last_in_set [of ys] by (auto simp: jl.get_put)
    moreover have "lseg (jmp_slot ?ts) p (ys @ zs) q = lseg (if ys = [] then jmp_slot ts
        else (jmp_slot ts)(last ys := jmp_slot ts k)) p (ys @ zs) q" for p q
      by (rule lseg_cong) (use d(2) in \<open>auto simp: jl.get_put\<close>)
    ultimately have "lseg (jmp_slot ?ts) (jmp_slot ?ts (g, 2)) (ys @ zs) (Some (g, 2))" by simp
    then show ?thesis using jcut_lseg [of "ys @ zs" ?ts _ g] el J by auto
  qed
  ultimately show ?thesis by (rule that [OF _ refl])
qed

lemma set_jmp_slot_other:
  "set_jmp_slot ts c v u = (ts u)\<lparr>jmp_next := jmp_next (set_jmp_slot ts c v u),
     jmp_first := jmp_first (set_jmp_slot ts c v u)\<rparr>"
  by (simp add: set_jmp_slot_def)

lemma set_jmp_slot_far: "fst c \<noteq> u \<Longrightarrow> set_jmp_slot ts c v u = ts u"
  by (simp add: set_jmp_slot_def)

text \<open>tb_jmp_remove takes the jump \<open>(t, n)\<close> out of whatever list it is in.\<close>

lemma tb_jmp_remove_rel:
  assumes rel: "jmp_rel (tbs st) L J" and t: "t \<in> L" "n < 2" and nb: "\<forall>u \<in> L. u < nb_tbs st"
  obtains ts where "tb_jmp_remove st t n = Inr (st\<lparr>tbs := ts\<rparr>)"
    and "jmp_rel ts L (\<lambda>s. filter (\<lambda>k. k \<noteq> (t, n)) (J s))"
    and "\<And>u. ts u = (tbs st u)\<lparr>jmp_next := jmp_next (ts u), jmp_first := jmp_first (ts u)\<rparr>"
    and "\<And>u. u \<notin> L \<Longrightarrow> ts u = tbs st u"
proof (cases "jmp_next (tbs st t) n")
  case None
  have "(t, n) \<notin> set (J s)" if "s \<in> L" for s
  proof
    assume "(t, n) \<in> set (J s)"
    then obtain ys zs where "J s = ys @ (t, n) # zs" by (meson split_list)
    moreover have "chain (jcut (tbs st)) (jmp_slot (tbs st) (s, 2)) (J s @ [(s, 2)])"
      using rel that by (simp add: jmp_rel_def)
    ultimately have "chain (jcut (tbs st)) (jcut (tbs st) (t, n)) (zs @ [(s, 2)])"
      by (auto simp: lseg_append)
    moreover have "jcut (tbs st) (t, n) = None" using None t(2) by (simp add: jcut_def jmp_slot_def)
    ultimately show False by (cases zs) auto
  qed
  then have "filter (\<lambda>k. k \<noteq> (t, n)) (J s) = J s" if "s \<in> L" for s
    using that by (auto simp: filter_id_conv)
  then have "jmp_rel (tbs st) L (\<lambda>s. filter (\<lambda>k. k \<noteq> (t, n)) (J s))"
    using rel by (simp add: jmp_rel_def)
  with None show ?thesis by (intro that [of "tbs st"]) (simp_all add: tb_jmp_remove_def)
next
  case (Some v)
  then have "jmp_slot (tbs st) (t, n) \<noteq> None" using t(2) by (simp add: jmp_slot_def)
  then obtain g where g: "g \<in> L" "(t, n) \<in> set (J g)"
    using rel t unfolding jmp_rel_def by blast
  then obtain ys zs where J: "J g = ys @ (t, n) # zs" by (meson split_list)
  have "length (J g) < list_fuel st" using jmp_rel_len [OF rel g(1) nb] by (simp add: list_fuel_def)
  from jmp_unlink_rel [OF rel g(1) J this] obtain ts' where
    u: "jmp_unlink (list_fuel st) (tbs st) (t, n) (t, n) = Inr ts'"
    "ts' = set_jmp_slot (tbs st) (if ys = [] then (g, 2) else last ys) (jmp_slot (tbs st) (t, n))"
    "chain (jcut ts') (jmp_slot ts' (g, 2)) (ys @ zs @ [(g, 2)])" by blast
  let ?ts = "set_jmp_slot ts' (t, n) None"
  let ?c = "if ys = [] then (g, 2) else last ys"
  have el: "fst x \<in> L \<and> snd x < 2" if "s \<in> L" "x \<in> set (J s)" for s x using rel that by (auto simp: jmp_rel_def)
  have d: "distinct (ys @ (t, n) # zs)" using jmp_rel_distinct(1) [OF rel g(1)] J by simp
  have slot: "jmp_slot ?ts k = (if k = (t, n) then None else if k = ?c then jmp_slot (tbs st) (t, n)
      else jmp_slot (tbs st) k)" for k
    by (simp only: u(2) jl.get_put)
  have filt: "filter (\<lambda>k. k \<noteq> (t, n)) (J s) = (if s = g then ys @ zs else J s)" if "s \<in> L" for s
  proof (cases "s = g")
    case True
    moreover have "filter (\<lambda>k. k \<noteq> (t, n)) ys = ys" "filter (\<lambda>k. k \<noteq> (t, n)) zs = zs"
      using d by (auto simp: filter_id_conv)
    ultimately show ?thesis using J by simp
  next
    case False
    then have "(t, n) \<notin> set (J s)" using jmp_rel_disjoint [OF rel g(1) that g(2)] by blast
    then have "filter (\<lambda>k. k \<noteq> (t, n)) (J s) = J s" by (auto simp: filter_id_conv)
    with False show ?thesis by simp
  qed
  have "jmp_rel ?ts L (\<lambda>s. filter (\<lambda>k. k \<noteq> (t, n)) (J s))"
    unfolding jmp_rel_def
  proof (intro conjI ballI allI impI)
    fix s assume s: "s \<in> L"
    show "chain (jcut ?ts) (jmp_slot ?ts (s, 2)) (filter (\<lambda>k. k \<noteq> (t, n)) (J s) @ [(s, 2)])"
    proof (cases "s = g")
      case True
      have "chain (jcut ?ts) p ((ys @ zs) @ [(g, 2)]) = chain (jcut ts') p ((ys @ zs) @ [(g, 2)])" for p
        by (rule jcut_chain_cong) (use el [OF g(1)] J d in \<open>auto simp: jl.get_put\<close>)
      with u(3) True filt [OF s] t(2) show ?thesis by (simp add: jl.get_put)
    next
      case False
      have "x \<noteq> (t, n) \<and> x \<noteq> ?c" if "x \<in> set (J s)" for x
        using jmp_rel_disjoint [OF rel g(1) s _ that] False J el [OF s that] last_in_set [of ys] by auto
      then have "chain (jcut ?ts) p (J s @ [(s, 2)]) = chain (jcut (tbs st)) p (J s @ [(s, 2)])" for p
        by (intro jcut_chain_cong) (use el [OF s] in \<open>auto simp: slot\<close>)
      moreover have "snd (last ys) < 2" if "ys \<noteq> []" using el [OF g(1), of "last ys"] J that by simp
      then have "(s, 2) \<noteq> ?c" using False by (cases "ys = []") (auto simp: prod_eq_iff)
      moreover have "chain (jcut (tbs st)) (jmp_slot (tbs st) (s, 2)) (J s @ [(s, 2)])"
        using rel s by (simp add: jmp_rel_def)
      ultimately show ?thesis using False filt [OF s] t(2) slot [of "(s, 2)"] by simp
    qed
    show "fst k \<in> L" "snd k < 2" if "k \<in> set (filter (\<lambda>k. k \<noteq> (t, n)) (J s))" for k
      using el [OF s] that by auto
    fix m assume m: "m < (2 :: nat)" "jmp_slot ?ts (s, m) \<noteq> None"
    then have ne: "(s, m) \<noteq> (t, n)" by (auto simp: slot)
    have "\<exists>r \<in> L. (s, m) \<in> set (J r)"
    proof (cases "(s, m) = ?c")
      case True
      with m(1) have "ys \<noteq> []" by auto
      with True J g(1) show ?thesis by (auto intro!: bexI [of _ g])
    next
      case False
      then have "jmp_slot (tbs st) (s, m) \<noteq> None" using m(2) ne by (auto simp: slot)
      then show ?thesis using rel s m(1) unfolding jmp_rel_def by blast
    qed
    then show "\<exists>r \<in> L. (s, m) \<in> set (filter (\<lambda>k. k \<noteq> (t, n)) (J r))" using ne by auto
  qed
  moreover have "?ts u = (tbs st u)\<lparr>jmp_next := jmp_next (?ts u), jmp_first := jmp_first (?ts u)\<rparr>" for u
    unfolding u(2) by (simp add: set_jmp_slot_def)
  moreover have "?ts u = tbs st u" if "u \<notin> L" for u
  proof -
    have "fst ?c \<in> L" using el [OF g(1), of "last ys"] g(1) J by (cases "ys = []") auto
    with that t(1) have "fst ?c \<noteq> u" "fst (t, n) \<noteq> u" by auto
    then show ?thesis unfolding u(2) by (metis set_jmp_slot_far)
  qed
  ultimately show ?thesis using Some u(1) by (intro that [of ?ts]) (simp_all add: tb_jmp_remove_def)
qed

section \<open>Cutting the incoming jumps\<close>

definition jaddr :: "(nat \<Rightarrow> TranslationBlock) \<Rightarrow> nat \<times> nat \<Rightarrow> u64" where
  "jaddr ts k = tc_ptr (ts (fst k)) + ucast (tb_jmp_offset (ts (fst k)) (snd k))"

definition jexit :: "(nat \<Rightarrow> TranslationBlock) \<Rightarrow> nat \<times> nat \<Rightarrow> u64" where
  "jexit ts k = tc_ptr (ts (fst k)) + ucast (tb_next_offset (ts (fst k)) (snd k))"

definition reset_code :: "(nat \<Rightarrow> TranslationBlock) \<Rightarrow> (nat \<times> nat) list \<Rightarrow> code_mem \<Rightarrow> code_mem" where
  "reset_code ts ks c = fold (\<lambda>k c. tb_set_jmp_target1 c (jaddr ts k) (jexit ts k)) ks c"

definition clear_jumps :: "(nat \<times> nat) set \<Rightarrow> (nat \<Rightarrow> TranslationBlock) \<Rightarrow> nat \<Rightarrow> TranslationBlock" where
  "clear_jumps K ts = (\<lambda>u. (ts u)\<lparr>jmp_next := (\<lambda>m. if (u, m) \<in> K then None else jmp_next (ts u) m)\<rparr>)"

lemma jaddr_cong:
  assumes "\<And>u. tb_core (ts' u) = tb_core (ts u)"
  shows "jaddr ts' = jaddr ts"
proof
  fix k
  show "jaddr ts' k = jaddr ts k"
    unfolding jaddr_def tb_core_eqD(3,7) [OF assms [of "fst k"]] ..
qed

lemma jexit_cong:
  assumes "\<And>u. tb_core (ts' u) = tb_core (ts u)"
  shows "jexit ts' = jexit ts"
proof
  fix k
  show "jexit ts' k = jexit ts k"
    unfolding jexit_def tb_core_eqD(3,8) [OF assms [of "fst k"]] ..
qed

lemma reset_code_cong:
  assumes "\<And>u. tb_core (ts' u) = tb_core (ts u)"
  shows "reset_code ts' = reset_code ts"
  unfolding reset_code_def [abs_def] jaddr_cong [OF assms] jexit_cong [OF assms] ..

lemma jmp_slot_clear: "jmp_slot (clear_jumps K ts) k = (if k \<in> K \<and> snd k \<noteq> 2 then None else jmp_slot ts k)"
  by (cases k) (simp add: jmp_slot_def clear_jumps_def)

lemma jmp_slot_next: "m < 2 \<Longrightarrow> jmp_slot ts (s, m) = jmp_next (ts s) m"
  by (simp add: jmp_slot_def)

lemma reset_incoming_run:
  assumes "lseg (jmp_slot (tbs st)) p xs (Some (t, 2))" and "\<forall>k \<in> set xs. snd k < 2"
    and "distinct xs" and "length xs < n"
  shows "reset_incoming n st p =
     Inr (st\<lparr>tbs := clear_jumps (set xs) (tbs st), code := reset_code (tbs st) xs (code st)\<rparr>)"
  using assms
proof (induction xs arbitrary: st p n)
  case Nil
  then obtain n' where "n = Suc n'" by (cases n) auto
  with Nil show ?case by (simp add: clear_jumps_def reset_code_def)
next
  case (Cons x xs)
  obtain s m where x: "x = (s, m)" by (cases x)
  obtain n' where n: "n = Suc n'" using Cons.prems(4) by (cases n) auto
  let ?st = "upd_tb s (\<lambda>b. b\<lparr>jmp_next := (jmp_next b)(m := None)\<rparr>) (tb_reset_jump st s m)"
  have m: "m < 2" using Cons.prems(2) x by simp
  have ts: "tbs ?st = clear_jumps {(s, m)} (tbs st)"
    by (auto simp: upd_tb_def tb_reset_jump_def tb_set_jmp_target_def clear_jumps_def fun_eq_iff)
  have "lseg (jmp_slot (tbs ?st)) (jmp_next (tbs st s) m) xs (Some (t, 2)) =
      lseg (jmp_slot (tbs st)) (jmp_next (tbs st s) m) xs (Some (t, 2))"
    by (rule lseg_cong) (use Cons.prems(3) x in \<open>auto simp: ts jmp_slot_clear\<close>)
  moreover have "lseg (jmp_slot (tbs st)) (jmp_next (tbs st s) m) xs (Some (t, 2))"
    using Cons.prems(1) m jmp_slot_next [of m "tbs st" s] by (simp add: x)
  ultimately have "reset_incoming n' ?st (jmp_next (tbs st s) m) =
      Inr (?st\<lparr>tbs := clear_jumps (set xs) (tbs ?st), code := reset_code (tbs ?st) xs (code ?st)\<rparr>)"
    by (intro Cons.IH) (use Cons.prems n in auto)
  moreover have "clear_jumps (set xs) (tbs ?st) = clear_jumps (set (x # xs)) (tbs st)"
    by (auto simp: ts x clear_jumps_def fun_eq_iff)
  moreover have "reset_code (tbs ?st) xs (code ?st) = reset_code (tbs st) (x # xs) (code st)"
  proof -
    have "tb_core (tbs ?st u) = tb_core (tbs st u)" for u by (simp add: ts clear_jumps_def)
    then have "reset_code (tbs ?st) = reset_code (tbs st)" by (rule reset_code_cong)
    then show ?thesis
      by (simp add: reset_code_def upd_tb_def tb_reset_jump_def tb_set_jmp_target_def x jaddr_def jexit_def)
  qed
  moreover have "?st\<lparr>tbs := a, code := b\<rparr> = st\<lparr>tbs := a, code := b\<rparr>" for a b
    by (simp add: upd_tb_def tb_reset_jump_def tb_set_jmp_target_def)
  ultimately show ?case using m Cons.prems(1) by (simp add: n x Let_def)
qed

text \<open>The state of the jump lists after a block has left all of them: its own list is empty.\<close>

lemma jmp_rel_isolate:
  assumes rel: "jmp_rel ts L J" and t: "t \<in> L" and no: "\<forall>s \<in> L. \<forall>k \<in> set (J s). fst k \<noteq> t"
  shows "jmp_rel ((clear_jumps (set (J t)) ts)(t := (clear_jumps (set (J t)) ts t)\<lparr>jmp_first := Some (t, 2)\<rparr>))
           L (J(t := []))"
proof -
  let ?ts = "(clear_jumps (set (J t)) ts)(t := (clear_jumps (set (J t)) ts t)\<lparr>jmp_first := Some (t, 2)\<rparr>)"
  have slot: "jmp_slot ?ts k = (if k \<in> set (J t) \<and> snd k \<noteq> 2 then None
      else if k = (t, 2) then Some (t, 2) else jmp_slot ts k)" for k
    by (cases k) (auto simp: jmp_slot_def clear_jumps_def)
  show ?thesis
    unfolding jmp_rel_def
  proof (intro conjI ballI allI impI)
    fix s assume s: "s \<in> L"
    have el: "fst k \<in> L" "snd k < 2" "fst k \<noteq> t" "s \<noteq> t \<Longrightarrow> k \<notin> set (J t)" if "k \<in> set (J s)" for k
      using rel s no that jmp_rel_disjoint [OF rel t _ _ that] by (auto simp: jmp_rel_def)
    show "chain (jcut ?ts) (jmp_slot ?ts (s, 2)) ((J(t := [])) s @ [(s, 2)])"
    proof (cases "s = t")
      case True
      have "(t, 2) \<notin> set (J t)" using no t by force
      with True show ?thesis by (simp add: slot jcut_def)
    next
      case False
      have "chain (jcut ?ts) p (J s @ [(s, 2)]) = chain (jcut ts) p (J s @ [(s, 2)])" for p
      proof (rule jcut_chain_cong)
        fix k assume "k \<in> set (J s)"
        from el [OF this] False show "snd k < 2 \<and> jmp_slot ?ts k = jmp_slot ts k"
          unfolding slot by (cases k) auto
      qed
      moreover have "jmp_slot ?ts (s, 2) = jmp_slot ts (s, 2)" using False by (simp add: slot)
      ultimately show ?thesis using rel s False by (simp add: jmp_rel_def)
    qed
    show "fst k \<in> L" "snd k < 2" if "k \<in> set ((J(t := [])) s)" for k using el that by (auto split: if_splits)
    fix n assume n: "n < (2 :: nat)" "jmp_slot ?ts (s, n) \<noteq> None"
    then have sn: "(s, n) \<notin> set (J t)" "jmp_slot ts (s, n) \<noteq> None" by (auto simp: slot split: if_splits)
    then obtain r where r: "r \<in> L" "(s, n) \<in> set (J r)" using rel s n(1) unfolding jmp_rel_def by blast
    with sn(1) have "r \<noteq> t" by blast
    with r show "\<exists>r \<in> L. (s, n) \<in> set ((J(t := [])) r)" by (intro bexI [of _ r]) auto
  qed
qed

text \<open>A slot that is in no list is free, and a free slot stays free when lists lose elements.\<close>

lemma jmp_rel_free:
  assumes rel: "jmp_rel ts L J" and u: "u \<in> L" and free: "jmp_slot ts (s, n) = None" "n < 2"
  shows "(s, n) \<notin> set (J u)"
proof
  assume "(s, n) \<in> set (J u)"
  then obtain ys zs where J: "J u = ys @ (s, n) # zs" by (meson split_list)
  have "chain (jcut ts) (jcut ts (s, n)) (zs @ [(u, 2)])" using rel u J by (auto simp: jmp_rel_def lseg_append)
  then show False using free by (cases zs) (auto simp: jcut_def)
qed

lemma jmp_rel_stay_free:
  assumes rel: "jmp_rel ts L J" "jmp_rel ts' L J'" and sub: "\<And>u. u \<in> L \<Longrightarrow> set (J' u) \<subseteq> set (J u)"
    and s: "s \<in> L" "n < 2" and free: "jmp_slot ts (s, n) = None"
  shows "jmp_slot ts' (s, n) = None"
proof (rule ccontr)
  assume "jmp_slot ts' (s, n) \<noteq> None"
  then obtain r where r: "r \<in> L" "(s, n) \<in> set (J' r)" using rel(2) s unfolding jmp_rel_def by blast
  with sub [OF r(1)] jmp_rel_free [OF rel(1) r(1) free s(2)] show False by blast
qed

section \<open>The cache as lists\<close>

record TBLists =
  ahash :: "nat \<Rightarrow> nat list"
  apage :: "nat \<Rightarrow> (nat \<times> nat) list"
  ajmp :: "nat \<Rightarrow> (nat \<times> nat) list"
  adead :: "nat set"

text \<open>
  The blocks in the hash lists are live. \<open>adead\<close> are blocks that were invalidated since the last
  flush: their host code may still be running and be chained when it ends, so that their jumps
  can be in the jump lists of live blocks.
\<close>

definition live :: "TBLists \<Rightarrow> nat set" where
  "live A = (\<Union>h. set (ahash A h))"

definition known :: "TBLists \<Rightarrow> nat set" where
  "known A = live A \<union> adead A"

definition has_page :: "TranslationBlock \<Rightarrow> nat \<Rightarrow> bool" where
  "has_page b n \<longleftrightarrow> n = 0 \<or> n = 1 \<and> page_addr b 1 \<noteq> NO_PAGE"

definition tb_page :: "TranslationBlock \<Rightarrow> nat \<Rightarrow> nat" where
  "tb_page b n = unat (drop_bit TARGET_PAGE_BITS (page_addr b n))"

definition hash_rel :: "TBContext \<Rightarrow> (nat \<Rightarrow> nat list) \<Rightarrow> bool" where
  "hash_rel st HL \<longleftrightarrow>
     (\<forall>h. chain (\<lambda>t. phys_hash_next (tbs st t)) (tb_phys_hash st h) (HL h)) \<and>
     (\<forall>h. \<forall>t \<in> set (HL h). t < nb_tbs st \<and> tb_hash_index (tbs st t) = h)"

definition pages_ok :: "(nat \<Rightarrow> TranslationBlock) \<Rightarrow> nat set \<Rightarrow> (nat \<Rightarrow> (nat \<times> nat) list) \<Rightarrow> bool" where
  "pages_ok ts L PL \<longleftrightarrow>
     (\<forall>p < V_PAGES. \<forall>t n. (t, n) \<in> set (PL p) \<longleftrightarrow> t \<in> L \<and> has_page (ts t) n \<and> tb_page (ts t) n = p) \<and>
     (\<forall>t \<in> L. \<forall>n. has_page (ts t) n \<longrightarrow> tb_page (ts t) n < V_PAGES)"

definition caches_ok :: "TBContext \<Rightarrow> nat set \<Rightarrow> bool" where
  "caches_ok st L \<longleftrightarrow> (\<forall>env \<in> set (cpus st). \<forall>i t. tb_jmp_cache env i = Some t \<longrightarrow>
     t \<in> L \<and> i = tb_jmp_cache_hash_func (pc (tbs st t)))"

definition dead_ok :: "TBContext \<Rightarrow> TBLists \<Rightarrow> bool" where
  "dead_ok st A \<longleftrightarrow> (\<forall>t \<in> adead A. t < nb_tbs st \<and> t \<notin> live A \<and> ajmp A t = [])"

definition tb_rel :: "TBContext \<Rightarrow> TBLists \<Rightarrow> bool" where
  "tb_rel st A \<longleftrightarrow> hash_rel st (ahash A) \<and> page_rel st (apage A) \<and> pages_ok (tbs st) (live A) (apage A) \<and>
     jmp_rel (tbs st) (known A) (ajmp A) \<and> dead_ok st A \<and> caches_ok st (live A)"

definition abs_invalidate :: "nat \<Rightarrow> TBLists \<Rightarrow> TBLists" where
  "abs_invalidate t A =
     \<lparr>ahash = (\<lambda>h. filter (\<lambda>u. u \<noteq> t) (ahash A h)),
      apage = (\<lambda>p. filter (\<lambda>k. fst k \<noteq> t) (apage A p)),
      ajmp = (\<lambda>s. filter (\<lambda>k. fst k \<noteq> t) (ajmp A s))(t := []),
      adead = insert t (adead A)\<rparr>"

lemma live_abs_invalidate: "live (abs_invalidate t A) = live A - {t}"
  by (auto simp: live_def abs_invalidate_def)

lemma known_abs_invalidate: "known (abs_invalidate t A) = insert t (known A)"
proof -
  have "adead (abs_invalidate t A) = insert t (adead A)" by (simp add: abs_invalidate_def)
  then show ?thesis unfolding known_def live_abs_invalidate by blast
qed

lemma known_less: "tb_rel st A \<Longrightarrow> t \<in> known A \<Longrightarrow> t < nb_tbs st"
  by (auto simp: tb_rel_def hash_rel_def dead_ok_def known_def live_def)

lemma live_known: "t \<in> live A \<Longrightarrow> t \<in> known A"
  by (simp add: known_def)

lemma hash_rel_live:
  assumes "hash_rel st HL" "t \<in> set (HL h)"
  shows "t < nb_tbs st" "h = tb_hash_index (tbs st t)"
  using assms by (auto simp: hash_rel_def)

lemma page_rel_cong:
  assumes "\<And>p. p < V_PAGES \<Longrightarrow> PL' p = PL p"
    and "\<And>u. page_next (tbs st' u) = page_next (tbs st u)" and "l1_map st' = l1_map st"
    and "\<And>u. pc (tbs st' u) = pc (tbs st u)" "\<And>u. tbsize (tbs st' u) = tbsize (tbs st u)"
  shows "page_rel st' PL' = page_rel st PL"
proof -
  have "bitmap_exact (tbs st') tab ks = bitmap_exact (tbs st) tab ks" for tab ks
    by (rule bitmap_exact_cong) (simp add: assms(4,5))
  with assms(1-3) show ?thesis by (simp add: page_rel_def page_first_def cong: imp_cong)
qed

lemma jmp_rel_cong:
  assumes "\<And>u. jmp_next (ts' u) = jmp_next (ts u) \<and> jmp_first (ts' u) = jmp_first (ts u)"
    and "\<And>s. s \<in> L \<Longrightarrow> J' s = J s"
  shows "jmp_rel ts' L J' = jmp_rel ts L J"
proof -
  have s: "jmp_slot ts' = jmp_slot ts" using assms(1) by (auto simp: jmp_slot_def fun_eq_iff)
  then have "jcut ts' = jcut ts" by (auto simp: jcut_def fun_eq_iff)
  with s show ?thesis using assms(2) by (simp add: jmp_rel_def cong: ball_cong)
qed

lemma filter_neq_id [simp]: "x \<notin> set xs \<Longrightarrow> filter (\<lambda>u. u \<noteq> x) xs = xs"
  by (auto simp: filter_id_conv)

text \<open>Leaving the hash list.\<close>

lemma tb_remove_rel:
  assumes rel: "hash_rel st HL" and t: "t \<in> set (HL h)"
  obtains hp ts where "tb_remove (list_fuel st) (tb_phys_hash st h, tbs st) None t = Inr (hp, ts)"
    and "hash_rel (st\<lparr>tb_phys_hash := (tb_phys_hash st)(h := hp), tbs := ts\<rparr>) (\<lambda>h. filter (\<lambda>u. u \<noteq> t) (HL h))"
    and "\<And>u. ts u = (tbs st u)\<lparr>phys_hash_next := phys_hash_next (ts u)\<rparr>"
proof -
  have ch: "chain (\<lambda>t. phys_hash_next (tbs st t)) (tb_phys_hash st h) (HL h)" for h
    using rel by (simp add: hash_rel_def)
  have idx: "u \<in> set (HL h) \<Longrightarrow> u < nb_tbs st \<and> tb_hash_index (tbs st u) = h" for h u
    using rel by (simp add: hash_rel_def)
  from t obtain ys zs where HL: "HL h = ys @ t # zs" by (meson split_list)
  have d: "distinct (HL h)" using ch by (rule chain_distinct)
  then have "length (HL h) \<le> nb_tbs st" by (rule distinct_nats_length) (use idx in blast)
  then have "length ys < list_fuel st" by (simp add: HL list_fuel_def)
  from tb_remove_chain [OF ch [of h, unfolded HL] this] obtain hp ts where
    r: "tb_remove (list_fuel st) (tb_phys_hash st h, tbs st) None t = Inr (hp, ts)"
      "chain (\<lambda>t. phys_hash_next (ts t)) hp (ys @ zs)"
      "\<And>u. ts u = (tbs st u)\<lparr>phys_hash_next := phys_hash_next (ts u)\<rparr>"
      "\<And>u. u \<notin> set ys \<Longrightarrow> ts u = tbs st u" by metis
  have core: "tb_core (ts u) = tb_core (tbs st u)" for u by (subst r(3)) simp
  have "hash_rel (st\<lparr>tb_phys_hash := (tb_phys_hash st)(h := hp), tbs := ts\<rparr>) (\<lambda>h. filter (\<lambda>u. u \<noteq> t) (HL h))"
    unfolding hash_rel_def
  proof (intro conjI allI ballI)
    fix g
    show "chain (\<lambda>t. phys_hash_next (tbs (st\<lparr>tb_phys_hash := (tb_phys_hash st)(h := hp), tbs := ts\<rparr>) t))
        (tb_phys_hash (st\<lparr>tb_phys_hash := (tb_phys_hash st)(h := hp), tbs := ts\<rparr>) g)
        (filter (\<lambda>u. u \<noteq> t) (HL g))"
    proof (cases "g = h")
      case True
      have "filter (\<lambda>u. u \<noteq> t) (HL h) = ys @ zs" using d HL by simp
      with True r(2) show ?thesis by simp
    next
      case False
      then have "t \<notin> set (HL g)" using idx t by blast
      then have f: "filter (\<lambda>u. u \<noteq> t) (HL g) = HL g" by simp
      have "chain (\<lambda>t. phys_hash_next (ts t)) p (HL g) = chain (\<lambda>t. phys_hash_next (tbs st t)) p (HL g)" for p
      proof (rule lseg_cong)
        fix x assume "x \<in> set (HL g)"
        then have "x \<notin> set ys" using False idx [of x g] idx [of x h] HL by auto
        then show "phys_hash_next (ts x) = phys_hash_next (tbs st x)" by (simp add: r(4))
      qed
      with False f ch [of g] show ?thesis by simp
    qed
    fix u assume "u \<in> set (filter (\<lambda>u. u \<noteq> t) (HL g))"
    then show "u < nb_tbs (st\<lparr>tb_phys_hash := (tb_phys_hash st)(h := hp), tbs := ts\<rparr>)"
      "tb_hash_index (tbs (st\<lparr>tb_phys_hash := (tb_phys_hash st)(h := hp), tbs := ts\<rparr>) u) = g"
      using idx [of u g] tb_core_eqD(9) [OF core] by auto
  qed
  with r(1,3) that show ?thesis by blast
qed

text \<open>Leaving the page lists.\<close>

lemma page_unlink_hit:
  assumes rel: "page_rel st PL" and p: "p = unat (drop_bit 12 a)" "p < V_PAGES"
    and k: "k0 \<in> set (PL p)" "fst k0 = t"
    and len: "length (PL p) \<le> 2 * nb_tbs st"
  obtains ts m xs k where "page_unlink st t a = Inr (st\<lparr>tbs := ts, l1_map := m\<rparr>)"
    and "page_rel (st\<lparr>tbs := ts, l1_map := m\<rparr>) (PL(p := xs))"
    and "\<And>u. ts u = (tbs st u)\<lparr>page_next := page_next (ts u)\<rparr>"
    and "filter (\<lambda>k. fst k \<noteq> t) xs = filter (\<lambda>k. fst k \<noteq> t) (PL p)"
    and "set xs = set (PL p) - {k}" "k \<in> set (PL p)" "fst k = t" "length xs \<le> length (PL p)"
    and "\<And>q. q < V_PAGES \<Longrightarrow> pd_get (l1_map st) (page_ptr q) \<noteq> None \<Longrightarrow> pd_get m (page_ptr q) \<noteq> None"
proof -
  have "\<exists>k \<in> set (PL p). fst k = t" using k by blast
  from split_list_first_prop [OF this] obtain ys k zs where
    s: "PL p = ys @ k # zs" "fst k = t" "\<forall>y \<in> set ys. fst y \<noteq> t" by blast
  have lt: "length ys < list_fuel st" using len s(1) by (simp add: list_fuel_def)
  obtain ts m where
    r: "page_unlink st t a = Inr (st\<lparr>tbs := ts, l1_map := m\<rparr>)"
      "page_rel (st\<lparr>tbs := ts, l1_map := m\<rparr>) (PL(p := ys @ zs))"
      "\<And>u. ts u = (tbs st u)\<lparr>page_next := page_next (ts u)\<rparr>"
      "\<And>q. q < V_PAGES \<Longrightarrow> pd_get (l1_map st) (page_ptr q) \<noteq> None \<Longrightarrow> pd_get m (page_ptr q) \<noteq> None"
    by (rule page_unlink_rel [OF rel p s lt]) (rule that)
  have "chain (\<lambda>k. page_next (tbs st (fst k)) (snd k)) (page_first st p) (PL p)"
    using rel p(2) by (simp add: page_rel_def)
  then have "distinct (PL p)" by (rule chain_distinct)
  then have fs: "set (ys @ zs) = set (PL p) - {k}" using s(1) by auto
  have ff: "filter (\<lambda>k. fst k \<noteq> t) (ys @ zs) = filter (\<lambda>k. fst k \<noteq> t) (PL p)" using s by simp
  have km: "k \<in> set (PL p)" "length (ys @ zs) \<le> length (PL p)" using s(1) by simp_all
  show ?thesis
    by (rule that [OF r(1,2)])
      (rule r(3), rule ff, rule fs, rule km(1), rule s(2), rule km(2), rule r(4), assumption+)
qed

definition unlink_pages :: "TBContext \<Rightarrow> nat \<Rightarrow> TBContext result" where
  "unlink_pages st t =
     andthen (page_unlink st t (page_addr (tbs st t) 0)) (\<lambda>st.
       if page_addr (tbs st t) 1 \<noteq> - 1 then page_unlink st t (page_addr (tbs st t) 1) else Inr st)"

lemma unlink_pages_rel:
  assumes rel: "page_rel st PL" and ok: "pages_ok (tbs st) L PL" and t: "t \<in> L"
    and len: "\<And>p. p < V_PAGES \<Longrightarrow> length (PL p) \<le> 2 * nb_tbs st"
  obtains ts m where "unlink_pages st t = Inr (st\<lparr>tbs := ts, l1_map := m\<rparr>)"
    and "page_rel (st\<lparr>tbs := ts, l1_map := m\<rparr>) (\<lambda>p. filter (\<lambda>k. fst k \<noteq> t) (PL p))"
    and "\<And>u. ts u = (tbs st u)\<lparr>page_next := page_next (ts u)\<rparr>"
    and "\<And>q. q < V_PAGES \<Longrightarrow> pd_get (l1_map st) (page_ptr q) \<noteq> None \<Longrightarrow> pd_get m (page_ptr q) \<noteq> None"
proof -
  let ?b = "tbs st t"
  define p0 where "p0 = tb_page ?b 0"
  define p1 where "p1 = tb_page ?b 1"
  have hits: "(u, n) \<in> set (PL p) \<longleftrightarrow> u \<in> L \<and> has_page (tbs st u) n \<and> tb_page (tbs st u) n = p"
    if "p < V_PAGES" for u n p using ok that by (simp add: pages_ok_def)
  have V: "has_page ?b n \<Longrightarrow> tb_page ?b n < V_PAGES" for n using ok t by (simp add: pages_ok_def)
  have p0: "p0 < V_PAGES" "(t, 0) \<in> set (PL p0)"
    using V [of 0] hits [of p0 t 0] t by (simp_all add: has_page_def p0_def)
  obtain ts0 m0 xs0 k0 where
    r0: "page_unlink st t (page_addr ?b 0) = Inr (st\<lparr>tbs := ts0, l1_map := m0\<rparr>)"
      "page_rel (st\<lparr>tbs := ts0, l1_map := m0\<rparr>) (PL(p0 := xs0))"
      "\<And>u. ts0 u = (tbs st u)\<lparr>page_next := page_next (ts0 u)\<rparr>"
      "filter (\<lambda>k. fst k \<noteq> t) xs0 = filter (\<lambda>k. fst k \<noteq> t) (PL p0)"
      "set xs0 = set (PL p0) - {k0}" "k0 \<in> set (PL p0)" "fst k0 = t" "length xs0 \<le> length (PL p0)"
      "\<And>q. q < V_PAGES \<Longrightarrow> pd_get (l1_map st) (page_ptr q) \<noteq> None \<Longrightarrow> pd_get m0 (page_ptr q) \<noteq> None"
    by (rule page_unlink_hit [OF rel _ p0(1,2), of "page_addr ?b 0" t])
      (use len [OF p0(1)] in \<open>auto simp: p0_def tb_page_def\<close>)
  let ?st0 = "st\<lparr>tbs := ts0, l1_map := m0\<rparr>"
  have pa: "page_addr (ts0 u) = page_addr (tbs st u)" for u by (subst r0(3)) simp
  have fin: "filter (\<lambda>k. fst k \<noteq> t) xs = xs" if "\<forall>n. (t, n) \<notin> set xs" for xs
    using that by (auto simp: filter_id_conv)
  show ?thesis
  proof (cases "page_addr ?b 1 = - 1")
    case True
    then have one: "\<not> has_page ?b n" if "n \<noteq> 0" for n using that by (simp add: has_page_def)
    have "page_rel ?st0 (\<lambda>p. filter (\<lambda>k. fst k \<noteq> t) (PL p)) = page_rel ?st0 (PL(p0 := xs0))"
    proof (rule page_rel_cong)
      fix p assume p: "p < V_PAGES"
      have "(t, n) \<notin> set ((PL(p0 := xs0)) p)" for n
        using hits [OF p, of t n] hits [OF p0(1), of t n] one [of n] r0(5-7)
          hits [OF p0(1), of t "snd k0"] one [of "snd k0"]
        by (cases "n = 0"; cases k0) (auto simp: p0_def)
      then have "filter (\<lambda>k. fst k \<noteq> t) ((PL(p0 := xs0)) p) = (PL(p0 := xs0)) p" by (intro fin) auto
      then show "filter (\<lambda>k. fst k \<noteq> t) (PL p) = (PL(p0 := xs0)) p" using r0(4) by (cases "p = p0") auto
    qed simp_all
    with r0(1-3,9) True pa show ?thesis
      by (intro that [where ts = ts0 and m = m0]) (simp_all add: unlink_pages_def)
  next
    case False
    then have h1: "has_page ?b 1" by (simp add: has_page_def)
    then have p1: "p1 < V_PAGES" "(t, 1) \<in> set (PL p1)"
      using V [of 1] hits [of p1 t 1] t by (simp_all add: p1_def)
    define PL0 where "PL0 = PL(p0 := xs0)"
    have "\<exists>k \<in> set (PL0 p1). fst k = t"
    proof (cases "p1 = p0")
      case True
      then have "\<exists>k \<in> set (PL p0) - {k0}. fst k = t" using p0(2) p1(2)
        by (intro bexI [of _ "if k0 = (t, 0) then (t, 1) else (t, 0)"]) auto
      then show ?thesis using True r0(5) by (simp add: PL0_def)
    next
      case False
      with p1(2) show ?thesis by (auto simp: PL0_def intro!: bexI [of _ "(t, 1)"])
    qed
    then obtain kk where kk: "kk \<in> set (PL0 p1)" "fst kk = t" by blast
    have len1: "length (PL0 p1) \<le> 2 * nb_tbs ?st0"
      using len [OF p1(1)] len [OF p0(1)] r0(8) by (simp add: PL0_def)
    obtain ts1 m1 xs1 k1 where
      r1: "page_unlink ?st0 t (page_addr ?b 1) = Inr (?st0\<lparr>tbs := ts1, l1_map := m1\<rparr>)"
        "page_rel (?st0\<lparr>tbs := ts1, l1_map := m1\<rparr>) (PL0(p1 := xs1))"
        "\<And>u. ts1 u = (tbs ?st0 u)\<lparr>page_next := page_next (ts1 u)\<rparr>"
        "filter (\<lambda>k. fst k \<noteq> t) xs1 = filter (\<lambda>k. fst k \<noteq> t) (PL0 p1)"
        "set xs1 = set (PL0 p1) - {k1}" "k1 \<in> set (PL0 p1)" "fst k1 = t"
        "\<And>q. q < V_PAGES \<Longrightarrow> pd_get m0 (page_ptr q) \<noteq> None \<Longrightarrow> pd_get m1 (page_ptr q) \<noteq> None"
      by (rule page_unlink_hit [OF r0(2) [folded PL0_def] _ p1(1) kk, of "page_addr ?b 1"])
        (use len1 in \<open>auto simp: p1_def tb_page_def\<close>)
    have two: "(t, n) \<in> set (PL p) \<Longrightarrow> n = 0 \<and> p = p0 \<or> n = 1 \<and> p = p1" if "p < V_PAGES" for n p
      using hits [OF that, of t n] by (auto simp: has_page_def p0_def p1_def)
    have none: "(t, n) \<notin> set ((PL0(p1 := xs1)) p)" if p: "p < V_PAGES" for n p
    proof
      assume a: "(t, n) \<in> set ((PL0(p1 := xs1)) p)"
      obtain n0 n1 where k: "k0 = (t, n0)" "k1 = (t, n1)" using r0(7) r1(7) by (cases k0; cases k1) auto
      have sub: "set (PL0 q) \<subseteq> set (PL q)" for q using r0(5) by (auto simp: PL0_def)
      have "set ((PL0(p1 := xs1)) p) \<subseteq> set (PL p)" using sub [of p] r1(5) by auto
      with a have an: "(t, n) \<in> set (PL p)" by blast
      have "n0 = 0 \<and> p0 = p0 \<or> n0 = 1 \<and> p0 = p1" using two [OF p0(1)] r0(6) k by auto
      moreover have "n1 = 0 \<and> p1 = p0 \<or> n1 = 1 \<and> p1 = p1" using two [OF p1(1)] r1(6) k sub [of p1] by blast
      moreover note two [OF p an]
      ultimately show False using a r1(5,6) r0(5) k by (auto simp: PL0_def split: if_splits)
    qed
    have "page_rel (?st0\<lparr>tbs := ts1, l1_map := m1\<rparr>) (\<lambda>p. filter (\<lambda>k. fst k \<noteq> t) (PL p)) =
        page_rel (?st0\<lparr>tbs := ts1, l1_map := m1\<rparr>) (PL0(p1 := xs1))"
    proof (rule page_rel_cong)
      fix p assume p: "p < V_PAGES"
      have "filter (\<lambda>k. fst k \<noteq> t) ((PL0(p1 := xs1)) p) = (PL0(p1 := xs1)) p" using none [OF p] by (intro fin) auto
      moreover have "filter (\<lambda>k. fst k \<noteq> t) ((PL0(p1 := xs1)) p) = filter (\<lambda>k. fst k \<noteq> t) (PL p)"
        using r0(4) r1(4) by (auto simp: PL0_def)
      ultimately show "filter (\<lambda>k. fst k \<noteq> t) (PL p) = (PL0(p1 := xs1)) p" by simp
    qed simp_all
    moreover have "ts1 u = (tbs st u)\<lparr>page_next := page_next (ts1 u)\<rparr>" for u
    proof -
      have "ts1 u = (ts0 u)\<lparr>page_next := page_next (ts1 u)\<rparr>" using r1(3) [of u] by simp
      also have "\<dots> = ((tbs st u)\<lparr>page_next := page_next (ts0 u)\<rparr>)\<lparr>page_next := page_next (ts1 u)\<rparr>"
        by (subst r0(3)) simp
      finally show ?thesis by simp
    qed
    ultimately show ?thesis using r0(1) r1(1,2) False pa r0(9) r1(8)
      by (intro that [where ts = ts1 and m = m1]) (simp_all add: unlink_pages_def)
  qed
qed

section \<open>Invalidation as an operation on the lists\<close>

lemma andthen_assoc: "andthen (andthen r f) g = andthen r (\<lambda>x. andthen (f x) g)"
  by (cases r) simp_all

text \<open>tb_phys_invalidate for all pages, split into its three stages.\<close>

definition unlink_jumps :: "TBContext \<Rightarrow> nat \<Rightarrow> TBContext result" where
  "unlink_jumps st t =
     andthen (tb_jmp_remove st t 0) (\<lambda>st.
     andthen (tb_jmp_remove st t 1) (\<lambda>st.
     andthen (reset_incoming (list_fuel st) st (jmp_first (tbs st t))) (\<lambda>st.
     Inr (upd_tb t (\<lambda>b. b\<lparr>jmp_first := Some (t, 2)\<rparr>) st))))"

lemma tb_phys_invalidate_stages:
  assumes "tb_remove (list_fuel st) (tb_phys_hash st (tb_hash_index (tbs st t)), tbs st) None t = Inr (hp, ts)"
    and "page_addr (ts t) 0 \<noteq> NO_PAGE"
  shows "tb_phys_invalidate st t NO_PAGE =
     andthen (unlink_pages (st\<lparr>tb_phys_hash := (tb_phys_hash st)(tb_hash_index (tbs st t) := hp), tbs := ts\<rparr>) t) (\<lambda>st.
       unlink_jumps (st\<lparr>tb_invalidated_flag := True,
         cpus := map (drop_from_jmp_cache (tb_jmp_cache_hash_func (pc (tbs st t))) t) (cpus st)\<rparr>) t)"
  using assms by (simp add: tb_phys_invalidate_def unlink_pages_def unlink_jumps_def andthen_assoc Let_def)

lemma jmp_fields_core:
  assumes "b' = b\<lparr>jmp_next := x, jmp_first := y\<rparr>"
  shows "tb_core b' = tb_core b" "phys_hash_next b' = phys_hash_next b" "page_next b' = page_next b"
  using assms by simp_all

lemma unlink_jumps_rel:
  assumes rel: "jmp_rel (tbs st) L J" and t: "t \<in> L" and nb: "\<forall>u \<in> L. u < nb_tbs st"
  obtains ts where "unlink_jumps st t = Inr (st\<lparr>tbs := ts,
        code := reset_code (tbs st) (filter (\<lambda>k. fst k \<noteq> t) (J t)) (code st)\<rparr>)"
    and "jmp_rel ts L ((\<lambda>s. filter (\<lambda>k. fst k \<noteq> t) (J s))(t := []))"
    and "\<And>u. tb_core (ts u) = tb_core (tbs st u)"
    and "\<And>u. phys_hash_next (ts u) = phys_hash_next (tbs st u)"
    and "\<And>u. page_next (ts u) = page_next (tbs st u)"
    and "\<And>u m. u \<notin> L \<Longrightarrow> jmp_next (ts u) m = jmp_next (tbs st u) m" "\<And>m. m < 2 \<Longrightarrow> jmp_next (ts t) m = None"
proof -
  define J2 where "J2 = (\<lambda>s. filter (\<lambda>k. fst k \<noteq> t) (J s))"
  obtain ts0 where r0: "tb_jmp_remove st t 0 = Inr (st\<lparr>tbs := ts0\<rparr>)"
      "jmp_rel ts0 L (\<lambda>s. filter (\<lambda>k. k \<noteq> (t, 0)) (J s))"
      "\<And>u. ts0 u = (tbs st u)\<lparr>jmp_next := jmp_next (ts0 u), jmp_first := jmp_first (ts0 u)\<rparr>"
      "\<And>u. u \<notin> L \<Longrightarrow> ts0 u = tbs st u"
    by (rule tb_jmp_remove_rel [OF rel t zero_less_numeral nb]) (rule that)
  have "jmp_rel (tbs (st\<lparr>tbs := ts0\<rparr>)) L (\<lambda>s. filter (\<lambda>k. k \<noteq> (t, 0)) (J s))"
    "1 < (2 :: nat)" "\<forall>u \<in> L. u < nb_tbs (st\<lparr>tbs := ts0\<rparr>)" using r0(2) nb by simp_all
  then obtain ts1 where
    "tb_jmp_remove (st\<lparr>tbs := ts0\<rparr>) t 1 = Inr (st\<lparr>tbs := ts0\<rparr>\<lparr>tbs := ts1\<rparr>)"
    "jmp_rel ts1 L (\<lambda>s. filter (\<lambda>k. k \<noteq> (t, 1)) (filter (\<lambda>k. k \<noteq> (t, 0)) (J s)))"
    "\<And>u. ts1 u = (tbs (st\<lparr>tbs := ts0\<rparr>) u)\<lparr>jmp_next := jmp_next (ts1 u), jmp_first := jmp_first (ts1 u)\<rparr>"
    "\<And>u. u \<notin> L \<Longrightarrow> ts1 u = tbs (st\<lparr>tbs := ts0\<rparr>) u"
    using tb_jmp_remove_rel [OF _ t] by blast
  then have r1: "tb_jmp_remove (st\<lparr>tbs := ts0\<rparr>) t 1 = Inr (st\<lparr>tbs := ts1\<rparr>)"
      "jmp_rel ts1 L (\<lambda>s. filter (\<lambda>k. k \<noteq> (t, 1)) (filter (\<lambda>k. k \<noteq> (t, 0)) (J s)))"
      "\<And>u. ts1 u = (ts0 u)\<lparr>jmp_next := jmp_next (ts1 u), jmp_first := jmp_first (ts1 u)\<rparr>"
      "\<And>u. u \<notin> L \<Longrightarrow> ts1 u = ts0 u"
    by simp_all
  note f0 = jmp_fields_core [OF r0(3)] and f1 = jmp_fields_core [OF r1(3)]
  have el: "fst k \<in> L \<and> snd k < 2" if "s \<in> L" "k \<in> set (J s)" for s k using rel that by (auto simp: jmp_rel_def)
  have J2: "filter (\<lambda>k. k \<noteq> (t, 1)) (filter (\<lambda>k. k \<noteq> (t, 0)) (J s)) = J2 s" if "s \<in> L" for s
  proof -
    have "(k \<noteq> (t, 0) \<and> k \<noteq> (t, 1)) \<longleftrightarrow> fst k \<noteq> t" if "k \<in> set (J s)" for k
      using el [OF \<open>s \<in> L\<close> that] by (cases k) auto
    then show ?thesis unfolding J2_def filter_filter by (intro filter_cong refl)
  qed
  have "jmp_rel ts1 L J2 = jmp_rel ts1 L (\<lambda>s. filter (\<lambda>k. k \<noteq> (t, 1)) (filter (\<lambda>k. k \<noteq> (t, 0)) (J s)))"
    by (rule jmp_rel_cong) (blast, rule J2 [symmetric])
  then have rel1: "jmp_rel ts1 L J2" using r1(2) by blast
  have elJ: "snd k < 2" if "k \<in> set (J2 t)" for k using el [OF t] that by (auto simp: J2_def)
  have "chain (jcut ts1) (jmp_slot ts1 (t, 2)) (J2 t @ [(t, 2)])" using rel1 t by (simp add: jmp_rel_def)
  then have "lseg (jmp_slot ts1) (jmp_first (ts1 t)) (J2 t) (Some (t, 2))"
    using jcut_lseg [of "J2 t" ts1 _ t] elJ by (auto simp: jmp_slot_def)
  moreover have "length (J2 t) < list_fuel (st\<lparr>tbs := ts1\<rparr>)"
    using jmp_rel_len [OF rel1 t nb] by (simp add: list_fuel_def)
  ultimately have r2: "reset_incoming (list_fuel (st\<lparr>tbs := ts1\<rparr>)) (st\<lparr>tbs := ts1\<rparr>) (jmp_first (ts1 t)) =
      Inr (st\<lparr>tbs := clear_jumps (set (J2 t)) ts1, code := reset_code ts1 (J2 t) (code st)\<rparr>)"
    using reset_incoming_run [of "st\<lparr>tbs := ts1\<rparr>" _ "J2 t" t] elJ jmp_rel_distinct(1) [OF rel1 t] by simp
  let ?ts = "(clear_jumps (set (J2 t)) ts1)(t := (clear_jumps (set (J2 t)) ts1 t)\<lparr>jmp_first := Some (t, 2)\<rparr>)"
  have rc: "reset_code ts1 = reset_code (tbs st)" by (rule reset_code_cong) (simp add: f0 f1)
  have "unlink_jumps st t = Inr (st\<lparr>tbs := ?ts, code := reset_code (tbs st) (J2 t) (code st)\<rparr>)"
    using r2 unfolding unlink_jumps_def r0(1) andthen_simps r1(1) by (simp add: rc upd_tb_def)
  moreover have "jmp_rel ?ts L (J2(t := []))"
    by (rule jmp_rel_isolate [OF rel1 t]) (simp add: J2_def)
  moreover have "tb_core (?ts u) = tb_core (tbs st u)" for u by (simp add: clear_jumps_def f0 f1)
  moreover have "phys_hash_next (?ts u) = phys_hash_next (tbs st u)" for u by (simp add: clear_jumps_def f0 f1)
  moreover have "page_next (?ts u) = page_next (tbs st u)" for u by (simp add: clear_jumps_def f0 f1)
  moreover have "jmp_next (?ts u) m = jmp_next (tbs st u) m" if "u \<notin> L" for u m
  proof -
    have "(u, m) \<notin> set (J2 t)" using el [OF t, of "(u, m)"] that by (auto simp: J2_def)
    then show ?thesis using that t r0(4) r1(4) by (auto simp: clear_jumps_def)
  qed
  moreover have "jmp_next (?ts t) m = None" if m: "m < 2" for m
  proof -
    have "jmp_slot ts1 (t, m) = None"
    proof (rule ccontr)
      assume "jmp_slot ts1 (t, m) \<noteq> None"
      then obtain r where "r \<in> L" "(t, m) \<in> set (J2 r)" using rel1 t m unfolding jmp_rel_def by blast
      then show False by (simp add: J2_def)
    qed
    then show ?thesis using m by (simp add: clear_jumps_def jmp_slot_def)
  qed
  ultimately show ?thesis unfolding J2_def by (rule that)
qed

lemma no_page_far: "unat (drop_bit 12 (NO_PAGE :: u64)) \<ge> V_PAGES"
  by (simp only: unat_drop12 unat_max_u64) simp

lemma page_list_length:
  assumes "page_rel st PL" "pages_ok (tbs st) L PL" "\<forall>u \<in> L. u < nb_tbs st" "p < V_PAGES"
  shows "length (PL p) \<le> 2 * nb_tbs st"
proof -
  have "distinct (PL p)" using assms(1,4) by (auto simp: page_rel_def intro: chain_distinct)
  then have "length (PL p) \<le> nb_tbs st * 2"
  proof (rule distinct_pairs_length)
    fix x assume x: "x \<in> set (PL p)"
    obtain u n where un: "x = (u, n)" by fastforce
    have "u \<in> L \<and> has_page (tbs st u) n" using x assms(2,4) unfolding un pages_ok_def by blast
    then show "fst x < nb_tbs st \<and> snd x < 2" using assms(3) un by (auto simp: has_page_def)
  qed
  then show ?thesis by simp
qed

definition buf_frame :: "TBContext \<Rightarrow> TBContext \<Rightarrow> bool" where
  "buf_frame st st' \<longleftrightarrow> code_gen_ptr st' = code_gen_ptr st \<and> code_gen_buffer st' = code_gen_buffer st \<and>
     code_gen_buffer_size st' = code_gen_buffer_size st \<and>
     code_gen_buffer_max_size st' = code_gen_buffer_max_size st \<and> code_gen_max_blocks st' = code_gen_max_blocks st \<and>
     ram st' = ram st \<and> length (cpus st') = length (cpus st)"

lemma tb_phys_invalidate_rel:
  assumes rel: "tb_rel st A" and t: "t \<in> live A"
  obtains st' where "tb_phys_invalidate st t NO_PAGE = Inr st'"
    and "tb_rel st' (abs_invalidate t A)"
    and "\<And>u. tb_core (tbs st' u) = tb_core (tbs st u)"
    and "nb_tbs st' = nb_tbs st" and "tb_invalidated_flag st'" and "buf_frame st st'"
    and "code st' = reset_code (tbs st) (filter (\<lambda>k. fst k \<noteq> t) (ajmp A t)) (code st)"
    and "\<And>u m. m < 2 \<Longrightarrow> jmp_next (tbs st u) m = None \<Longrightarrow> jmp_next (tbs st' u) m = None"
      "\<And>m. m < 2 \<Longrightarrow> jmp_next (tbs st' t) m = None"
    and "map (\<lambda>env. env\<lparr>tb_jmp_cache := (\<lambda>_. None)\<rparr>) (cpus st') = map (\<lambda>env. env\<lparr>tb_jmp_cache := (\<lambda>_. None)\<rparr>) (cpus st)"
    and "\<And>q. q < V_PAGES \<Longrightarrow> pd_get (l1_map st) (page_ptr q) \<noteq> None \<Longrightarrow> pd_get (l1_map st') (page_ptr q) \<noteq> None"
proof -
  note R = rel [unfolded tb_rel_def]
  have hr: "hash_rel st (ahash A)" using R by blast
  let ?L = "live A" and ?K = "known A"
  have nb: "\<forall>u \<in> ?K. u < nb_tbs st" using known_less [OF rel] by blast
  have tK: "t \<in> ?K" using t by (rule live_known)
  obtain h where "t \<in> set (ahash A h)" using t by (auto simp: live_def)
  then have th: "t \<in> set (ahash A (tb_hash_index (tbs st t)))" using R hash_rel_live(2) [of st "ahash A" t h] by simp
  define h where "h = tb_hash_index (tbs st t)"
  from tb_remove_rel [OF hr th [folded h_def]] obtain hp ts0 where
    r0: "tb_remove (list_fuel st) (tb_phys_hash st h, tbs st) None t = Inr (hp, ts0)"
      "hash_rel (st\<lparr>tb_phys_hash := (tb_phys_hash st)(h := hp), tbs := ts0\<rparr>)
         (\<lambda>h. filter (\<lambda>u. u \<noteq> t) (ahash A h))"
      "\<And>u. ts0 u = (tbs st u)\<lparr>phys_hash_next := phys_hash_next (ts0 u)\<rparr>" by metis
  define st0 where "st0 = st\<lparr>tb_phys_hash := (tb_phys_hash st)(h := hp), tbs := ts0\<rparr>"
  have f0: "tb_core (ts0 u) = tb_core (tbs st u)" "page_next (ts0 u) = page_next (tbs st u)"
    "jmp_next (ts0 u) = jmp_next (tbs st u)" "jmp_first (ts0 u) = jmp_first (tbs st u)" for u
    by (subst r0(3), simp)+
  have pages_core: "pages_ok ts L PL = pages_ok (tbs st) L PL"
    if "\<And>u. tb_core (ts u) = tb_core (tbs st u)" for ts L PL
    using tb_core_eqD(2) [OF that] by (simp add: pages_ok_def has_page_def tb_page_def)
  have prel0: "page_rel st0 (apage A)"
    using R page_rel_cong [of "apage A" "apage A" st0 st] tb_core_eqD(1,6) [OF f0(1)] by (simp add: st0_def f0)
  have pok0: "pages_ok (tbs st0) ?L (apage A)" using R pages_core [of ts0] f0(1) by (simp add: st0_def)
  have len0: "length (apage A p) \<le> 2 * nb_tbs st0" if "p < V_PAGES" for p
    using page_list_length [OF prel0 pok0 _ that] nb by (simp add: st0_def known_def)
  obtain ts1 m1 where
    r1: "unlink_pages st0 t = Inr (st0\<lparr>tbs := ts1, l1_map := m1\<rparr>)"
      "page_rel (st0\<lparr>tbs := ts1, l1_map := m1\<rparr>) (\<lambda>p. filter (\<lambda>k. fst k \<noteq> t) (apage A p))"
      "\<And>u. ts1 u = (tbs st0 u)\<lparr>page_next := page_next (ts1 u)\<rparr>"
      "\<And>q. q < V_PAGES \<Longrightarrow> pd_get (l1_map st0) (page_ptr q) \<noteq> None \<Longrightarrow> pd_get m1 (page_ptr q) \<noteq> None"
    by (rule unlink_pages_rel [OF prel0 pok0 t len0]) (assumption, rule that)
  have f1: "tb_core (ts1 u) = tb_core (tbs st u)" "phys_hash_next (ts1 u) = phys_hash_next (ts0 u)"
    "jmp_next (ts1 u) = jmp_next (tbs st u)" "jmp_first (ts1 u) = jmp_first (tbs st u)" for u
    by (subst r1(3), simp add: st0_def f0)+
  define hc where "hc = tb_jmp_cache_hash_func (pc (tbs st t))"
  define st1 where "st1 = st0\<lparr>tbs := ts1, l1_map := m1, tb_invalidated_flag := True,
      cpus := map (drop_from_jmp_cache hc t) (cpus st)\<rparr>"
  have jr: "jmp_rel (tbs st) ?K (ajmp A)" using R by blast
  have jr1: "jmp_rel (tbs st1) ?K (ajmp A)"
    using jr jmp_rel_cong [of ts1 "tbs st" ?K "ajmp A" "ajmp A"] f1(3,4) by (simp add: st1_def)
  have nb1: "\<forall>u \<in> ?K. u < nb_tbs st1" using nb by (simp add: st1_def st0_def)
  obtain ts2 where
    r2: "unlink_jumps st1 t = Inr (st1\<lparr>tbs := ts2,
        code := reset_code (tbs st1) (filter (\<lambda>k. fst k \<noteq> t) (ajmp A t)) (code st1)\<rparr>)"
      "jmp_rel ts2 ?K ((\<lambda>s. filter (\<lambda>k. fst k \<noteq> t) (ajmp A s))(t := []))"
      "\<And>u. tb_core (ts2 u) = tb_core (tbs st1 u)"
      "\<And>u. phys_hash_next (ts2 u) = phys_hash_next (tbs st1 u)"
      "\<And>u. page_next (ts2 u) = page_next (tbs st1 u)"
      "\<And>u m. u \<notin> ?K \<Longrightarrow> jmp_next (ts2 u) m = jmp_next (tbs st1 u) m" "\<And>m. m < 2 \<Longrightarrow> jmp_next (ts2 t) m = None"
    by (rule unlink_jumps_rel [OF jr1 tK nb1]) (rule that)
  have free: "jmp_next (ts2 u) m = None" if m: "m < 2" and n: "jmp_next (tbs st u) m = None" for u m
  proof (cases "u \<in> ?K")
    case True
    have s: "jmp_slot ts (u, m) = jmp_next (ts u) m" for ts using m by (simp add: jmp_slot_def)
    have "jmp_slot ts2 (u, m) = None"
      by (rule jmp_rel_stay_free [OF jr r2(2) _ True m]) (use n s in auto)
    then show ?thesis by (simp add: s)
  next
    case False
    then show ?thesis using r2(6) n by (simp add: st1_def f1)
  qed
  have f2: "tb_core (ts2 u) = tb_core (tbs st u)" for u by (simp add: r2(3) st1_def f1)
  define st2 where "st2 = st1\<lparr>tbs := ts2,
        code := reset_code (tbs st) (filter (\<lambda>k. fst k \<noteq> t) (ajmp A t)) (code st)\<rparr>"
  have rc: "reset_code ts1 = reset_code (tbs st)" by (rule reset_code_cong) (simp add: f1)
  have "page_addr (tbs st t) 0 \<noteq> NO_PAGE"
  proof
    have "has_page (tbs st t) 0" by (simp add: has_page_def)
    then have "tb_page (tbs st t) 0 < V_PAGES" using R t unfolding pages_ok_def by blast
    moreover assume "page_addr (tbs st t) 0 = NO_PAGE"
    ultimately show False using leD [OF no_page_far] unfolding tb_page_def by argo
  qed
  then have pa: "page_addr (ts0 t) 0 \<noteq> NO_PAGE" using tb_core_eqD(2) [OF f0(1)] by simp
  have "tb_phys_invalidate st t NO_PAGE = Inr st2"
    using tb_phys_invalidate_stages [OF r0(1) [unfolded h_def] pa] r1(1) r2(1)
      tb_core_eqD(1) [OF f1(1) [of t]]
    by (simp add: st0_def st1_def st2_def h_def hc_def rc)
  moreover have "tb_rel st2 (abs_invalidate t A)"
    unfolding tb_rel_def live_abs_invalidate known_abs_invalidate
  proof (intro conjI)
    have hn: "phys_hash_next (tbs st2 u) = phys_hash_next (tbs st0 u)"
      "tb_hash_index (tbs st2 u) = tb_hash_index (tbs st0 u)" for u
      using tb_core_eqD(9) [of "ts2 u" "ts0 u"] f2 f0(1) by (simp_all add: st2_def r2(4) st1_def f1 st0_def)
    show "hash_rel st2 (ahash (abs_invalidate t A))"
      using r0(2) [folded st0_def]
      by (simp add: hash_rel_def abs_invalidate_def hn) (auto simp: st2_def st1_def)
    have "tb_core (ts2 u) = tb_core (ts1 u)" for u by (simp add: f2 f1)
    then have "pc (ts2 u) = pc (ts1 u)" "tbsize (ts2 u) = tbsize (ts1 u)" for u using tb_core_eqD(1,6) by blast+
    then show "page_rel st2 (apage (abs_invalidate t A))"
      using r1(2) page_rel_cong [of "apage (abs_invalidate t A)" _ st2 "st0\<lparr>tbs := ts1, l1_map := m1\<rparr>"]
      by (simp add: abs_invalidate_def) (simp add: st2_def r2(5) st1_def)
    have "pages_ok (tbs st) (?L - {t}) (apage (abs_invalidate t A))"
      using R by (auto simp: pages_ok_def abs_invalidate_def)
    then show "pages_ok (tbs st2) (?L - {t}) (apage (abs_invalidate t A))"
      using pages_core [OF f2] by (simp add: st2_def)
    show "jmp_rel (tbs st2) (insert t ?K) (ajmp (abs_invalidate t A))"
      using r2(2) tK by (simp add: st2_def abs_invalidate_def insert_absorb)
    have "t < nb_tbs st" using nb tK by blast
    then show "dead_ok st2 (abs_invalidate t A)"
      using R unfolding dead_ok_def live_abs_invalidate
      by (auto simp: abs_invalidate_def) (auto simp: st2_def st1_def st0_def)
    have pcs: "pc (ts2 u) = pc (tbs st u)" for u using tb_core_eqD(1) [OF f2] .
    show "caches_ok st2 (?L - {t})"
      unfolding caches_ok_def
    proof (intro ballI allI impI)
      fix env i u assume "env \<in> set (cpus st2)" and c: "tb_jmp_cache env i = Some u"
      then obtain e where e: "e \<in> set (cpus st)" "env = drop_from_jmp_cache hc t e"
        by (auto simp: st2_def st1_def)
      then have "tb_jmp_cache e i = Some u" and "i = hc \<Longrightarrow> u \<noteq> t"
        using c by (auto simp: drop_from_jmp_cache_def split: if_splits)
      with e(1) R have "u \<in> ?L" "i = tb_jmp_cache_hash_func (pc (tbs st u))"
        by (auto simp: caches_ok_def)
      with \<open>i = hc \<Longrightarrow> u \<noteq> t\<close> show "u \<in> ?L - {t} \<and> i = tb_jmp_cache_hash_func (pc (tbs st2 u))"
        by (auto simp: hc_def st2_def pcs)
    qed
  qed
  ultimately show ?thesis
    by (rule that) (simp_all add: st2_def st1_def st0_def f2 f1 buf_frame_def free r2(7) drop_from_jmp_cache_def,
      use r1(4) in \<open>simp add: st0_def\<close>)
qed

section \<open>Adding a jump\<close>

definition abs_add_jump :: "nat \<times> nat \<Rightarrow> nat \<Rightarrow> TBLists \<Rightarrow> TBLists" where
  "abs_add_jump k t A = A\<lparr>ajmp := (ajmp A)(t := k # ajmp A t)\<rparr>"

lemma live_abs_add_jump [simp]: "live (abs_add_jump k t A) = live A"
  "adead (abs_add_jump k t A) = adead A" "known (abs_add_jump k t A) = known A"
  by (simp_all add: live_def abs_add_jump_def known_def)

lemma tb_add_jump_run:
  assumes "jmp_next (tbs st s) n = None" and "n < 2"
  shows "tb_add_jump st s n t = st\<lparr>tbs := set_jmp_slot (set_jmp_slot (tbs st) (s, n) (jmp_slot (tbs st) (t, 2)))
           (t, 2) (Some (s, n)),
         code := tb_set_jmp_target1 (code st) (jaddr (tbs st) (s, n)) (tc_ptr (tbs st t))\<rparr>"
  using assms
  by (simp add: tb_add_jump_def Let_def tb_set_jmp_target_def upd_tb_def set_jmp_slot_def jmp_slot_def
      jaddr_def)

lemma jmp_rel_add:
  assumes rel: "jmp_rel ts L J" and s: "s \<in> L" "n < 2" and t: "t \<in> L" and free: "jmp_slot ts (s, n) = None"
  shows "jmp_rel (set_jmp_slot (set_jmp_slot ts (s, n) (jmp_slot ts (t, 2))) (t, 2) (Some (s, n))) L
           (J(t := (s, n) # J t))"
proof -
  let ?ts = "set_jmp_slot (set_jmp_slot ts (s, n) (jmp_slot ts (t, 2))) (t, 2) (Some (s, n))"
  have slot: "jmp_slot ?ts k = (if k = (t, 2) then Some (s, n) else if k = (s, n) then jmp_slot ts (t, 2)
      else jmp_slot ts k)" for k by (simp only: jl.get_put)
  have el: "fst k \<in> L" "snd k < 2" if "u \<in> L" "k \<in> set (J u)" for u k using rel that by (auto simp: jmp_rel_def)
  have out: "(s, n) \<notin> set (J u)" if u: "u \<in> L" for u
  proof
    assume "(s, n) \<in> set (J u)"
    then obtain ys zs where J: "J u = ys @ (s, n) # zs" by (meson split_list)
    have "chain (jcut ts) (jmp_slot ts (u, 2)) (J u @ [(u, 2)])" using rel u by (simp add: jmp_rel_def)
    then have "chain (jcut ts) (jcut ts (s, n)) (zs @ [(u, 2)])" by (auto simp: J lseg_append)
    moreover have "jcut ts (s, n) = None" using free s(2) by (simp add: jcut_def)
    ultimately show False by (cases zs) auto
  qed
  have old: "chain (jcut ?ts) (jmp_slot ts (u, 2)) (J u @ [(u, 2)])" if u: "u \<in> L" for u
  proof -
    have "chain (jcut ?ts) p (J u @ [(u, 2)]) = chain (jcut ts) p (J u @ [(u, 2)])" for p
    proof (rule jcut_chain_cong)
      fix k assume "k \<in> set (J u)"
      with el [OF u this] out [OF u] show "snd k < 2 \<and> jmp_slot ?ts k = jmp_slot ts k"
        unfolding slot by (cases k) auto
    qed
    then show ?thesis using rel u by (simp add: jmp_rel_def)
  qed
  show ?thesis
    unfolding jmp_rel_def
  proof (intro conjI ballI allI impI)
    fix u assume u: "u \<in> L"
    show "chain (jcut ?ts) (jmp_slot ?ts (u, 2)) ((J(t := (s, n) # J t)) u @ [(u, 2)])"
    proof (cases "u = t")
      case True
      have "jcut ?ts (s, n) = jmp_slot ts (t, 2)" using s(2) by (simp add: jcut_def slot)
      then show ?thesis using old [OF t] True by (simp add: slot)
    next
      case False
      then have "jmp_slot ?ts (u, 2) = jmp_slot ts (u, 2)" using s(2) by (simp add: slot)
      with old [OF u] False show ?thesis by simp
    qed
    show "fst k \<in> L" "snd k < 2" if "k \<in> set ((J(t := (s, n) # J t)) u)" for k
      using that el [OF u, of k] el [OF t, of k] s by (auto split: if_splits)
    fix m assume m: "m < (2 :: nat)" "jmp_slot ?ts (u, m) \<noteq> None"
    show "\<exists>r \<in> L. (u, m) \<in> set ((J(t := (s, n) # J t)) r)"
    proof (cases "(u, m) = (s, n)")
      case True
      with t show ?thesis by (intro bexI [of _ t]) auto
    next
      case False
      then have "jmp_slot ts (u, m) \<noteq> None" using m slot [of "(u, m)"] by (simp split: if_splits)
      then obtain r where "r \<in> L" "(u, m) \<in> set (J r)" using rel u m(1) unfolding jmp_rel_def by blast
      then show ?thesis by (intro bexI [of _ r]) auto
    qed
  qed
qed

text \<open>Relations that do not look at the jump fields or the code.\<close>

lemma tb_rel_jumps_cong:
  assumes rel: "tb_rel st A" and hash: "ahash A' = ahash A" and page: "apage A' = apage A" and dead: "adead A' = adead A"
    and none: "\<And>t. t \<in> adead A \<Longrightarrow> ajmp A' t = []"
    and f: "\<And>u. tb_core (ts u) = tb_core (tbs st u)" "\<And>u. phys_hash_next (ts u) = phys_hash_next (tbs st u)"
      "\<And>u. page_next (ts u) = page_next (tbs st u)"
    and j: "jmp_rel ts (known A) (ajmp A')"
  shows "tb_rel (st\<lparr>tbs := ts, code := c\<rparr>) A'"
proof -
  have L: "live A' = live A" "known A' = known A" by (simp_all add: live_def hash known_def dead)
  note core = tb_core_eqD [OF f(1)]
  have "page_rel (st\<lparr>tbs := ts, code := c\<rparr>) (apage A) = page_rel st (apage A)"
    by (rule page_rel_cong) (simp_all add: f core)
  with rel j show ?thesis
    by (simp add: tb_rel_def L hash page hash_rel_def f(2) core pages_ok_def has_page_def tb_page_def
        caches_ok_def dead_ok_def dead none)
qed

lemma tb_add_jump_rel:
  assumes rel: "tb_rel st A" and s: "s \<in> known A" "n < 2" and t: "t \<in> live A"
    and free: "jmp_next (tbs st s) n = None"
  shows "tb_rel (tb_add_jump st s n t) (abs_add_jump (s, n) t A)"
proof -
  have j: "jmp_rel (tbs st) (known A) (ajmp A)" using rel by (simp add: tb_rel_def)
  have d: "u \<noteq> t \<and> ajmp A u = []" if "u \<in> adead A" for u using rel that t by (auto simp: tb_rel_def dead_ok_def)
  have "jmp_slot (tbs st) (s, n) = None" using free s(2) by (simp add: jmp_slot_def)
  from jmp_rel_add [OF j s live_known [OF t] this]
  have "jmp_rel (set_jmp_slot (set_jmp_slot (tbs st) (s, n) (jmp_slot (tbs st) (t, 2))) (t, 2) (Some (s, n)))
     (known A) (ajmp (abs_add_jump (s, n) t A))" by (simp add: abs_add_jump_def)
  then show ?thesis
    unfolding tb_add_jump_run [OF free s(2)]
    by (intro tb_rel_jumps_cong [OF rel]) (use d in \<open>simp_all add: abs_add_jump_def set_jmp_slot_def\<close>)
qed

lemma tb_add_jump_busy: "jmp_next (tbs st s) n \<noteq> None \<Longrightarrow> tb_add_jump st s n t = st"
  by (auto simp: tb_add_jump_def)

section \<open>Linking a new block\<close>

text \<open>A page-aligned physical address inside the RAM of the machine.\<close>

definition ram_page :: "TBContext \<Rightarrow> u64 \<Rightarrow> bool" where
  "ram_page st a \<longleftrightarrow> a AND 0xFFF = 0 \<and> ram_wf (ram st) \<and> unat (drop_bit TARGET_PAGE_BITS a) < V_PAGES \<and>
     (\<exists>b \<in> set (blocks (ram st)). unat a \<in> ram_range b)"

lemma protect_page:
  fixes a :: u64
  assumes "ram_wf rl" "b \<in> set (blocks rl)" "unat a \<in> ram_range b" "a AND 0xFFF = 0"
  obtains rl' f where "tlb_protect_code rl cs a = Inr (rl', map (map_tlb f) cs)"
    and "ram_wf rl'" and "set (blocks rl') = set (blocks rl)"
proof -
  have ok: "block_ok b" using assms(1,2) by (simp add: ram_wf_def)
  have al: "unat a mod 4096 = 0" using assms(4) unat_and_FFF [of a] by simp
  have "unat a + 4096 \<le> unat (rb_offset b) + unat (rb_length b)"
  proof -
    have "4096 dvd unat (rb_offset b) + unat (rb_length b)" using ok by (simp add: block_ok_def)
    then obtain n where n: "unat (rb_offset b) + unat (rb_length b) = 4096 * n" by (rule dvdE)
    obtain k where k: "unat a = 4096 * k" using al by (metis mod_eq_0_iff_dvd dvdE)
    have "unat a < unat (rb_offset b) + unat (rb_length b)" using assms(3) by (simp add: ram_range_def)
    then have "k + 1 \<le> n" unfolding n k by simp
    then have "4096 * (k + 1) \<le> 4096 * n" by (rule mult_le_mono2)
    then show ?thesis unfolding n k by simp
  qed
  moreover have "4096 dvd unat (rb_offset b) + unat (rb_length b)"
    "unat (rb_offset b) + unat (rb_length b) < 2 ^ 64" using ok by (simp_all add: block_ok_def)
  ultimately have room: "unat a + 4096 + 4095 < 2 ^ 64" and last: "unat a + 4095 < unat (rb_offset b) + unat (rb_length b)"
    by (auto elim!: dvdE)
  then have e: "unat (a + 4096) = unat a + 4096" "unat (4095 + a) = unat a + 4095"
    by (simp_all add: unat_word_ariths)
  have s: "a = a AND NOT 0xFFF" using page_split [of a] assms(4) by simp
  have "unat (TARGET_PAGE_ALIGN (a + 4096)) = (unat (a + 4096) + 4095) div 4096 * 4096"
    using room e(1) by (intro align_unat) simp
  also have "\<dots> = unat (a + 4096)"
  proof -
    obtain k where "unat a = 4096 * k" using al by (metis mod_eq_0_iff_dvd dvdE)
    then show ?thesis by (simp add: e(1))
  qed
  finally have E: "a + 4096 = TARGET_PAGE_ALIGN (a + 4096)" unfolding word_unat_eq_iff by (rule sym)
  have l: "a < a + 4096" using e by (simp add: word_less_nat_alt)
  have "unat (a + 4096 - 1) \<in> ram_range b"
    using last assms(3) e(2) by (simp add: ram_range_def)
  from reset_dirty_run [OF assms(1,2) s E l assms(3) this, of cs 2] obtain rl' where
    "cpu_physical_memory_reset_dirty rl cs a (a + 4096) 2 =
      Inr (rl', map (map_tlb (\<lambda>te. tlb_reset_dirty_range te (rb_host b + (a - rb_offset b)) (a + 4096 - a))) cs)"
    "ram_wf rl'" "set (blocks rl') = set (blocks rl)" by blast
  from that [OF this(1) [folded tlb_protect_code_def] this(2,3)] show ?thesis .
qed


lemma page_first_alloc:
  assumes wf: "wf_map V_SPACE m" and p: "p < V_PAGES" "q < V_PAGES"
    and a: "page_find_alloc m p True = (m', r)"
  shows "(case pd_get m' (page_ptr q) of None \<Rightarrow> None | Some d \<Rightarrow> first_tb d) =
         (case pd_get m (page_ptr q) of None \<Rightarrow> None | Some d \<Rightarrow> first_tb d)"
  using vp.alloc_get [OF wf p a] by (auto simp: PageDesc_zero_def split: option.splits)

text \<open>The state after tb_alloc_page differs in the block, the page table and the protection.\<close>

definition same_but_page :: "TBContext \<Rightarrow> TBContext \<Rightarrow> bool" where
  "same_but_page st st' \<longleftrightarrow> nb_tbs st' = nb_tbs st \<and> tb_phys_hash st' = tb_phys_hash st \<and> code st' = code st \<and>
     map tb_jmp_cache (cpus st') = map tb_jmp_cache (cpus st) \<and>
     code_gen_ptr st' = code_gen_ptr st \<and> code_gen_buffer st' = code_gen_buffer st \<and>
     code_gen_buffer_size st' = code_gen_buffer_size st \<and>
     code_gen_buffer_max_size st' = code_gen_buffer_max_size st \<and> code_gen_max_blocks st' = code_gen_max_blocks st \<and>
     tb_invalidated_flag st' = tb_invalidated_flag st \<and> ram_wf (ram st') = ram_wf (ram st) \<and> set (blocks (ram st')) = set (blocks (ram st))"

lemma tb_alloc_page_rel:
  assumes rel: "page_rel st PL" and pg: "ram_page st a" and p: "p = unat (drop_bit 12 a)"
    and new: "\<forall>q < V_PAGES. (t, n) \<notin> set (PL q)"
  obtains st' where "tb_alloc_page st t n a = Inr st'"
    and "page_rel st' (PL(p := (t, n) # PL p))" and "same_but_page st st'"
    and "tbs st' = (tbs st)(t := (tbs st t)\<lparr>page_addr := (page_addr (tbs st t))(n := a),
           page_next := page_next (tbs st' t)\<rparr>)"
    and "\<And>m. m \<noteq> n \<Longrightarrow> page_next (tbs st' t) m = page_next (tbs st t) m"
proof -
  have wf: "wf_map V_SPACE (l1_map st)"
    and ch: "\<And>p. p < V_PAGES \<Longrightarrow> chain (\<lambda>k. page_next (tbs st (fst k)) (snd k)) (page_first st p) (PL p)"
    and dj: "\<And>p p'. p < V_PAGES \<Longrightarrow> p' < V_PAGES \<Longrightarrow> p \<noteq> p' \<Longrightarrow> set (PL p) \<inter> set (PL p') = {}"
    and bm: "\<And>p tab. p < V_PAGES \<Longrightarrow> page_bitmap (l1_map st) p = Some tab \<Longrightarrow> bitmap_exact (tbs st) tab (PL p)"
    using rel by (auto simp: page_rel_def)
  have pV: "p < V_PAGES" using pg p by (simp add: ram_page_def)
  obtain m where m: "page_find_alloc (l1_map st) p True = (m, Some (page_ptr p))" "wf_map V_SPACE m"
    using vp.alloc_ptr [OF wf pV] by blast
  obtain d where d: "pd_get m (page_ptr p) = Some d" using vp.alloc_self [OF wf pV m(1)] by blast
  have first: "(case pd_get m (page_ptr q) of None \<Rightarrow> None | Some d \<Rightarrow> first_tb d) = page_first st q"
    if "q < V_PAGES" for q using page_first_alloc [OF wf pV that m(1)] by (simp add: page_first_def)
  let ?d = "invalidate_page_bitmap (d\<lparr>first_tb := Some (t, n)\<rparr>)"
  let ?ts = "(tbs st)(t := (tbs st t)\<lparr>page_addr := (page_addr (tbs st t))(n := a),
       page_next := (page_next (tbs st t))(n := first_tb d)\<rparr>)"
  let ?st = "st\<lparr>tbs := ?ts, l1_map := pd_put m (page_ptr p) ?d\<rparr>"
  have prel: "page_rel (?st\<lparr>ram := r, cpus := cs\<rparr>) (PL(p := (t, n) # PL p))" for r cs
    unfolding page_rel_def
  proof (intro conjI allI impI)
    show "wf_map V_SPACE (l1_map (?st\<lparr>ram := r, cpus := cs\<rparr>))" using vp.put_invar [OF m(2) pV] by simp
  next
    fix q :: nat assume q: "q < V_PAGES"
    have "pd_get (pd_put m (page_ptr p) ?d) (page_ptr q) = (if q = p then Some ?d else pd_get m (page_ptr q))"
      by (rule vp.put_get [OF m(2) pV q]) (simp add: d)
    then have pf: "page_first (?st\<lparr>ram := r, cpus := cs\<rparr>) q = (if q = p then Some (t, n) else page_first st q)"
      using first [OF q] by (simp add: page_first_def invalidate_page_bitmap_def)
    have "(t, n) \<notin> set (PL q)" using new q by blast
    then have same: "chain (\<lambda>k. page_next (?ts (fst k)) (snd k)) x (PL q) =
        chain (\<lambda>k. page_next (tbs st (fst k)) (snd k)) x (PL q)" for x
      by (intro lseg_cong) auto
    show "chain (\<lambda>k. page_next (tbs (?st\<lparr>ram := r, cpus := cs\<rparr>) (fst k)) (snd k))
        (page_first (?st\<lparr>ram := r, cpus := cs\<rparr>) q) ((PL(p := (t, n) # PL p)) q)"
    proof (cases "q = p")
      case True
      have "page_first st p = first_tb d" using first [OF pV] d by simp
      with True pf same ch [OF q] show ?thesis by simp
    next
      case False
      with pf same ch [OF q] show ?thesis by simp
    qed
  next
    fix q q' :: nat assume "q < V_PAGES" "q' < V_PAGES" "q \<noteq> q'"
    then show "set ((PL(p := (t, n) # PL p)) q) \<inter> set ((PL(p := (t, n) # PL p)) q') = {}"
      using dj [of q q'] new by auto
  next
    fix q :: nat and tab
    assume q: "q < V_PAGES" and tab: "page_bitmap (l1_map (?st\<lparr>ram := r, cpus := cs\<rparr>)) q = Some tab"
    have "page_bitmap m q = page_bitmap (l1_map st) q" using vp.alloc_get [OF wf pV q m(1)]
      by (auto simp: page_bitmap_def PageDesc_zero_def split: option.splits)
    with tab have "q \<noteq> p" "bitmap_exact (tbs st) tab (PL q)"
      using page_bitmap_put [OF m(2) pV q, of ?d] bm [OF q] d
      by (auto simp: invalidate_page_bitmap_def split: if_splits)
    then show "bitmap_exact (tbs (?st\<lparr>ram := r, cpus := cs\<rparr>)) tab ((PL(p := (t, n) # PL p)) q)"
      using bitmap_exact_cong [of "PL q" ?ts "tbs st"] by simp
  qed
  have run: "tb_alloc_page st t n a = (if first_tb d = None
      then andthen (tlb_protect_code (ram st) (cpus st) a) (\<lambda>(r, cs). Inr (?st\<lparr>ram := r, cpus := cs\<rparr>))
      else Inr ?st)"
    unfolding tb_alloc_page_def p [symmetric] m(1) using d by (simp add: upd_tb_def Let_def)
  show ?thesis
  proof (cases "first_tb d = None")
    case False
    with run have "tb_alloc_page st t n a = Inr ?st" by simp
    then show ?thesis
      by (rule that) (use prel [of "cpus st" "ram st"] in \<open>simp_all add: same_but_page_def\<close>)
  next
    case True
    obtain b where b: "ram_wf (ram st)" "b \<in> set (blocks (ram st))" "unat a \<in> ram_range b" "a AND 0xFFF = 0"
      using pg by (auto simp: ram_page_def)
    obtain r f where r: "tlb_protect_code (ram st) (cpus st) a = Inr (r, map (map_tlb f) (cpus st))"
      "ram_wf r" "set (blocks r) = set (blocks (ram st))"
      using protect_page [OF b] by metis
    with run True have "tb_alloc_page st t n a = Inr (?st\<lparr>ram := r, cpus := map (map_tlb f) (cpus st)\<rparr>)" by simp
    then show ?thesis
      by (rule that) (use prel r b in \<open>simp_all add: same_but_page_def map_tlb_def\<close>)
  qed
qed

definition abs_link :: "nat \<Rightarrow> u64 \<Rightarrow> u64 \<Rightarrow> TBLists \<Rightarrow> TBLists" where
  "abs_link t phys_pc page2 A =
     (let h = tb_phys_hash_func phys_pc;
          p0 = unat (drop_bit TARGET_PAGE_BITS (phys_pc AND TARGET_PAGE_MASK));
          p1 = unat (drop_bit TARGET_PAGE_BITS page2);
          PL = (apage A)(p0 := (t, 0) # apage A p0)
      in \<lparr>ahash = (ahash A)(h := t # ahash A h),
          apage = (if page2 = NO_PAGE then PL else PL(p1 := (t, 1) # PL p1)),
          ajmp = (ajmp A)(t := []), adead = adead A\<rparr>)"

lemma live_abs_link: "live (abs_link t phys_pc page2 A) = insert t (live A)"
  by (auto simp: live_def abs_link_def Let_def split: if_splits)

lemma known_abs_link: "known (abs_link t phys_pc page2 A) = insert t (known A)"
  by (simp add: known_def live_abs_link) (simp add: abs_link_def Let_def)

lemma jmp_rel_new:
  assumes rel: "jmp_rel ts L J" and t: "t \<notin> L"
    and same: "\<And>u. u \<noteq> t \<Longrightarrow> jmp_next (ts' u) = jmp_next (ts u) \<and> jmp_first (ts' u) = jmp_first (ts u)"
    and new: "jmp_first (ts' t) = Some (t, 2)" "jmp_next (ts' t) 0 = None" "jmp_next (ts' t) 1 = None"
  shows "jmp_rel ts' (insert t L) (J(t := []))"
proof -
  have slot: "jmp_slot ts' k = jmp_slot ts k" if "fst k \<noteq> t" for k
    using same [OF that] by (simp add: jmp_slot_def)
  have el: "fst k \<in> L" "snd k < 2" if "u \<in> L" "k \<in> set (J u)" for u k using rel that by (auto simp: jmp_rel_def)
  show ?thesis
    unfolding jmp_rel_def
  proof (intro conjI ballI allI impI)
    fix u assume u: "u \<in> insert t L"
    show "chain (jcut ts') (jmp_slot ts' (u, 2)) ((J(t := [])) u @ [(u, 2)])"
    proof (cases "u = t")
      case True
      then show ?thesis using new(1) by (simp add: jmp_slot_def jcut_def)
    next
      case False
      with u have uL: "u \<in> L" by simp
      have "chain (jcut ts') p (J u @ [(u, 2)]) = chain (jcut ts) p (J u @ [(u, 2)])" for p
      proof (rule jcut_chain_cong)
        fix k assume "k \<in> set (J u)"
        from el [OF uL this] t show "snd k < 2 \<and> jmp_slot ts' k = jmp_slot ts k" by (metis slot)
      qed
      with rel uL False slot [of "(u, 2)"] show ?thesis by (simp add: jmp_rel_def)
    qed
    show "fst k \<in> insert t L" "snd k < 2" if "k \<in> set ((J(t := [])) u)" for k
      using that u el [of u k] by (auto split: if_splits)
    fix m assume m: "m < (2 :: nat)" "jmp_slot ts' (u, m) \<noteq> None"
    have "u \<noteq> t" using m new(2,3) less_2_cases [OF m(1)] by (auto simp: jmp_slot_def)
    then have "jmp_slot ts (u, m) \<noteq> None" "u \<in> L" using m u slot [of "(u, m)"] by auto
    then obtain r where "r \<in> L" "(u, m) \<in> set (J r)" using rel m(1) unfolding jmp_rel_def by blast
    then show "\<exists>r \<in> insert t L. (u, m) \<in> set ((J(t := [])) r)" using t by (intro bexI [of _ r]) auto
  qed
qed

lemma hash_rel_new:
  assumes rel: "hash_rel st HL" and t: "\<forall>h. t \<notin> set (HL h)" "t < nb_tbs st"
    and same: "\<And>u. u \<noteq> t \<Longrightarrow> tbs st' u = tbs st u"
    and new: "phys_hash_next (tbs st' t) = tb_phys_hash st h" "tb_hash_index (tbs st' t) = h"
    and st': "tb_phys_hash st' = (tb_phys_hash st)(h := Some t)" "nb_tbs st' = nb_tbs st"
  shows "hash_rel st' (HL(h := t # HL h))"
proof -
  have ch: "chain (\<lambda>t. phys_hash_next (tbs st' t)) p (HL g) = chain (\<lambda>t. phys_hash_next (tbs st t)) p (HL g)" for g p
    by (rule lseg_cong) (metis t(1) same)
  have idx: "u < nb_tbs st \<and> tb_hash_index (tbs st' u) = g" if "u \<in> set (HL g)" for g u
  proof -
    have "u \<noteq> t" using that t(1) by blast
    then show ?thesis using rel that same [of u] by (simp add: hash_rel_def)
  qed
  show ?thesis
    unfolding hash_rel_def
  proof (intro conjI allI ballI)
    fix g
    show "chain (\<lambda>t. phys_hash_next (tbs st' t)) (tb_phys_hash st' g) ((HL(h := t # HL h)) g)"
      using rel ch [of _ g] ch [of _ h] new(1) by (auto simp: st' hash_rel_def)
    fix u assume "u \<in> set ((HL(h := t # HL h)) g)"
    then show "u < nb_tbs st'" "tb_hash_index (tbs st' u) = g"
      using idx t(2) new(2) by (auto simp: st' split: if_splits)
  qed
qed

lemma tb_page_upd_swap: "b\<lparr>page_next := n, page_addr := a\<rparr> = b\<lparr>page_addr := a, page_next := n\<rparr>"
  by (cases b) simp

lemma page_mask_index: "unat (drop_bit 12 (a AND - 4096 :: u64)) = unat (drop_bit 12 a)"
  by (simp only: same_page_drop [of "a AND - 4096" a] and.idem and.assoc)

definition link_frame :: "TBContext \<Rightarrow> TBContext \<Rightarrow> bool" where
  "link_frame st st' \<longleftrightarrow> code_gen_ptr st' = code_gen_ptr st \<and> code_gen_buffer st' = code_gen_buffer st \<and>
     code_gen_buffer_size st' = code_gen_buffer_size st \<and>
     code_gen_buffer_max_size st' = code_gen_buffer_max_size st \<and> code_gen_max_blocks st' = code_gen_max_blocks st \<and>
     tb_invalidated_flag st' = tb_invalidated_flag st \<and> ram_wf (ram st') = ram_wf (ram st) \<and> set (blocks (ram st')) = set (blocks (ram st))"

lemma tb_link_page_rel:
  assumes rel: "tb_rel st A" and t: "t < nb_tbs st" "t \<notin> known A"
    and off: "pc (tbs st t) AND 0xFFF = phys_pc AND 0xFFF"
    and pg0: "ram_page st (phys_pc AND TARGET_PAGE_MASK)" and pg1: "page2 = NO_PAGE \<or> ram_page st page2"
  obtains st' where "tb_link_page st t phys_pc page2 = Inr st'"
    and "tb_rel st' (abs_link t phys_pc page2 A)"
    and "\<And>u. u \<noteq> t \<Longrightarrow> tbs st' u = tbs st u"
    and "page_addr (tbs st' t) 0 = phys_pc AND TARGET_PAGE_MASK" "page_addr (tbs st' t) 1 = page2"
    and "pc (tbs st' t) = pc (tbs st t)" "cs_base (tbs st' t) = cs_base (tbs st t)"
      "tbflags (tbs st' t) = tbflags (tbs st t)" "tc_ptr (tbs st' t) = tc_ptr (tbs st t)"
      "tb_next_offset (tbs st' t) = tb_next_offset (tbs st t)" "tb_jmp_offset (tbs st' t) = tb_jmp_offset (tbs st t)"
    and "nb_tbs st' = nb_tbs st" "length (cpus st') = length (cpus st)" "link_frame st st'"
    and "code st' = reset_code (tbs st') (filter (\<lambda>k. tb_next_offset (tbs st t) (snd k) \<noteq> 0xffff) [(t, 0), (t, 1)])
           (code st)"
    and "tbsize (tbs st' t) = tbsize (tbs st t)" "cflags (tbs st' t) = cflags (tbs st t)"
proof -
  note R = rel [unfolded tb_rel_def]
  have tL: "t \<notin> live A" using t(2) live_known by blast
  define h where "h = tb_phys_hash_func phys_pc"
  define a0 where "a0 = phys_pc AND NOT (0xFFF :: u64)"
  define p0 where "p0 = unat (drop_bit 12 a0)"
  define p1 where "p1 = unat (drop_bit 12 page2)"
  define st1 where "st1 = upd_tb t (\<lambda>b. b\<lparr>phys_hash_next := tb_phys_hash st h\<rparr>)
      st\<lparr>tb_phys_hash := (tb_phys_hash st)(h := Some t)\<rparr>"
  have new: "(t, n) \<notin> set (apage A q)" if "q < V_PAGES" for n q
    using R tL that unfolding pages_ok_def by blast
  have rel1: "page_rel st1 (apage A)"
    using R page_rel_cong [of "apage A" "apage A" st1 st] by (simp add: st1_def upd_tb_def)
  have pgs: "ram_page st1 a0" using pg0 by (simp add: ram_page_def st1_def upd_tb_def a0_def)
  obtain st2 where r2: "tb_alloc_page st1 t 0 a0 = Inr st2"
    "page_rel st2 ((apage A)(p0 := (t, 0) # apage A p0))" "same_but_page st1 st2"
    "tbs st2 = (tbs st1)(t := (tbs st1 t)\<lparr>page_addr := (page_addr (tbs st1 t))(0 := a0),
           page_next := page_next (tbs st2 t)\<rparr>)"
    by (rule tb_alloc_page_rel [OF rel1 pgs p0_def, of t 0]) (use new in blast, rule that)
  obtain n0 where ts2: "tbs st2 = (tbs st1)(t := (tbs st1 t)\<lparr>page_addr := (page_addr (tbs st1 t))(0 := a0),
           page_next := n0\<rparr>)" by (rule that [OF r2(4)])
  let ?PL = "(apage A)(p0 := (t, 0) # apage A p0)"
  have "\<exists>st3 nx. (if page2 \<noteq> NO_PAGE then tb_alloc_page st2 t 1 page2
        else Inr (upd_tb t (\<lambda>b. b\<lparr>page_addr := (page_addr b)(1 := NO_PAGE)\<rparr>) st2)) = Inr st3
     \<and> page_rel st3 (if page2 = NO_PAGE then ?PL else ?PL(p1 := (t, 1) # ?PL p1)) \<and> same_but_page st1 st3
     \<and> tbs st3 = (tbs st1)(t := (tbs st1 t)\<lparr>page_addr := (page_addr (tbs st1 t))(0 := a0, 1 := page2),
           page_next := nx\<rparr>)"
  proof (cases "page2 = NO_PAGE")
    case True
    have "page_rel (upd_tb t (\<lambda>b. b\<lparr>page_addr := (page_addr b)(1 := NO_PAGE)\<rparr>) st2) ?PL = page_rel st2 ?PL"
      by (rule page_rel_cong) (simp_all add: upd_tb_def)
    with True r2(2,3) show ?thesis
      by (intro exI [of _ "upd_tb t (\<lambda>b. b\<lparr>page_addr := (page_addr b)(1 := NO_PAGE)\<rparr>) st2"] exI [of _ n0])
        (simp add: upd_tb_def same_but_page_def ts2 tb_page_upd_swap)
  next
    case False
    with pg1 r2(3) have "ram_page st2 page2"
      by (auto simp: ram_page_def same_but_page_def st1_def upd_tb_def)
    moreover have "\<forall>q < V_PAGES. (t, 1) \<notin> set (?PL q)" using new by auto
    ultimately have h1: "ram_page st2 page2" "\<forall>q < V_PAGES. (t, 1) \<notin> set (?PL q)" by blast+
    obtain st3 where r3: "tb_alloc_page st2 t 1 page2 = Inr st3"
      "page_rel st3 (?PL(p1 := (t, 1) # ?PL p1))" "same_but_page st2 st3"
      "tbs st3 = (tbs st2)(t := (tbs st2 t)\<lparr>page_addr := (page_addr (tbs st2 t))(1 := page2),
           page_next := page_next (tbs st3 t)\<rparr>)"
      by (rule tb_alloc_page_rel [OF r2(2) h1(1) p1_def h1(2)]) (rule that)
    from r3(4) obtain nx where "tbs st3 = (tbs st2)(t := (tbs st2 t)\<lparr>page_addr := (page_addr (tbs st2 t))(1 := page2),
           page_next := nx\<rparr>)" by (rule that)
    then have "tbs st3 = (tbs st1)(t := (tbs st1 t)\<lparr>page_addr := (page_addr (tbs st1 t))(0 := a0, 1 := page2),
           page_next := nx\<rparr>)" by (simp add: ts2)
    with False r3(1-3) r2(3) show ?thesis
      by (intro exI [of _ st3] exI [of _ nx]) (auto simp: same_but_page_def)
  qed
  then obtain st3 nx where r3: "(if page2 \<noteq> NO_PAGE then tb_alloc_page st2 t 1 page2
        else Inr (upd_tb t (\<lambda>b. b\<lparr>page_addr := (page_addr b)(1 := NO_PAGE)\<rparr>) st2)) = Inr st3"
     "page_rel st3 (if page2 = NO_PAGE then ?PL else ?PL(p1 := (t, 1) # ?PL p1))" "same_but_page st1 st3"
     "tbs st3 = (tbs st1)(t := (tbs st1 t)\<lparr>page_addr := (page_addr (tbs st1 t))(0 := a0, 1 := page2),
           page_next := nx\<rparr>)" by blast
  define st4 where "st4 = upd_tb t (\<lambda>b. b\<lparr>jmp_first := Some (t, 2), jmp_next := (jmp_next b)(0 := None, 1 := None)\<rparr>) st3"
  define st5 where "st5 = (if tb_next_offset (tbs st4 t) 0 \<noteq> 0xffff then tb_reset_jump st4 t 0 else st4)"
  define st6 where "st6 = (if tb_next_offset (tbs st5 t) 1 \<noteq> 0xffff then tb_reset_jump st5 t 1 else st5)"
  have s1: "(upd_tb t (\<lambda>b. b\<lparr>phys_hash_next := tb_phys_hash st h\<rparr>) st)\<lparr>tb_phys_hash :=
      (tb_phys_hash (upd_tb t (\<lambda>b. b\<lparr>phys_hash_next := tb_phys_hash st h\<rparr>) st))(h := Some t)\<rparr> = st1"
    by (simp add: st1_def upd_tb_def)
  have link: "tb_link_page st t phys_pc page2 = Inr st6"
    by (simp only: tb_link_page_def Let_def h_def [symmetric] s1 a0_def [symmetric] r2(1) r3(1)
        andthen_simps st4_def [symmetric] st5_def [symmetric] st6_def [symmetric])
  obtain c where st6: "st6 = st4\<lparr>code := c\<rparr>"
    by (rule that [of "code st6"]) (simp add: st6_def st5_def tb_reset_jump_def tb_set_jmp_target_def)
  have other: "tbs st6 u = tbs st u" if "u \<noteq> t" for u
    using that by (simp add: st6 st4_def upd_tb_def st1_def r3(4))
  have self: "tbs st6 t = (tbs st t)\<lparr>phys_hash_next := tb_phys_hash st h,
      page_addr := (page_addr (tbs st t))(0 := a0, 1 := page2), page_next := nx,
      jmp_first := Some (t, 2), jmp_next := (jmp_next (tbs st t))(0 := None, 1 := None)\<rparr>"
    by (simp add: st6 st4_def upd_tb_def r3(4) st1_def)
  let ?A = "abs_link t phys_pc page2 A"
  have PL: "apage ?A = (if page2 = NO_PAGE then ?PL else ?PL(p1 := (t, 1) # ?PL p1))"
    by (simp add: abs_link_def Let_def a0_def p0_def p1_def)
  have idx: "tb_hash_index (tbs st6 t) = h"
  proof -
    have "a0 + (phys_pc AND 0xFFF) = phys_pc" unfolding a0_def using page_split [of phys_pc] by simp
    then show ?thesis by (simp add: tb_hash_index_def self off h_def)
  qed
  have same6: "tb_phys_hash st6 = (tb_phys_hash st)(h := Some t)" "nb_tbs st6 = nb_tbs st"
    "map tb_jmp_cache (cpus st6) = map tb_jmp_cache (cpus st)"
    using r3(3) by (simp_all add: same_but_page_def st6 st4_def upd_tb_def st1_def)
  have "tb_rel st6 ?A"
    unfolding tb_rel_def live_abs_link known_abs_link
  proof (intro conjI)
    have "\<forall>g. t \<notin> set (ahash A g)" using tL by (auto simp: live_def)
    then have "hash_rel st6 ((ahash A)(h := t # ahash A h))"
      using hash_rel_new [of st "ahash A" t st6 h] R t(1) other self idx same6 by simp
    then show "hash_rel st6 (ahash ?A)" by (simp add: abs_link_def Let_def h_def)
    show "page_rel st6 (apage ?A)"
      unfolding PL using r3(2) page_rel_cong [of "apage ?A" "apage ?A" st6 st3]
      by (simp add: PL st6 st4_def upd_tb_def)
    have hp: "has_page (tbs st6 t) n \<longleftrightarrow> n = 0 \<or> n = 1 \<and> page2 \<noteq> NO_PAGE" for n by (simp add: has_page_def self)
    have tp: "tb_page (tbs st6 t) 0 = p0" "tb_page (tbs st6 t) 1 = p1" by (simp_all add: tb_page_def self p0_def p1_def)
    have V: "p0 < V_PAGES" "page2 \<noteq> NO_PAGE \<Longrightarrow> p1 < V_PAGES"
      using pg0 pg1 by (auto simp: ram_page_def p0_def a0_def p1_def)
    show "pages_ok (tbs st6) (insert t (live A)) (apage ?A)"
      unfolding pages_ok_def
    proof (intro conjI allI impI ballI)
      fix p u n assume p: "p < V_PAGES"
      have old: "(u, n) \<in> set (apage A p) \<longleftrightarrow> u \<in> live A \<and> has_page (tbs st u) n \<and> tb_page (tbs st u) n = p"
        using R p unfolding pages_ok_def by blast
      show "(u, n) \<in> set (apage ?A p) \<longleftrightarrow>
          u \<in> insert t (live A) \<and> has_page (tbs st6 u) n \<and> tb_page (tbs st6 u) n = p"
      proof (cases "u = t")
        case True
        then show ?thesis using old tL tp unfolding True PL hp
          by (cases "n = 0"; cases "n = 1") auto
      next
        case False
        then show ?thesis using old other [OF False] unfolding PL by auto
      qed
    next
      fix u n assume u: "u \<in> insert t (live A)" and hpu: "has_page (tbs st6 u) n"
      show "tb_page (tbs st6 u) n < V_PAGES"
      proof (cases "u = t")
        case True
        then show ?thesis using hpu V tp unfolding True hp by auto
      next
        case False
        with u hpu R other [OF False] show ?thesis unfolding pages_ok_def by auto
      qed
    qed
    have "jmp_rel (tbs st6) (insert t (known A)) ((ajmp A)(t := []))"
      by (rule jmp_rel_new [of "tbs st"]) (use R t(2) other self in auto)
    then show "jmp_rel (tbs st6) (insert t (known A)) (ajmp ?A)" by (simp add: abs_link_def Let_def)
    show "dead_ok st6 ?A"
      using R t(2) unfolding dead_ok_def live_abs_link known_def by (auto simp: abs_link_def Let_def same6)
    show "caches_ok st6 (insert t (live A))"
      unfolding caches_ok_def
    proof (intro ballI allI impI)
      fix env i u assume "env \<in> set (cpus st6)" and c: "tb_jmp_cache env i = Some u"
      then have "tb_jmp_cache env \<in> set (map tb_jmp_cache (cpus st))" using same6(3) by (metis imageI set_map)
      then obtain e where "e \<in> set (cpus st)" "tb_jmp_cache e = tb_jmp_cache env" by auto
      with R c have u: "u \<in> live A" "i = tb_jmp_cache_hash_func (pc (tbs st u))" by (auto simp: caches_ok_def)
      moreover have "u \<noteq> t" using u(1) tL by blast
      ultimately show "u \<in> insert t (live A) \<and> i = tb_jmp_cache_hash_func (pc (tbs st6 u))" by (simp add: other)
    qed
  qed
  moreover have "length (cpus st6) = length (cpus st)" using same6(3) map_eq_imp_length_eq by blast
  moreover have "link_frame st st6"
    using r3(3) by (simp add: link_frame_def same_but_page_def st6 st4_def upd_tb_def st1_def)
  moreover have "code st6 = reset_code (tbs st6)
      (filter (\<lambda>k. tb_next_offset (tbs st t) (snd k) \<noteq> 0xffff) [(t, 0), (t, 1)]) (code st)"
  proof -
    have o: "tb_next_offset (tbs st4 t) = tb_next_offset (tbs st t)" "tc_ptr (tbs st4 t) = tc_ptr (tbs st t)"
      "tb_jmp_offset (tbs st4 t) = tb_jmp_offset (tbs st t)"
      by (simp_all add: st4_def upd_tb_def r3(4) st1_def)
    have "code st4 = code st" using r3(3) by (simp add: same_but_page_def st4_def upd_tb_def st1_def)
    moreover have "code st6 = reset_code (tbs st4)
        (filter (\<lambda>k. tb_next_offset (tbs st t) (snd k) \<noteq> 0xffff) [(t, 0), (t, 1)]) (code st4)"
      by (simp add: st6_def st5_def tb_reset_jump_def tb_set_jmp_target_def reset_code_def o jaddr_def jexit_def)
    moreover have "tbs st6 = tbs st4" by (simp add: st6)
    ultimately show ?thesis by simp
  qed
  ultimately show ?thesis
    using link other same6(2) by (intro that [of st6]) (simp_all add: self a0_def)
qed

end
