(* ===== verification/TB_Code.thy ===== *)
theory TB_Code
  imports TB_Inv
begin

text \<open>
  The host code of the cache: where the direct jumps of the live blocks go. The lists of
  TB_Inv say which block a jump is linked to; here the bytes in the code buffer are related
  to them, through every patch. The state machine of the cache, translating, chaining,
  invalidating and flushing in any order, keeps both relations.
\<close>

section \<open>Jump instructions of a block\<close>

definition jop :: "(nat \<Rightarrow> TranslationBlock) \<Rightarrow> nat \<times> nat \<Rightarrow> u64" where
  "jop ts k = jaddr ts k - 1"

definition five :: "u64 \<Rightarrow> u64 set" where
  "five b = {b, b + 1, b + 2, b + 3, b + 4}"

definition jump_slots :: "(nat \<Rightarrow> TranslationBlock) \<Rightarrow> nat set \<Rightarrow> (nat \<times> nat) set" where
  "jump_slots ts L = {k. fst k \<in> L \<and> snd k < 2 \<and> tb_next_offset (ts (fst k)) (snd k) \<noteq> 0xffff}"

definition layout_ok :: "(nat \<Rightarrow> TranslationBlock) \<Rightarrow> nat set \<Rightarrow> code_mem \<Rightarrow> bool" where
  "layout_ok ts L c \<longleftrightarrow>
     (\<forall>k \<in> jump_slots ts L. c (jop ts k) = 0xe9 \<and> rel32_fits (jaddr ts k) (jexit ts k) \<and>
        (\<forall>t \<in> L. rel32_fits (jaddr ts k) (tc_ptr (ts t)))) \<and>
     (\<forall>k \<in> jump_slots ts L. \<forall>k' \<in> jump_slots ts L. k \<noteq> k' \<longrightarrow> five (jop ts k) \<inter> five (jop ts k') = {})"

text \<open>
  A jump that is in the list of a block leads to that block. A jump of a live block that is in
  no list leads to its exit; one of a block that is no longer live may still lead anywhere.
\<close>

definition jumps_ok ::
  "(nat \<Rightarrow> TranslationBlock) \<Rightarrow> nat set \<Rightarrow> nat set \<Rightarrow> (nat \<Rightarrow> (nat \<times> nat) list) \<Rightarrow> code_mem \<Rightarrow> bool" where
  "jumps_ok ts L K J c \<longleftrightarrow>
     (\<forall>t \<in> K. \<forall>k \<in> set (J t). k \<in> jump_slots ts K \<and> branch_target c (jop ts k) = Some (tc_ptr (ts t))) \<and>
     (\<forall>k \<in> jump_slots ts L. (\<forall>t \<in> K. k \<notin> set (J t)) \<longrightarrow> branch_target c (jop ts k) = Some (jexit ts k))"

lemma jump_slots_mono: "L \<subseteq> K \<Longrightarrow> jump_slots ts L \<subseteq> jump_slots ts K"
  by (auto simp: jump_slots_def)

lemma branch_target_cong:
  assumes "\<And>a. a \<in> five b \<Longrightarrow> m a = m' a"
  shows "branch_target m b = branch_target m' b"
proof -
  have "m b = m' b" "m (b + 1) = m' (b + 1)" "m (b + 1 + 1) = m' (b + 1 + 1)" "m (b + 1 + 2) = m' (b + 1 + 2)"
    "m (b + 1 + 3) = m' (b + 1 + 3)" by (auto intro!: assms simp: five_def add.assoc)
  then show ?thesis unfolding branch_target_def load32_def by simp
qed

lemma patch_slot:
  assumes lay: "layout_ok ts L c" and k: "k \<in> jump_slots ts L" and fits: "rel32_fits (jaddr ts k) a"
  shows "branch_target (tb_set_jmp_target1 c (jaddr ts k) a) (jop ts k) = Some a"
    and "layout_ok ts L (tb_set_jmp_target1 c (jaddr ts k) a)"
    and "\<And>k'. k' \<in> jump_slots ts L \<Longrightarrow> k' \<noteq> k \<Longrightarrow>
      branch_target (tb_set_jmp_target1 c (jaddr ts k) a) (jop ts k') = branch_target c (jop ts k')"
proof -
  have j: "jaddr ts k = jop ts k + 1" by (simp add: jop_def)
  have e9: "c (jop ts k) = 0xe9" using lay k by (simp add: layout_ok_def)
  note tgt = set_jmp_target1_target [of c "jop ts k" a, OF e9 fits [unfolded j]]
  have keep: "tb_set_jmp_target1 c (jaddr ts k) a x = c x" if "x \<notin> five (jop ts k)" for x
    unfolding j by (rule set_jmp_target1_other) (use that in \<open>simp add: five_def\<close>)
  have dj: "five (jop ts k') \<inter> five (jop ts k) = {}" if "k' \<in> jump_slots ts L" "k' \<noteq> k" for k'
    using lay k that by (simp add: layout_ok_def)
  show "branch_target (tb_set_jmp_target1 c (jaddr ts k) a) (jop ts k) = Some a"
    unfolding j by (rule tgt(1))
  show "branch_target (tb_set_jmp_target1 c (jaddr ts k) a) (jop ts k') = branch_target c (jop ts k')"
    if "k' \<in> jump_slots ts L" "k' \<noteq> k" for k'
    by (rule branch_target_cong, rule keep) (use dj [OF that] in blast)
  have "tb_set_jmp_target1 c (jaddr ts k) a (jop ts k') = 0xe9" if k': "k' \<in> jump_slots ts L" for k'
  proof (cases "k' = k")
    case True
    then show ?thesis unfolding True j by (simp add: tgt(2))
  next
    case False
    have "jop ts k' \<in> five (jop ts k')" by (simp add: five_def)
    then have "jop ts k' \<notin> five (jop ts k)" using dj [OF k' False] by blast
    then show ?thesis using keep lay k' by (simp add: layout_ok_def)
  qed
  then show "layout_ok ts L (tb_set_jmp_target1 c (jaddr ts k) a)" using lay by (simp add: layout_ok_def)
qed

lemma reset_code_slots:
  assumes "layout_ok ts L c" and "set ks \<subseteq> jump_slots ts L"
  shows "layout_ok ts L (reset_code ts ks c) \<and>
    (\<forall>k \<in> jump_slots ts L. branch_target (reset_code ts ks c) (jop ts k) =
       (if k \<in> set ks then Some (jexit ts k) else branch_target c (jop ts k)))"
  using assms
proof (induction ks arbitrary: c)
  case Nil
  then show ?case by (simp add: reset_code_def)
next
  case (Cons x xs)
  have x: "x \<in> jump_slots ts L" "rel32_fits (jaddr ts x) (jexit ts x)" "set xs \<subseteq> jump_slots ts L"
    using Cons.prems by (auto simp: layout_ok_def)
  note p = patch_slot [OF Cons.prems(1) x(1,2)]
  have e: "reset_code ts (x # xs) c = reset_code ts xs (tb_set_jmp_target1 c (jaddr ts x) (jexit ts x))"
    by (simp add: reset_code_def)
  show ?case
    unfolding e using Cons.IH [OF p(2) x(3)] p(1,3) by auto
qed

section \<open>Chaining and invalidating\<close>

lemma slots_cong:
  assumes "\<And>u. tb_core (ts' u) = tb_core (ts u)"
  shows "jop ts' = jop ts" "jump_slots ts' L = jump_slots ts L" "layout_ok ts' L c = layout_ok ts L c"
    "jumps_ok ts' L K J c = jumps_ok ts L K J c"
proof -
  note c = tb_core_eqD(3,8) [OF assms] jaddr_cong [of ts' ts, OF assms] jexit_cong [of ts' ts, OF assms]
  show "jop ts' = jop ts" by (simp add: jop_def fun_eq_iff c)
  moreover show "jump_slots ts' L = jump_slots ts L" for L by (simp add: jump_slots_def c)
  ultimately show "layout_ok ts' L c = layout_ok ts L c" "jumps_ok ts' L K J c = jumps_ok ts L K J c"
    by (simp_all add: layout_ok_def jumps_ok_def c)
qed

lemma jumps_ok_add:
  assumes lay: "layout_ok ts K c" and ok: "jumps_ok ts L K J c" and rel: "jmp_rel ts K J" and LK: "L \<subseteq> K"
    and k: "(s, n) \<in> jump_slots ts K" and t: "t \<in> K" and free: "jmp_slot ts (s, n) = None"
  shows "jumps_ok ts L K (J(t := (s, n) # J t)) (tb_set_jmp_target1 c (jaddr ts (s, n)) (tc_ptr (ts t)))"
proof -
  have fits: "rel32_fits (jaddr ts (s, n)) (tc_ptr (ts t))" using lay k t by (simp add: layout_ok_def)
  note p = patch_slot [OF lay k fits]
  have n: "n < 2" using k by (simp add: jump_slots_def)
  have out: "(s, n) \<notin> set (J u)" if "u \<in> K" for u by (rule jmp_rel_free [OF rel that free n])
  show ?thesis
    unfolding jumps_ok_def
  proof (intro conjI ballI impI)
    fix u k' assume u: "u \<in> K" and k': "k' \<in> set ((J(t := (s, n) # J t)) u)"
    show "k' \<in> jump_slots ts K" using ok u k k' by (auto simp: jumps_ok_def split: if_splits)
    show "branch_target (tb_set_jmp_target1 c (jaddr ts (s, n)) (tc_ptr (ts t))) (jop ts k') = Some (tc_ptr (ts u))"
    proof (cases "k' = (s, n)")
      case True
      then have "u = t" using k' out [OF u] by (auto split: if_splits)
      with True p(1) show ?thesis by simp
    next
      case False
      then have "k' \<in> set (J u)" using k' by (auto split: if_splits)
      with ok u have "k' \<in> jump_slots ts K" "branch_target c (jop ts k') = Some (tc_ptr (ts u))"
        by (auto simp: jumps_ok_def)
      with p(3) False show ?thesis by simp
    qed
  next
    fix k' assume k': "k' \<in> jump_slots ts L" and no: "\<forall>u \<in> K. k' \<notin> set ((J(t := (s, n) # J t)) u)"
    have ne: "k' \<noteq> (s, n)" using no t by auto
    have kK: "k' \<in> jump_slots ts K" using k' jump_slots_mono [OF LK] by blast
    have "\<forall>u \<in> K. k' \<notin> set (J u)" using no by (auto split: if_splits)
    with ok k' have "branch_target c (jop ts k') = Some (jexit ts k')" by (simp add: jumps_ok_def)
    with p(3) [OF kK ne] show "branch_target (tb_set_jmp_target1 c (jaddr ts (s, n)) (tc_ptr (ts t))) (jop ts k') =
       Some (jexit ts k')" by simp
  qed
qed

lemma jumps_ok_invalidate:
  assumes lay: "layout_ok ts K c" and ok: "jumps_ok ts L K J c" and rel: "jmp_rel ts K J" and LK: "L \<subseteq> K" and t: "t \<in> K"
  defines "c' \<equiv> reset_code ts (filter (\<lambda>k. fst k \<noteq> t) (J t)) c"
  shows "layout_ok ts K c'" and "jumps_ok ts (L - {t}) K ((\<lambda>s. filter (\<lambda>k. fst k \<noteq> t) (J s))(t := [])) c'"
proof -
  let ?J = "(\<lambda>s. filter (\<lambda>k. fst k \<noteq> t) (J s))(t := [])"
  have ks: "set (filter (\<lambda>k. fst k \<noteq> t) (J t)) \<subseteq> jump_slots ts K" using ok t by (auto simp: jumps_ok_def)
  note r = reset_code_slots [OF lay ks, folded c'_def]
  have sub: "jump_slots ts (L - {t}) = {k \<in> jump_slots ts L. fst k \<noteq> t}" by (auto simp: jump_slots_def)
  show "layout_ok ts K c'" using r by blast
  show "jumps_ok ts (L - {t}) K ?J c'"
    unfolding jumps_ok_def
  proof (intro conjI ballI impI)
    fix u k assume u: "u \<in> K" and k: "k \<in> set (?J u)"
    then have ut: "u \<noteq> t" "k \<in> set (J u)" by (auto split: if_splits)
    then have k1: "k \<in> jump_slots ts K" "branch_target c (jop ts k) = Some (tc_ptr (ts u))"
      using ok u by (auto simp: jumps_ok_def)
    show "k \<in> jump_slots ts K" by (rule k1(1))
    have "k \<notin> set (J t)" using jmp_rel_disjoint [OF rel t u _ ut(2)] ut(1) by blast
    with k1 r show "branch_target c' (jop ts k) = Some (tc_ptr (ts u))" by simp
  next
    fix k assume k: "k \<in> jump_slots ts (L - {t})" and no: "\<forall>u \<in> K. k \<notin> set (?J u)"
    have k1: "k \<in> jump_slots ts L" "fst k \<noteq> t" using k by (auto simp: sub)
    have k2: "k \<in> jump_slots ts K" using k1(1) jump_slots_mono [OF LK] by blast
    show "branch_target c' (jop ts k) = Some (jexit ts k)"
    proof (cases "k \<in> set (J t)")
      case True
      with r k1 k2 show ?thesis by simp
    next
      case False
      then have "\<forall>u \<in> K. k \<notin> set (J u)" using no k1(2) by (auto split: if_splits)
      with ok k1 have "branch_target c (jop ts k) = Some (jexit ts k)" by (simp add: jumps_ok_def)
      with r k2 False show ?thesis by simp
    qed
  qed
qed

section \<open>Blocks that are not in the cache\<close>

lemma chain_cong_on:
  assumes "\<And>x. x \<in> set xs \<Longrightarrow> nx' x = nx x"
  shows "chain nx' p xs = chain nx p xs"
  using lseg_cong [of xs nx' nx p None] assms by blast

lemma jmp_rel_cong_on:
  assumes f: "\<And>u. u \<in> L \<Longrightarrow> jmp_next (ts' u) = jmp_next (ts u) \<and> jmp_first (ts' u) = jmp_first (ts u)"
    and rel: "jmp_rel ts L J"
  shows "jmp_rel ts' L J"
proof -
  have s: "jmp_slot ts' k = jmp_slot ts k" if "fst k \<in> L" for k
    using f [OF that] by (cases k) (auto simp: jmp_slot_def)
  have el: "fst k \<in> L" if "t \<in> L" "k \<in> set (J t)" for t k using rel that by (auto simp: jmp_rel_def)
  have "chain (jcut ts') p (J t @ [(t, 2)]) = chain (jcut ts) p (J t @ [(t, 2)])" if t: "t \<in> L" for t p
    by (rule chain_cong_on) (use el [OF t] t s in \<open>auto simp: jcut_def\<close>)
  with rel s show ?thesis by (simp add: jmp_rel_def)
qed

lemma tb_rel_dead:
  assumes rel: "tb_rel st A" and tk: "\<And>u. u \<in> known A \<Longrightarrow> tbs st' u = tbs st u"
    and same: "tb_phys_hash st' = tb_phys_hash st" "l1_map st' = l1_map st" "nb_tbs st \<le> nb_tbs st'"
      "map tb_jmp_cache (cpus st') = map tb_jmp_cache (cpus st)"
  shows "tb_rel st' A"
proof -
  note R = rel [unfolded tb_rel_def]
  have ts: "tbs st' u = tbs st u" if "u \<in> live A" for u using tk live_known that by blast
  have "hash_rel st' (ahash A)"
    unfolding hash_rel_def
  proof (intro conjI allI ballI)
    fix h
    have L: "u \<in> live A" if "u \<in> set (ahash A h)" for u using that by (auto simp: live_def)
    have "chain (\<lambda>t. phys_hash_next (tbs st' t)) p (ahash A h) = chain (\<lambda>t. phys_hash_next (tbs st t)) p (ahash A h)" for p
      by (rule chain_cong_on) (simp add: ts L)
    then show "chain (\<lambda>t. phys_hash_next (tbs st' t)) (tb_phys_hash st' h) (ahash A h)"
      using R by (simp add: hash_rel_def same)
    fix u assume u: "u \<in> set (ahash A h)"
    then have "u < nb_tbs st" "tb_hash_index (tbs st u) = h" using R by (auto simp: hash_rel_def)
    then show "u < nb_tbs st'" "tb_hash_index (tbs st' u) = h" using same(3) ts [OF L [OF u]] by auto
  qed
  moreover have "page_rel st' (apage A)"
  proof -
    have "chain (\<lambda>k. page_next (tbs st' (fst k)) (snd k)) q (apage A p) =
        chain (\<lambda>k. page_next (tbs st (fst k)) (snd k)) q (apage A p)" if p: "p < V_PAGES" for p q
    proof (rule chain_cong_on)
      fix k assume k: "k \<in> set (apage A p)"
      obtain t n where tn: "k = (t, n)" by fastforce
      have "t \<in> live A" using R p k unfolding pages_ok_def tn by blast
      then have "fst k \<in> live A" by (simp add: tn)
      then show "page_next (tbs st' (fst k)) (snd k) = page_next (tbs st (fst k)) (snd k)" by (simp add: ts)
    qed
    moreover have "bitmap_exact (tbs st') tab (apage A p) = bitmap_exact (tbs st) tab (apage A p)" if p: "p < V_PAGES" for p tab
    proof (rule bitmap_exact_cong)
      fix k assume k: "k \<in> set (apage A p)"
      obtain t n where tn: "k = (t, n)" by fastforce
      have "t \<in> live A" using R p k unfolding pages_ok_def tn by blast
      then show "pc (tbs st' (fst k)) = pc (tbs st (fst k)) \<and> tbsize (tbs st' (fst k)) = tbsize (tbs st (fst k))"
        by (simp add: tn ts)
    qed
    ultimately show ?thesis using R by (simp add: page_rel_def page_first_def same)
  qed
  moreover have "pages_ok (tbs st') (live A) (apage A)"
    using R ts unfolding pages_ok_def by auto
  moreover have "jmp_rel (tbs st') (known A) (ajmp A)"
    by (rule jmp_rel_cong_on [of _ _ "tbs st"]) (use R tk in auto)
  moreover have "dead_ok st' A" using R same(3) by (auto simp: dead_ok_def)
  moreover have "caches_ok st' (live A)"
    unfolding caches_ok_def
  proof (intro ballI allI impI)
    fix env i t assume "env \<in> set (cpus st')" and c: "tb_jmp_cache env i = Some t"
    then have "tb_jmp_cache env \<in> set (map tb_jmp_cache (cpus st))" using same(4) by (metis imageI set_map)
    then obtain e where "e \<in> set (cpus st)" "tb_jmp_cache e = tb_jmp_cache env" by auto
    with R c have "t \<in> live A" "i = tb_jmp_cache_hash_func (pc (tbs st t))" by (auto simp: caches_ok_def)
    then show "t \<in> live A \<and> i = tb_jmp_cache_hash_func (pc (tbs st' t))" by (simp add: ts)
  qed
  ultimately show ?thesis by (simp add: tb_rel_def)
qed

lemma live_less: "tb_rel st A \<Longrightarrow> t \<in> live A \<Longrightarrow> t < nb_tbs st"
  by (auto simp: tb_rel_def hash_rel_def live_def)

section \<open>Flushing\<close>

definition no_lists :: TBLists where
  "no_lists = \<lparr>ahash = (\<lambda>_. []), apage = (\<lambda>_. []), ajmp = (\<lambda>_. []), adead = {}\<rparr>"

lemma live_no_lists [simp]: "live no_lists = {}" "known no_lists = {}" "adead no_lists = {}"
  by (simp_all add: live_def no_lists_def known_def)

lemma tb_hash_index_less: "tb_hash_index b < CODE_GEN_PHYS_HASH_SIZE"
  using unat_and_mask [of "page_addr b 0 + (pc b AND 0xFFF)" 15]
  by (simp add: tb_hash_index_def tb_phys_hash_func_def mask_eq_exp_minus_1)

lemma tb_flush_rel:
  assumes rel: "tb_rel st A" and fl: "tb_flush st = Inr st'"
  shows "tb_rel st' no_lists"
proof -
  note R = rel [unfolded tb_rel_def]
  have st': "st' = st\<lparr>nb_tbs := 0,
       cpus := map (\<lambda>env. env\<lparr>tb_jmp_cache := clear_ptrs 0 TB_JMP_CACHE_SIZE (tb_jmp_cache env)\<rparr>) (cpus st),
       tb_phys_hash := clear_ptrs 0 CODE_GEN_PHYS_HASH_SIZE (tb_phys_hash st),
       l1_map := page_flush_tb (l1_map st), code_gen_ptr := code_gen_buffer st\<rparr>"
    using fl by (simp add: tb_flush_def split: if_splits)
  have wf: "wf_map V_SPACE (l1_map st)" using R by (simp add: page_rel_def)
  have "tb_phys_hash st' h = None" for h
  proof (cases "h < CODE_GEN_PHYS_HASH_SIZE")
    case True
    then show ?thesis by (simp add: st' clear_ptrs_def)
  next
    case False
    have "ahash A h = []"
    proof (rule ccontr)
      assume "ahash A h \<noteq> []"
      then have "tb_hash_index (tbs st (hd (ahash A h))) = h" using R by (simp add: hash_rel_def)
      with False tb_hash_index_less [of "tbs st (hd (ahash A h))"] show False by simp
    qed
    moreover have "chain (\<lambda>t. phys_hash_next (tbs st t)) (tb_phys_hash st h) (ahash A h)"
      using R by (simp add: hash_rel_def)
    ultimately show ?thesis using False by (simp add: st' clear_ptrs_def)
  qed
  moreover have "page_first st' p = None" for p
    using page_flush_tb_get [OF wf] by (simp add: page_first_def st' invalidate_page_bitmap_def split: option.splits)
  moreover have "page_bitmap (l1_map st') p = None" for p
    using page_flush_tb_get [OF wf] by (simp add: page_bitmap_def st' invalidate_page_bitmap_def split: option.splits)
  moreover have "tb_jmp_cache env i = None" if "env \<in> set (cpus st')" for env i
  proof -
    from that obtain e where e: "e \<in> set (cpus st)"
      "env = e\<lparr>tb_jmp_cache := clear_ptrs 0 TB_JMP_CACHE_SIZE (tb_jmp_cache e)\<rparr>" by (auto simp: st')
    show ?thesis
    proof (cases "i < TB_JMP_CACHE_SIZE")
      case False
      have "tb_jmp_cache e i = None"
      proof (rule ccontr)
        assume "tb_jmp_cache e i \<noteq> None"
        then obtain u where "tb_jmp_cache e i = Some u" by blast
        then have "i = tb_jmp_cache_hash_func (pc (tbs st u))" using R e(1) by (simp add: caches_ok_def)
        with False hash_func_less [of "pc (tbs st u)"] show False by simp
      qed
      then show ?thesis by (simp add: e clear_ptrs_def)
    qed (simp add: e clear_ptrs_def)
  qed
  moreover have "wf_map V_SPACE (l1_map st')" using page_flush_tb_wf [OF wf] by (simp add: st')
  ultimately show ?thesis
    by (simp add: tb_rel_def hash_rel_def page_rel_def pages_ok_def jmp_rel_def caches_ok_def dead_ok_def)
       (simp add: no_lists_def)
qed

section \<open>The code buffer\<close>

text \<open>The code of every block since the last flush lies in the used part of the buffer, and the
  buffer is small enough for 32-bit displacements.\<close>

definition placed :: "nat \<Rightarrow> nat \<Rightarrow> (nat \<Rightarrow> TranslationBlock) \<Rightarrow> nat \<times> nat \<Rightarrow> bool" where
  "placed lo hi ts k \<longleftrightarrow> lo \<le> unat (jop ts k) \<and> unat (jop ts k) + 5 \<le> hi \<and>
     lo \<le> unat (jexit ts k) \<and> unat (jexit ts k) \<le> hi"

definition buffer_ok :: "TBContext \<Rightarrow> bool" where
  "buffer_ok st \<longleftrightarrow> unat (code_gen_buffer st) \<le> unat (code_gen_ptr st) \<and>
     unat (code_gen_ptr st) \<le> unat (code_gen_buffer st) + unat (code_gen_buffer_size st) \<and>
     unat (code_gen_buffer st) + unat (code_gen_buffer_size st) < 2 ^ 64 \<and>
     unat (code_gen_buffer_size st) \<le> 2 ^ 30"

definition extent_ok :: "nat \<Rightarrow> nat \<Rightarrow> (nat \<Rightarrow> TranslationBlock) \<Rightarrow> nat set \<Rightarrow> bool" where
  "extent_ok lo hi ts L \<longleftrightarrow> (\<forall>t \<in> L. lo \<le> unat (tc_ptr (ts t)) \<and> unat (tc_ptr (ts t)) \<le> hi) \<and>
     (\<forall>k \<in> jump_slots ts L. placed lo hi ts k)"

lemma rel32_near:
  fixes a j :: u64
  assumes "unat j + 4 < 2 ^ 64" and "lo \<le> unat j + 4" "unat j + 4 \<le> lo + 2 ^ 30"
    and "lo \<le> unat a" "unat a \<le> lo + 2 ^ 30"
  shows "rel32_fits j a"
proof -
  obtain x y where xy: "unat a = x" "unat j = y" by blast
  define z where "z = int x - int y - 4"
  have p: "(2 :: nat) ^ 30 = 1073741824" "(2 :: int) ^ 31 = 2147483648" by simp_all
  have z: "- (2 ^ 31) \<le> z" "z < 2 ^ 31" using assms(2-5) unfolding z_def xy p by linarith+
  have w: "a - (j + 4) = word_of_int z" unfolding z_def xy [symmetric] by simp
  have s: "signed_take_bit 31 z = z" using z by (intro signed_take_bit_int_eq_self) simp_all
  have "scast (ucast (word_of_int z :: u64) :: u32) = (word_of_int z :: u64)"
    using s by transfer (simp add: signed_take_bit_take_bit)
  then show ?thesis unfolding rel32_fits_def w .
qed

lemma five_range:
  assumes "unat b + 5 \<le> 2 ^ 64" and "x \<in> five b"
  shows "unat b \<le> unat x" "unat x < unat b + 5"
proof -
  have "unat (b + 1) = unat b + 1" "unat (b + 2) = unat b + 2" "unat (b + 3) = unat b + 3"
    "unat (b + 4) = unat b + 4" using assms(1) by (simp_all add: unat_word_ariths)
  with assms(2) show "unat b \<le> unat x" "unat x < unat b + 5" by (auto simp: five_def)
qed

lemma five_apart:
  assumes "unat b + 5 \<le> unat b'" and "unat b' + 5 \<le> 2 ^ 64"
  shows "five b \<inter> five b' = {}"
proof -
  have b: "unat b + 5 \<le> 2 ^ 64" using assms by linarith
  show ?thesis
  proof (rule equals0I)
    fix x assume "x \<in> five b \<inter> five b'"
    then have "unat x < unat b + 5" "unat b' \<le> unat x" using five_range [OF b] five_range [OF assms(2)] by blast+
    with assms(1) show False by linarith
  qed
qed

lemma placed_fits:
  assumes k: "placed lo hi ts k" and a: "lo \<le> unat a" "unat a \<le> hi" and hi: "hi \<le> lo + 2 ^ 30" "hi < 2 ^ 64"
  shows "rel32_fits (jaddr ts k) a"
proof -
  have "unat (jop ts k) + 5 < 2 ^ 64" using k hi by (simp add: placed_def)
  then have "unat (jop ts k + 1) = unat (jop ts k) + 1" by (simp add: unat_word_ariths)
  then have j: "unat (jaddr ts k) = unat (jop ts k) + 1" by (simp add: jop_def)
  show ?thesis
    by (rule rel32_near [of _ lo]) (use k a hi in \<open>simp_all add: j placed_def\<close>)
qed

text \<open>A new block behind the used part.\<close>

lemma jump_slots_insert:
  assumes "\<And>u. u \<in> L \<Longrightarrow> ts' u = ts u" and "t \<notin> L"
  shows "jump_slots ts' (insert t L) = jump_slots ts L \<union> jump_slots ts' {t}"
  using assms by (auto simp: jump_slots_def)

lemma slot_fields:
  assumes "ts' (fst k) = ts (fst k)"
  shows "jop ts' k = jop ts k" "jexit ts' k = jexit ts k" "jaddr ts' k = jaddr ts k" "placed lo hi ts' k = placed lo hi ts k"
  using assms by (simp_all add: jop_def jexit_def jaddr_def placed_def)

lemma placed_mono: "placed lo hi ts k \<Longrightarrow> lo' \<le> lo \<Longrightarrow> hi \<le> hi' \<Longrightarrow> placed lo' hi' ts k"
  by (auto simp: placed_def)

lemma layout_new:
  assumes lay: "layout_ok ts L c" and ext: "extent_ok lo mid ts L" and t: "t \<notin> L"
    and ts: "\<And>u. u \<in> L \<Longrightarrow> ts' u = ts u" and c: "\<And>a. unat a < mid \<Longrightarrow> c' a = c a"
    and new: "\<And>k. k \<in> jump_slots ts' {t} \<Longrightarrow> placed mid hi ts' k \<and> c' (jop ts' k) = 0xe9"
    and apart: "\<And>k k'. k \<in> jump_slots ts' {t} \<Longrightarrow> k' \<in> jump_slots ts' {t} \<Longrightarrow> k \<noteq> k' \<Longrightarrow>
      five (jop ts' k) \<inter> five (jop ts' k') = {}"
    and tc: "mid = unat (tc_ptr (ts' t))" and b: "lo \<le> mid" "mid \<le> hi" "hi \<le> lo + 2 ^ 30" "hi < 2 ^ 64"
  shows "layout_ok ts' (insert t L) c'" and "extent_ok lo hi ts' (insert t L)"
    and "\<And>k. k \<in> jump_slots ts L \<Longrightarrow> branch_target c' (jop ts' k) = branch_target c (jop ts k)"
proof -
  have old: "jop ts' k = jop ts k" "placed lo mid ts' k" "c' (jop ts' k) = 0xe9" "fst k \<in> L"
    if k: "k \<in> jump_slots ts L" for k
  proof -
    show L: "fst k \<in> L" using k by (simp add: jump_slots_def)
    note f = slot_fields [of ts' k ts, OF ts [OF L]]
    show "jop ts' k = jop ts k" by (rule f(1))
    show p: "placed lo mid ts' k" using ext k f(4) by (simp add: extent_ok_def)
    have "c (jop ts k) = 0xe9" using lay k by (simp add: layout_ok_def)
    moreover have "unat (jop ts k) < mid" using p by (simp add: placed_def f(1))
    ultimately show "c' (jop ts' k) = 0xe9" using c by (simp add: f(1))
  qed
  have ins: "jump_slots ts' (insert t L) = jump_slots ts L \<union> jump_slots ts' {t}"
    by (rule jump_slots_insert [OF ts t])
  have pl: "placed lo hi ts' k" "c' (jop ts' k) = 0xe9" if k: "k \<in> jump_slots ts' (insert t L)" for k
    using that old(2,3) new b placed_mono unfolding ins by blast+
  have tcs: "lo \<le> unat (tc_ptr (ts' u))" "unat (tc_ptr (ts' u)) \<le> hi" if u: "u \<in> insert t L" for u
  proof -
    have "u = t \<or> lo \<le> unat (tc_ptr (ts' u)) \<and> unat (tc_ptr (ts' u)) \<le> mid" using ext u by (auto simp: extent_ok_def ts)
    then show "lo \<le> unat (tc_ptr (ts' u))" "unat (tc_ptr (ts' u)) \<le> hi" using b tc by auto
  qed
  show "extent_ok lo hi ts' (insert t L)" using pl(1) tcs by (simp add: extent_ok_def)
  have ob: "unat (jop ts' k) + 5 \<le> mid" if "k \<in> jump_slots ts L" for k using old(2) [OF that] by (simp add: placed_def)
  have nb: "mid \<le> unat (jop ts' k)" "unat (jop ts' k) + 5 \<le> 2 ^ 64" if "k \<in> jump_slots ts' {t}" for k
    using new [OF that] b by (simp_all add: placed_def)
  have cross: "five (jop ts' k) \<inter> five (jop ts' k') = {}" if "k \<in> jump_slots ts L" "k' \<in> jump_slots ts' {t}" for k k'
    using ob [OF that(1)] nb [OF that(2)] by (intro five_apart) linarith+
  have "five (jop ts' k) \<inter> five (jop ts' k') = {}"
    if k: "k \<in> jump_slots ts' (insert t L)" "k' \<in> jump_slots ts' (insert t L)" "k \<noteq> k'" for k k'
  proof -
    consider "k \<in> jump_slots ts L" "k' \<in> jump_slots ts L" | "k \<in> jump_slots ts L" "k' \<in> jump_slots ts' {t}"
      | "k \<in> jump_slots ts' {t}" "k' \<in> jump_slots ts L" | "k \<in> jump_slots ts' {t}" "k' \<in> jump_slots ts' {t}"
      using k(1,2) unfolding ins by blast
    then show ?thesis
    proof cases
      case 1
      then have "five (jop ts k) \<inter> five (jop ts k') = {}" using lay k(3) by (simp add: layout_ok_def)
      then show ?thesis by (simp add: old(1) [OF 1(1)] old(1) [OF 1(2)])
    next
      case 3
      with cross [of k' k] show ?thesis by blast
    qed (use cross apart k(3) in blast)+
  qed
  moreover have "rel32_fits (jaddr ts' k) (jexit ts' k) \<and> (\<forall>u \<in> insert t L. rel32_fits (jaddr ts' k) (tc_ptr (ts' u)))"
    if k: "k \<in> jump_slots ts' (insert t L)" for k
    using placed_fits [OF pl(1) [OF k] _ _ b(3,4)] pl(1) [OF k] tcs by (auto simp: placed_def)
  ultimately show "layout_ok ts' (insert t L) c'" using pl(2) by (simp add: layout_ok_def)
  fix k assume k: "k \<in> jump_slots ts L"
  show "branch_target c' (jop ts' k) = branch_target c (jop ts k)"
    unfolding old(1) [OF k]
  proof (rule branch_target_cong, rule c)
    fix a assume "a \<in> five (jop ts k)"
    moreover have "unat (jop ts k) + 5 \<le> mid" using ob [OF k] by (simp add: old(1) [OF k])
    ultimately show "unat a < mid" using five_range(2) [of "jop ts k" a] b by linarith
  qed
qed

section \<open>Translating a block\<close>

text \<open>A block covers between one byte and one page of guest code, and has a second page exactly
  when that code leaves the first one.\<close>

definition tb_block_ok :: "TranslationBlock \<Rightarrow> bool" where
  "tb_block_ok b \<longleftrightarrow> 0 < unat (tbsize b) \<and> unat (tbsize b) \<le> 4096 \<and> page_addr b 0 AND 0xFFF = 0 \<and>
     (page_addr b 1 = NO_PAGE \<or> page_addr b 1 AND 0xFFF = 0) \<and>
     (page_addr b 1 = NO_PAGE \<longleftrightarrow> unat (pc b AND 0xFFF) + unat (tbsize b) \<le> 4096)"

lemma tb_block_ok_core: "tb_core b' = tb_core b \<Longrightarrow> tb_block_ok b' = tb_block_ok b"
  using tb_core_eqD [of b' b] by (simp add: tb_block_ok_def)

text \<open>The physical addresses of the bytes of guest code that a block was translated from.\<close>

definition code_byte :: "TranslationBlock \<Rightarrow> nat \<Rightarrow> nat" where
  "code_byte b j =
     (let x = unat (pc b AND 0xFFF) + j
      in if x < 4096 then unat (page_addr b 0) + x else unat (page_addr b 1) + (x - 4096))"

definition code_bytes :: "TranslationBlock \<Rightarrow> nat set" where
  "code_bytes b = code_byte b ` {..<unat (tbsize b)}"

definition tb_inv :: "TBContext \<Rightarrow> TBLists \<Rightarrow> bool" where
  "tb_inv st A \<longleftrightarrow> tb_rel st A \<and> layout_ok (tbs st) (known A) (code st) \<and>
     jumps_ok (tbs st) (live A) (known A) (ajmp A) (code st) \<and> buffer_ok st \<and>
     extent_ok (unat (code_gen_buffer st)) (unat (code_gen_ptr st)) (tbs st) (known A) \<and>
     (\<forall>t \<in> live A. tb_block_ok (tbs st t))"

text \<open>
  What tb_gen_code relies on of cpu_gen_code: it keeps the key of the block, covers between
  one byte and one page of guest code, writes at most \<open>room\<close> bytes of host code at tc_ptr and
  nothing else, and puts each patchable jump, a JMP rel32, and its exit stub inside them.
\<close>

definition gen_ok :: "gen_fun \<Rightarrow> nat \<Rightarrow> bool" where
  "gen_ok gen room \<longleftrightarrow> (\<forall>b c b' c' sz. gen b c = (b', c', sz) \<and> unat (tc_ptr b) + room < 2 ^ 64 \<longrightarrow>
     pc b' = pc b \<and> cs_base b' = cs_base b \<and> tbflags b' = tbflags b \<and> tc_ptr b' = tc_ptr b \<and>
     0 < unat (tbsize b') \<and> unat (tbsize b') \<le> 4096 \<and> unat sz \<le> room \<and>
     (\<forall>a. unat a < unat (tc_ptr b) \<or> unat (tc_ptr b) + unat sz \<le> unat a \<longrightarrow> c' a = c a) \<and>
     (\<forall>n < 2. tb_next_offset b' n \<noteq> 0xffff \<longrightarrow>
        placed (unat (tc_ptr b)) (unat (tc_ptr b) + unat sz) (\<lambda>_. b') (0, n) \<and> c' (jop (\<lambda>_. b') (0, n)) = 0xe9) \<and>
     (tb_next_offset b' 0 \<noteq> 0xffff \<and> tb_next_offset b' 1 \<noteq> 0xffff \<longrightarrow>
        five (jop (\<lambda>_. b') (0, 0)) \<inter> five (jop (\<lambda>_. b') (0, 1)) = {}))"

text \<open>The guest code address is backed by RAM, and translation keeps the offset in the page.\<close>

definition phys_ok :: "(u64 \<Rightarrow> u64) \<Rightarrow> TBContext \<Rightarrow> u64 \<Rightarrow> bool" where
  "phys_ok phys st v \<longleftrightarrow> ram_page st (phys v AND TARGET_PAGE_MASK) \<and> phys v AND 0xFFF = v AND 0xFFF"

definition room_ok :: "TBContext \<Rightarrow> nat \<Rightarrow> bool" where
  "room_ok st room \<longleftrightarrow> unat (code_gen_buffer_max_size st) + room + 16 \<le> unat (code_gen_buffer_size st) \<and>
     0 < code_gen_buffer_max_size st \<and> 0 < code_gen_max_blocks st"

lemma align16:
  fixes x :: u64
  assumes "unat x + 15 < 2 ^ 64"
  shows "unat x \<le> unat ((x + CODE_GEN_ALIGN - 1) AND NOT (CODE_GEN_ALIGN - 1))"
    and "unat ((x + CODE_GEN_ALIGN - 1) AND NOT (CODE_GEN_ALIGN - 1)) \<le> unat x + 15"
proof -
  have "unat (15 + x) = (unat (15 :: u64) + unat x) mod 2 ^ 64"
    by (simp only: unat_word_ariths(1)) simp
  also have "\<dots> = unat x + 15" using assms by simp
  finally have u: "unat (x + CODE_GEN_ALIGN - 1) = unat x + 15" by simp
  have m: "(16 :: u64) - 1 = mask 4" by (simp add: mask_eq_exp_minus_1)
  have "unat ((x + 16 - 1) AND NOT (16 - 1)) = (unat x + 15) div 16 * 16"
    unfolding m using unat_and_not_mask [of "x + 16 - 1" 4] u by simp
  then show "unat x \<le> unat ((x + CODE_GEN_ALIGN - 1) AND NOT (CODE_GEN_ALIGN - 1))"
    "unat ((x + CODE_GEN_ALIGN - 1) AND NOT (CODE_GEN_ALIGN - 1)) \<le> unat x + 15" by simp_all
qed

lemma page_add_offset:
  fixes b w :: u64
  assumes "b AND 0xFFF = 0" and "unat w < 4096"
  shows "(b + w) AND TARGET_PAGE_MASK = b"
proof -
  have w: "w AND 0xFFF = w" using assms(2) by (intro word_unat_eq_iff [THEN iffD2]) (simp add: page_unat)
  have b: "b AND - 4096 = b" using page_split [of b] assms(1) by simp
  have "b AND w = 0"
  proof (rule bit_word_eqI)
    fix n
    have "\<not> (bit b n \<and> bit w n)" using bit_not_FFF [of b n] bit_FFF [of w n] unfolding b w by auto
    then show "bit (b AND w) n = bit 0 n" by (simp add: bit_and_iff)
  qed
  then have "b + w = b OR w" using word_plus_and_or [of b w] by simp
  moreover have "w AND - 4096 = 0" using page_split [of w] by (simp add: w)
  ultimately show ?thesis using b by (simp add: bit.conj_disj_distrib2)
qed

lemma second_page:
  fixes a :: u64 and sz :: u16
  assumes "0 < unat sz" "unat sz \<le> 4096"
  shows "(a + ucast sz - 1) AND TARGET_PAGE_MASK = (a AND TARGET_PAGE_MASK) +
     (if unat (a AND 0xFFF) + unat sz \<le> 4096 then 0 else TARGET_PAGE_SIZE)"
proof -
  define b where "b = a AND - 4096"
  define w where "w = (a AND 0xFFF) + (ucast sz - 1)"
  have b: "b AND 0xFFF = 0" "(b + 4096) AND 0xFFF = 0"
  proof -
    show *: "b AND 0xFFF = 0" by (simp add: b_def and.assoc)
    have "unat (b + 4096) mod 4096 = 0"
    proof -
      have "unat b mod 4096 = 0" using * unat_and_FFF [of b] by simp
      then have "4096 dvd (unat b + 4096)" by (simp add: mod_eq_0_iff_dvd)
      then have "4096 dvd (unat b + 4096) mod 2 ^ 64" by (intro dvd_mod) simp_all
      then show ?thesis by (simp add: unat_word_ariths mod_eq_0_iff_dvd)
    qed
    then show "(b + 4096) AND 0xFFF = 0" by (intro word_unat_eq_iff [THEN iffD2]) (simp only: unat_and_FFF unat_0)
  qed
  have sz: "unat (ucast sz - 1 :: u64) = unat sz - 1"
  proof -
    have "unat (ucast sz :: u64) = unat sz" using assms(2) by (simp add: unsigned_ucast_eq take_bit_nat_eq_self)
    moreover have "(1 :: u64) \<le> ucast sz" using calculation assms(1) by (simp add: word_le_nat_alt)
    ultimately show ?thesis by (simp add: unat_sub)
  qed
  have r: "unat (a AND 0xFFF) < 4096" by (simp add: page_unat)
  then have uw: "unat w = unat (a AND 0xFFF) + (unat sz - 1)"
    unfolding w_def using sz assms(2) by (subst unat_add_lem [THEN iffD1]) simp_all
  have e: "a + ucast sz - 1 = b + w" using page_split [of a] by (simp add: b_def w_def algebra_simps)
  show ?thesis
  proof (cases "unat w < 4096")
    case True
    with uw assms(1) have "unat (a AND 0xFFF) + unat sz \<le> 4096" by linarith
    with page_add_offset [OF b(1) True] show ?thesis unfolding e by (simp add: b_def)
  next
    case False
    then have "unat (w - 4096) < 4096" "\<not> unat (a AND 0xFFF) + unat sz \<le> 4096"
      using uw r assms(1,2) by (simp_all add: unat_sub word_le_nat_alt)
    with page_add_offset [OF b(2) this(1)] show ?thesis unfolding e by (simp add: b_def)
  qed
qed

lemma jump_slots_single: "jump_slots ts {t} = {k. fst k = t \<and> snd k < 2 \<and> tb_next_offset (ts t) (snd k) \<noteq> 0xffff}"
  by (auto simp: jump_slots_def)

lemma two_slots: "set (filter (\<lambda>k. P (snd k)) [(t, 0), (t, 1)]) = {k. fst k = t \<and> snd k < (2 :: nat) \<and> P (snd k)}"
proof -
  have "k \<in> set [(t, 0), (t, 1)] \<longleftrightarrow> fst k = t \<and> snd k < (2 :: nat)" for k
    by (cases k) (auto simp: less_2_cases_iff)
  then show ?thesis by (simp only: set_filter conj_assoc)
qed

lemma jumps_new:
  assumes ok: "jumps_ok ts L K J c" and LK: "L \<subseteq> K" and t: "t \<notin> K" and ts: "\<And>u. u \<in> K \<Longrightarrow> ts' u = ts u"
    and lay: "layout_ok ts' (insert t K) c'" and ks: "set ks = jump_slots ts' {t}"
    and old: "\<And>k. k \<in> jump_slots ts K \<Longrightarrow> branch_target c' (jop ts' k) = branch_target c (jop ts k)"
  shows "layout_ok ts' (insert t K) (reset_code ts' ks c')"
    and "jumps_ok ts' (insert t L) (insert t K) (J(t := [])) (reset_code ts' ks c')"
proof -
  have ins: "jump_slots ts' (insert t K) = jump_slots ts K \<union> jump_slots ts' {t}"
    by (rule jump_slots_insert [OF ts t])
  have tL: "t \<notin> L" using t LK by blast
  have insL: "jump_slots ts' (insert t L) = jump_slots ts L \<union> jump_slots ts' {t}"
    by (rule jump_slots_insert [OF _ tL]) (use ts LK in blast)
  have dj: "k \<notin> jump_slots ts' {t}" if "k \<in> jump_slots ts K" for k using that t by (auto simp: jump_slots_def)
  have "set ks \<subseteq> jump_slots ts' (insert t K)" using ks ins by blast
  note r = reset_code_slots [OF lay this]
  show "layout_ok ts' (insert t K) (reset_code ts' ks c')" using r by blast
  have o: "branch_target (reset_code ts' ks c') (jop ts' k) = branch_target c (jop ts k)"
    if k: "k \<in> jump_slots ts K" for k
    using r dj [OF k] ks old [OF k] k ins by simp
  show "jumps_ok ts' (insert t L) (insert t K) (J(t := [])) (reset_code ts' ks c')"
    unfolding jumps_ok_def
  proof (intro conjI ballI impI)
    fix u k assume u: "u \<in> insert t K" and k: "k \<in> set ((J(t := [])) u)"
    then have u': "u \<in> K" "k \<in> set (J u)" by (auto split: if_splits)
    with ok have k1: "k \<in> jump_slots ts K" "branch_target c (jop ts k) = Some (tc_ptr (ts u))"
      by (auto simp: jumps_ok_def)
    show "k \<in> jump_slots ts' (insert t K)" using k1 ins by simp
    show "branch_target (reset_code ts' ks c') (jop ts' k) = Some (tc_ptr (ts' u))"
      using o [OF k1(1)] k1(2) ts [OF u'(1)] by simp
  next
    fix k assume k: "k \<in> jump_slots ts' (insert t L)" and no: "\<forall>u \<in> insert t K. k \<notin> set ((J(t := [])) u)"
    show "branch_target (reset_code ts' ks c') (jop ts' k) = Some (jexit ts' k)"
    proof (cases "k \<in> jump_slots ts L")
      case True
      then have kK: "k \<in> jump_slots ts K" using jump_slots_mono [OF LK] by blast
      have "\<forall>u \<in> K. k \<notin> set (J u)" using no t by (auto split: if_splits)
      with ok True have b: "branch_target c (jop ts k) = Some (jexit ts k)" by (simp add: jumps_ok_def)
      have "fst k \<in> K" using kK by (simp add: jump_slots_def)
      then have "jexit ts' k = jexit ts k" by (intro slot_fields(2) ts)
      with o [OF kK] b show ?thesis by simp
    next
      case False
      with k insL ks have "k \<in> set ks" by blast
      moreover have "k \<in> jump_slots ts' (insert t K)" using calculation ks ins by blast
      ultimately show ?thesis using r by simp
    qed
  qed
qed

lemma extent_mono: "extent_ok lo hi ts L \<Longrightarrow> hi \<le> hi' \<Longrightarrow> extent_ok lo hi' ts L"
  by (auto simp: extent_ok_def intro: placed_mono)

lemma phys_ok_cong:
  "ram_wf (ram st') = ram_wf (ram st) \<Longrightarrow> set (blocks (ram st')) = set (blocks (ram st)) \<Longrightarrow>
     phys_ok phys st' v = phys_ok phys st v"
  by (simp add: phys_ok_def ram_page_def)

lemma gen_okD:
  assumes "gen_ok gen room" and "gen b c = (b', c', sz)" and "unat (tc_ptr b) + room < 2 ^ 64"
  shows "pc b' = pc b" "cs_base b' = cs_base b" "tbflags b' = tbflags b" "tc_ptr b' = tc_ptr b"
    "0 < unat (tbsize b')" "unat (tbsize b') \<le> 4096" "unat sz \<le> room"
    "\<And>a. unat a < unat (tc_ptr b) \<Longrightarrow> c' a = c a"
    "\<And>n. n < 2 \<Longrightarrow> tb_next_offset b' n \<noteq> 0xffff \<Longrightarrow>
       placed (unat (tc_ptr b)) (unat (tc_ptr b) + unat sz) (\<lambda>_. b') (0, n) \<and> c' (jop (\<lambda>_. b') (0, n)) = 0xe9"
    "tb_next_offset b' 0 \<noteq> 0xffff \<Longrightarrow> tb_next_offset b' 1 \<noteq> 0xffff \<Longrightarrow>
       five (jop (\<lambda>_. b') (0, 0)) \<inter> five (jop (\<lambda>_. b') (0, 1)) = {}"
  using assms(1) [unfolded gen_ok_def, rule_format, OF conjI [OF assms(2,3)]] by blast+

lemma new_slots:
  assumes "tc_ptr (ts t) = tc_ptr b" "tb_next_offset (ts t) = tb_next_offset b" "tb_jmp_offset (ts t) = tb_jmp_offset b"
  shows "jop ts (t, n) = jop (\<lambda>_. b) (0, n)" "placed lo hi ts (t, n) = placed lo hi (\<lambda>_. b) (0, n)"
  using assms by (simp_all add: jop_def jaddr_def jexit_def placed_def)

lemma tb_gen_link_inv:
  assumes inv: "tb_inv st A" and t: "t < nb_tbs st" "t \<notin> known A" and pc: "pc (tbs st t) = pc0"
    and gen: "gen_ok gen room"
    and room: "unat (code_gen_ptr st) + room + 16 \<le> unat (code_gen_buffer st) + unat (code_gen_buffer_size st)"
    and ph: "phys_ok phys st pc0" "phys_ok phys st ((pc0 AND TARGET_PAGE_MASK) + TARGET_PAGE_SIZE)"
  obtains st' page2 where "tb_gen_link phys gen st t (phys pc0) pc0 csb flags cfl = Inr (st', t)"
    and "tb_inv st' (abs_link t (phys pc0) page2 A)" and "tb_matches phys (tbs st' t) pc0 csb flags"
    and "\<And>u. u \<noteq> t \<Longrightarrow> tbs st' u = tbs st u" and "nb_tbs st' = nb_tbs st" "length (cpus st') = length (cpus st)"
    and "code_gen_buffer st' = code_gen_buffer st" "code_gen_buffer_size st' = code_gen_buffer_size st"
      "code_gen_buffer_max_size st' = code_gen_buffer_max_size st" "code_gen_max_blocks st' = code_gen_max_blocks st"
      "tb_invalidated_flag st' = tb_invalidated_flag st" "ram_wf (ram st') = ram_wf (ram st)" "set (blocks (ram st')) = set (blocks (ram st))"
    and "page_addr (tbs st' t) 1 = page2"
      "\<exists>b c. tbsize (tbs st' t) = tbsize (fst (gen b c)) \<and> tb_next_offset (tbs st' t) = tb_next_offset (fst (gen b c))"
    and "unat (code_gen_ptr st') \<le> unat (code_gen_ptr st) + room + 15" "\<And>n. n < 2 \<Longrightarrow> jmp_next (tbs st' t) n = None"
proof -
  note I = inv [unfolded tb_inv_def]
  define p where "p = code_gen_ptr st"
  define B where "B = (tbs st t)\<lparr>tc_ptr := p, opt_ptr := p, cs_base := csb, tbflags := flags, cflags := cfl\<rparr>"
  obtain b m sz where g: "gen B (code st) = (b, m, sz)" by (cases "gen B (code st)")
  have pb: "unat p + room + 16 < 2 ^ 64" using room I by (simp add: buffer_ok_def p_def)
  have "tc_ptr B = p" by (simp add: B_def)
  then have pB: "unat (tc_ptr B) + room < 2 ^ 64" using pb by simp
  note G = gen_okD [OF gen g pB, unfolded \<open>tc_ptr B = p\<close>]
  have G1: "pc b = pc0" "cs_base b = csb" "tbflags b = flags" using G(1-3) pc by (simp_all add: B_def)
  define e where "e = (p + sz + CODE_GEN_ALIGN - 1) AND NOT (CODE_GEN_ALIGN - 1)"
  define stC where "stC = st\<lparr>tbs := (tbs st)(t := b), code := m, code_gen_ptr := e\<rparr>"
  define v2 where "v2 = (pc0 + ucast (tbsize b) - 1) AND TARGET_PAGE_MASK"
  define page2 where "page2 = (if pc0 AND TARGET_PAGE_MASK \<noteq> v2 then phys v2 else NO_PAGE)"
  have run: "tb_gen_link phys gen st t (phys pc0) pc0 csb flags cfl =
      andthen (tb_link_page stC t (phys pc0) page2) (\<lambda>st. Inr (st, t))"
    using g by (simp add: tb_gen_link_def Let_def upd_tb_def B_def p_def stC_def e_def page2_def v2_def)
  have relC: "tb_rel stC A" by (rule tb_rel_dead [of st]) (use I t(2) in \<open>auto simp: stC_def\<close>)
  have tC: "t < nb_tbs stC" "t \<notin> known A" "pc (tbs stC t) AND 0xFFF = phys pc0 AND 0xFFF"
    using t ph(1) G1(1) by (simp_all add: stC_def phys_ok_def)
  have pg0: "ram_page stC (phys pc0 AND TARGET_PAGE_MASK)"
    using ph(1) by (simp add: phys_ok_def ram_page_def stC_def)
  note sp = second_page [OF G(5,6), of pc0, folded v2_def]
  have v2: "v2 = (pc0 AND TARGET_PAGE_MASK) + TARGET_PAGE_SIZE" if "pc0 AND TARGET_PAGE_MASK \<noteq> v2"
    using sp that by (simp split: if_splits)
  have one: "pc0 AND TARGET_PAGE_MASK = v2 \<longleftrightarrow> unat (pc0 AND 0xFFF) + unat (tbsize b) \<le> 4096" unfolding sp by simp
  have al2: "phys v2 AND 0xFFF = 0" "phys v2 AND TARGET_PAGE_MASK = phys v2 \<and> ram_page stC (phys v2)" if n: "pc0 AND TARGET_PAGE_MASK \<noteq> v2"
  proof -
    have o: "phys_ok phys st v2" using ph(2) unfolding v2 [OF n] .
    show "phys v2 AND 0xFFF = 0" using o unfolding phys_ok_def v2_def by (simp add: and.assoc)
    then have m: "phys v2 AND TARGET_PAGE_MASK = phys v2" using page_split [of "phys v2"] by simp
    have "ram_page st (phys v2 AND TARGET_PAGE_MASK)" using o by (simp only: phys_ok_def)
    then have "ram_page st (phys v2)" by (simp only: m)
    with m show "phys v2 AND TARGET_PAGE_MASK = phys v2 \<and> ram_page stC (phys v2)" by (simp add: ram_page_def stC_def)
  qed
  then have pg1: "page2 = NO_PAGE \<or> ram_page stC page2" by (auto simp: page2_def)
  obtain st' where st': "tb_link_page stC t (phys pc0) page2 = Inr st'"
    "tb_rel st' (abs_link t (phys pc0) page2 A)" "\<And>u. u \<noteq> t \<Longrightarrow> tbs st' u = tbs stC u"
    "page_addr (tbs st' t) 0 = phys pc0 AND TARGET_PAGE_MASK" "page_addr (tbs st' t) 1 = page2"
    "pc (tbs st' t) = pc (tbs stC t)" "cs_base (tbs st' t) = cs_base (tbs stC t)"
    "tbflags (tbs st' t) = tbflags (tbs stC t)" "tc_ptr (tbs st' t) = tc_ptr (tbs stC t)"
    "tb_next_offset (tbs st' t) = tb_next_offset (tbs stC t)" "tb_jmp_offset (tbs st' t) = tb_jmp_offset (tbs stC t)"
    "nb_tbs st' = nb_tbs stC" "length (cpus st') = length (cpus stC)" "link_frame stC st'"
    "code st' = reset_code (tbs st') (filter (\<lambda>k. tb_next_offset (tbs stC t) (snd k) \<noteq> 0xffff) [(t, 0), (t, 1)]) (code stC)"
    "tbsize (tbs st' t) = tbsize (tbs stC t)" "cflags (tbs st' t) = cflags (tbs stC t)"
    by (rule tb_link_page_rel [OF relC tC pg0 pg1]) (rule that)
  note fr = st'(14) [unfolded link_frame_def]
  have oth: "tbs st' u = tbs st u" if "u \<noteq> t" for u using st'(3) [OF that] that by (simp add: stC_def)
  have oL: "tbs st' u = tbs st u" if "u \<in> known A" for u using oth that t(2) by metis
  let ?ks = "filter (\<lambda>k. tb_next_offset (tbs stC t) (snd k) \<noteq> 0xffff) [(t, 0), (t, 1)]"
  have new: "tc_ptr (tbs st' t) = tc_ptr b" "tb_next_offset (tbs st' t) = tb_next_offset b"
    "tb_jmp_offset (tbs st' t) = tb_jmp_offset b" using st'(9-11) by (simp_all add: stC_def)
  have ks: "set ?ks = jump_slots (tbs st') {t}"
    unfolding two_slots [of "\<lambda>n. tb_next_offset (tbs stC t) n \<noteq> 0xffff"] jump_slots_single st'(10) ..
  have al: "unat (p + sz) = unat p + unat sz" "unat p + unat sz \<le> unat e" "unat e \<le> unat p + unat sz + 15"
  proof -
    show s: "unat (p + sz) = unat p + unat sz" using pb G(7) by (simp add: unat_word_ariths)
    have "unat (p + sz) + 15 < 2 ^ 64" using pb G(7) s by simp
    from align16 [OF this] show "unat p + unat sz \<le> unat e" "unat e \<le> unat p + unat sz + 15"
      unfolding e_def s by (simp_all add: add.assoc)
  qed
  let ?lo = "unat (code_gen_buffer st)"
  have hi: "unat p + unat sz \<le> ?lo + 2 ^ 30" "unat p + unat sz < 2 ^ 64" "?lo \<le> unat p" "unat p \<le> unat p + unat sz"
    using pb G(7) room I by (simp_all add: buffer_ok_def p_def)
  note L = layout_new [of "tbs st" "known A" "code st" ?lo "unat p" t "tbs st'" m "unat p + unat sz"]
  have pl: "placed (unat p) (unat p + unat sz) (tbs st') k \<and> m (jop (tbs st') k) = 0xe9" if "k \<in> jump_slots (tbs st') {t}" for k
  proof -
    have "fst k = t" using that by (simp add: jump_slots_single)
    then obtain n where k: "k = (t, n)" by (cases k) simp
    have "n < 2" "tb_next_offset b n \<noteq> 0xffff" using that by (simp_all add: jump_slots_single k new(2))
    from G(9) [OF this] show ?thesis unfolding k new_slots [of "tbs st'" t b, OF new] .
  qed
  have ap: "five (jop (tbs st') k) \<inter> five (jop (tbs st') k') = {}"
    if k: "k \<in> jump_slots (tbs st') {t}" "k' \<in> jump_slots (tbs st') {t}" "k \<noteq> k'" for k k'
  proof -
    have f: "fst k = t" "fst k' = t" "snd k < 2" "snd k' < 2" "tb_next_offset b (snd k) \<noteq> 0xffff"
      "tb_next_offset b (snd k') \<noteq> 0xffff" using k(1,2) by (simp_all add: jump_slots_single new(2))
    have kk: "k = (t, snd k)" "k' = (t, snd k')" using f(1,2) by (simp_all add: prod_eq_iff)
    have "snd k \<noteq> snd k'" using f(1,2) k(3) by (auto simp: prod_eq_iff)
    then consider "snd k = 0" "snd k' = 1" | "snd k = 1" "snd k' = 0" using f(3,4) by linarith
    then have "five (jop (\<lambda>_. b) (0, snd k)) \<inter> five (jop (\<lambda>_. b) (0, snd k')) = {}"
      using f(5,6) G(10) by cases auto
    then show ?thesis by (subst kk(1), subst kk(2)) (simp only: new_slots(1) [of "tbs st'" t b, OF new])
  qed
  have lay: "layout_ok (tbs st') (insert t (known A)) m"
    "extent_ok ?lo (unat p + unat sz) (tbs st') (insert t (known A))"
    "\<And>k. k \<in> jump_slots (tbs st) (known A) \<Longrightarrow> branch_target m (jop (tbs st') k) = branch_target (code st) (jop (tbs st) k)"
    by (rule L; use I t(2) oL G(8) pl ap new(1) G(4) hi in \<open>simp add: p_def\<close>)+
  have jo: "jumps_ok (tbs st) (live A) (known A) (ajmp A) (code st)" and lk: "live A \<subseteq> known A"
    using I by (simp_all add: known_def)
  have J: "layout_ok (tbs st') (insert t (known A)) (reset_code (tbs st') ?ks m)"
    "jumps_ok (tbs st') (insert t (live A)) (insert t (known A)) ((ajmp A)(t := [])) (reset_code (tbs st') ?ks m)"
    by (rule jumps_new [OF jo lk t(2) _ lay(1) ks]; use oL lay(3) in blast)+
  have A': "live (abs_link t (phys pc0) page2 A) = insert t (live A)" "ajmp (abs_link t (phys pc0) page2 A) = (ajmp A)(t := [])"
    "known (abs_link t (phys pc0) page2 A) = insert t (known A)"
    by (simp_all add: live_abs_link known_abs_link) (simp add: abs_link_def Let_def)
  have c: "code st' = reset_code (tbs st') ?ks m" using st'(15) by (simp add: stC_def)
  have gp: "code_gen_ptr st' = e" "code_gen_buffer st' = code_gen_buffer st"
    "code_gen_buffer_size st' = code_gen_buffer_size st" using fr by (simp_all add: stC_def)
  have bo: "buffer_ok st'"
    unfolding buffer_ok_def gp using I al room G(7) hi by (simp add: buffer_ok_def p_def)
  have "tb_block_ok (tbs st' t)"
  proof -
    have "phys v2 \<noteq> NO_PAGE" if "pc0 AND TARGET_PAGE_MASK \<noteq> v2" using al2(1) [OF that] by auto
    then have "page2 = NO_PAGE \<longleftrightarrow> unat (pc0 AND 0xFFF) + unat (tbsize b) \<le> 4096"
      unfolding one [symmetric] by (auto simp: page2_def)
    moreover have "page2 = NO_PAGE \<or> page2 AND 0xFFF = 0" using al2(1) by (auto simp: page2_def)
    ultimately show ?thesis
      unfolding tb_block_ok_def st'(4-6,16) using G(5,6) G1(1) by (simp add: stC_def and.assoc)
  qed
  then have bk: "\<forall>u \<in> insert t (live A). tb_block_ok (tbs st' u)" using I oL live_known by auto
  have "extent_ok ?lo (unat e) (tbs st') (insert t (known A))" by (rule extent_mono [OF lay(2) al(2)])
  then have "tb_inv st' (abs_link t (phys pc0) page2 A)"
    using st'(2) J bo bk unfolding tb_inv_def A' c gp by blast
  moreover have "tb_matches phys (tbs st' t) pc0 csb flags"
    using st'(4-8) G1 v2 unfolding tb_matches_def by (auto simp: stC_def page2_def)
  moreover have "\<exists>b c. tbsize (tbs st' t) = tbsize (fst (gen b c)) \<and> tb_next_offset (tbs st' t) = tb_next_offset (fst (gen b c))"
    unfolding st'(16) new by (intro exI [of _ B] exI [of _ "code st"]) (simp add: stC_def g)
  moreover have "unat (code_gen_ptr st') \<le> unat (code_gen_ptr st) + room + 15" using al(3) G(7) by (simp add: gp p_def)
  moreover have "jmp_next (tbs st' t) n = None" if "n < 2" for n
  proof -
    have "jmp_rel (tbs st') (insert t (known A)) ((ajmp A)(t := []))" using st'(2) unfolding tb_rel_def A' by blast
    moreover have el: "fst k \<in> known A" if "u \<in> known A" "k \<in> set (ajmp A u)" for u k
      using I that by (simp add: tb_rel_def jmp_rel_def)
    have "(t, n) \<notin> set (((ajmp A)(t := [])) u)" if "u \<in> insert t (known A)" for u
      using el [of u "(t, n)"] t(2) that by (auto split: if_splits)
    ultimately have "jmp_slot (tbs st') (t, n) = None" using that unfolding jmp_rel_def by blast
    then show ?thesis using that by (simp add: jmp_slot_def)
  qed
  ultimately show ?thesis
    by (intro that [of st' page2]) (use st'(1,5,12,13) oth fr in \<open>simp_all add: run stC_def\<close>)
qed

lemma jump_slots_empty [simp]: "jump_slots ts {} = {}"
  by (simp add: jump_slots_def)

lemma inv_cong:
  assumes ts: "\<And>u. u \<in> K \<Longrightarrow> ts' u = ts u"
  shows "jump_slots ts' K = jump_slots ts K" "layout_ok ts' K c = layout_ok ts K c"
    "L \<subseteq> K \<Longrightarrow> jumps_ok ts' L K J c = jumps_ok ts L K J c" "extent_ok lo hi ts' K = extent_ok lo hi ts K"
proof -
  show s: "jump_slots ts' K = jump_slots ts K" using ts by (auto simp: jump_slots_def)
  have f: "jop ts' k = jop ts k" "jexit ts' k = jexit ts k" "jaddr ts' k = jaddr ts k" "placed lo hi ts' k = placed lo hi ts k"
    if "k \<in> jump_slots ts K" for k lo hi
    using slot_fields [of ts' k ts] ts that by (simp_all add: jump_slots_def)
  show "layout_ok ts' K c = layout_ok ts K c" "extent_ok lo hi ts' K = extent_ok lo hi ts K"
    by (simp_all add: layout_ok_def extent_ok_def s f ts cong: ball_cong)
  assume LK: "L \<subseteq> K"
  have sL: "jump_slots ts' L = jump_slots ts L" using ts LK by (auto simp: jump_slots_def)
  have fL: "jop ts' k = jop ts k" "jexit ts' k = jexit ts k" if "k \<in> jump_slots ts L" for k
    using f(1,2) [of k] jump_slots_mono [OF LK] that by blast+
  show "jumps_ok ts' L K J c = jumps_ok ts L K J c"
    unfolding jumps_ok_def s sL by (simp add: f fL ts cong: ball_cong conj_cong)
qed

lemma tb_inv_dead:
  assumes inv: "tb_inv st A" and ts: "\<And>u. u \<in> known A \<Longrightarrow> tbs st' u = tbs st u"
    and same: "tb_phys_hash st' = tb_phys_hash st" "l1_map st' = l1_map st" "nb_tbs st \<le> nb_tbs st'"
      "map tb_jmp_cache (cpus st') = map tb_jmp_cache (cpus st)" "code st' = code st"
      "code_gen_ptr st' = code_gen_ptr st" "code_gen_buffer st' = code_gen_buffer st"
      "code_gen_buffer_size st' = code_gen_buffer_size st"
  shows "tb_inv st' A"
proof -
  have lk: "live A \<subseteq> known A" by (simp add: known_def)
  show ?thesis
    using inv tb_rel_dead [of st A st', OF _ ts same(1-4)]
    by (simp add: tb_inv_def inv_cong(2,4) [of "known A" "tbs st'" "tbs st", OF ts]
        inv_cong(3) [of "known A" "tbs st'" "tbs st", OF ts lk] buffer_ok_def same ts live_known)
qed

lemma tb_inv_flush:
  assumes "tb_inv st A" and "tb_flush st = Inr st'"
  shows "tb_inv st' no_lists"
  using assms tb_flush_rel [of st A st']
  by (auto simp: tb_inv_def layout_ok_def jumps_ok_def extent_ok_def buffer_ok_def tb_flush_def split: if_splits)

lemma tb_flush_ok:
  assumes "buffer_ok st"
  shows "\<exists>st'. tb_flush st = Inr st'"
proof -
  have "code_gen_buffer st \<le> code_gen_ptr st" using assms by (simp add: buffer_ok_def word_le_nat_alt)
  then have "unat (code_gen_ptr st - code_gen_buffer st) = unat (code_gen_ptr st) - unat (code_gen_buffer st)"
    by (rule unat_sub)
  then show ?thesis using assms by (auto simp: tb_flush_def buffer_ok_def word_less_nat_alt)
qed

lemma room_arith: "a - b < c \<Longrightarrow> c + r + 16 \<le> s \<Longrightarrow> b \<le> a \<Longrightarrow> a + r + 16 \<le> b + (s :: nat)"
  by arith

lemma tb_alloc_inv:
  assumes inv: "tb_inv st A" and al: "tb_alloc w st pc0 = (st', Some t)" and room: "room_ok st room"
  shows "tb_inv st' A" "t < nb_tbs st'" "t \<notin> known A" "pc (tbs st' t) = pc0" "\<And>u. u \<noteq> t \<Longrightarrow> tbs st' u = tbs st u"
    "unat (code_gen_ptr st') + room + 16 \<le> unat (code_gen_buffer st') + unat (code_gen_buffer_size st')"
    "ram st' = ram st" "cpus st' = cpus st" "code_gen_buffer_max_size st' = code_gen_buffer_max_size st"
    "code_gen_max_blocks st' = code_gen_max_blocks st" "code_gen_buffer st' = code_gen_buffer st"
    "code_gen_buffer_size st' = code_gen_buffer_size st" "tb_invalidated_flag st' = tb_invalidated_flag st"
    "t = nb_tbs st" "nb_tbs st' = Suc (nb_tbs st)"
proof -
  have t: "t = nb_tbs st" and c: "code_gen_ptr st - code_gen_buffer st < code_gen_buffer_max_size st"
    using al by (auto simp: tb_alloc_def Let_def split: if_splits)
  have rel: "tb_rel st A" and bo: "buffer_ok st" using inv by (simp_all add: tb_inv_def)
  show nl: "t \<notin> known A" using known_less [OF rel, of t] t by blast
  have st': "nb_tbs st' = nb_tbs st + 1" "tb_phys_hash st' = tb_phys_hash st" "l1_map st' = l1_map st" "code st' = code st"
    "code_gen_ptr st' = code_gen_ptr st"
    using al by (auto simp: tb_alloc_def Let_def upd_tb_def split: if_splits)
  show o: "tbs st' u = tbs st u" if "u \<noteq> t" for u
    using al that by (auto simp: tb_alloc_def Let_def upd_tb_def split: if_splits)
  show "pc (tbs st' t) = pc0" and ram: "ram st' = ram st" and cp: "cpus st' = cpus st"
    and "code_gen_buffer_max_size st' = code_gen_buffer_max_size st"
    and "code_gen_max_blocks st' = code_gen_max_blocks st" and b: "code_gen_buffer st' = code_gen_buffer st"
    and s: "code_gen_buffer_size st' = code_gen_buffer_size st" and "tb_invalidated_flag st' = tb_invalidated_flag st"
    using al by (auto simp: tb_alloc_def Let_def upd_tb_def split: if_splits)
  show "t = nb_tbs st" by (rule t)
  show "t < nb_tbs st'" "nb_tbs st' = Suc (nb_tbs st)" using st' t by simp_all
  show "tb_inv st' A" by (rule tb_inv_dead [OF inv]) (use o nl in metis, simp_all add: st' b s cp)
  have "code_gen_buffer st \<le> code_gen_ptr st" using bo by (simp add: buffer_ok_def word_le_nat_alt)
  then have "unat (code_gen_ptr st) - unat (code_gen_buffer st) < unat (code_gen_buffer_max_size st)"
    using c by (simp add: word_less_nat_alt unat_sub)
  then show "unat (code_gen_ptr st') + room + 16 \<le> unat (code_gen_buffer st') + unat (code_gen_buffer_size st')"
    unfolding st'(5) b s using room [unfolded room_ok_def] bo [unfolded buffer_ok_def] by (blast intro: room_arith)
qed

text \<open>Between two operations every allocated block has been linked since the last flush.\<close>

definition whole :: "TBContext \<Rightarrow> TBLists \<Rightarrow> bool" where
  "whole st A \<longleftrightarrow> known A = {..< nb_tbs st}"

lemma tb_gen_alloc_inv:
  assumes inv: "tb_inv st A" and room: "room_ok st room" and w: "\<not> snd w"
  obtains st' t A' where "tb_gen_alloc w st pc0 = Inr (st', t)" "tb_inv st' A'" "t < nb_tbs st'" "t \<notin> known A'"
    "pc (tbs st' t) = pc0"
    "unat (code_gen_ptr st') + room + 16 \<le> unat (code_gen_buffer st') + unat (code_gen_buffer_size st')"
    "A' = A \<and> tb_invalidated_flag st' = tb_invalidated_flag st \<and> (\<forall>u. u \<noteq> t \<longrightarrow> tbs st' u = tbs st u) \<or>
     A' = no_lists \<and> tb_invalidated_flag st'"
    "ram st' = ram st" "length (cpus st') = length (cpus st)" "room_ok st' room"
    "whole st A \<Longrightarrow> insert t (known A') = {..< nb_tbs st'}"
proof (cases "tb_alloc (fst w) st pc0")
  case (Pair st1 r)
  show ?thesis
  proof (cases r)
    case (Some t)
    then have al: "tb_alloc (fst w) st pc0 = (st1, Some t)" using Pair by simp
    note r = tb_alloc_inv [OF inv al room]
    show ?thesis
      by (rule that [of st1 t A]) (use r room in \<open>auto simp: tb_gen_alloc_def al room_ok_def whole_def\<close>)
  next
    case None
    then have st1: "st1 = st" using Pair by (auto simp: tb_alloc_def Let_def split: if_splits)
    obtain st2 where fl: "tb_flush st = Inr st2" using tb_flush_ok inv by (auto simp: tb_inv_def)
    have st2: "nb_tbs st2 = 0" "code_gen_ptr st2 = code_gen_buffer st2" "ram st2 = ram st"
      "length (cpus st2) = length (cpus st)" "room_ok st2 room"
      using fl room by (auto simp: tb_flush_def room_ok_def split: if_splits)
    obtain st3 t where al: "tb_alloc (snd w) st2 pc0 = (st3, Some t)"
      using st2 w room by (auto simp: tb_alloc_def Let_def room_ok_def word_gt_0)
    note r = tb_alloc_inv [OF tb_inv_flush [OF inv fl] al st2(5)]
    have "tb_inv (st3\<lparr>tb_invalidated_flag := True\<rparr>) no_lists" by (rule tb_inv_dead [OF r(1)]) simp_all
    then show ?thesis
      by (intro that [of "st3\<lparr>tb_invalidated_flag := True\<rparr>" t no_lists])
        (use r st2 in \<open>auto simp: tb_gen_alloc_def Pair None st1 fl al room_ok_def whole_def\<close>)
  qed
qed

lemma tb_gen_code_inv:
  assumes inv: "tb_inv st A" and room: "room_ok st room" and w: "\<not> snd w" and gen: "gen_ok gen room"
    and ph: "phys_ok phys st pc0" "phys_ok phys st ((pc0 AND TARGET_PAGE_MASK) + TARGET_PAGE_SIZE)"
  obtains st' t A' where "tb_gen_code phys gen w st pc0 csb flags cfl = Inr (st', t)" "tb_inv st' A'" "t \<in> live A'"
    "tb_matches phys (tbs st' t) pc0 csb flags"
    "tb_invalidated_flag st' \<or> live A \<subseteq> live A' \<and> known A \<subseteq> known A' \<and> (\<forall>u \<in> known A. tbs st' u = tbs st u)"
    "length (cpus st') = length (cpus st)" "room_ok st' room"
    "ram_wf (ram st') = ram_wf (ram st)" "set (blocks (ram st')) = set (blocks (ram st))"
    "live A' \<subseteq> insert t (live A)" "\<forall>u \<in> live A'. u \<noteq> t \<longrightarrow> tbs st' u = tbs st u"
    "whole st A \<Longrightarrow> whole st' A'" "live A' = insert t (live A) \<and> t \<notin> known A \<or> live A' = {t}"
proof -
  obtain st1 t A1 where a: "tb_gen_alloc w st pc0 = Inr (st1, t)" "tb_inv st1 A1" "t < nb_tbs st1" "t \<notin> known A1"
    "pc (tbs st1 t) = pc0"
    "unat (code_gen_ptr st1) + room + 16 \<le> unat (code_gen_buffer st1) + unat (code_gen_buffer_size st1)"
    "A1 = A \<and> tb_invalidated_flag st1 = tb_invalidated_flag st \<and> (\<forall>u. u \<noteq> t \<longrightarrow> tbs st1 u = tbs st u) \<or>
     A1 = no_lists \<and> tb_invalidated_flag st1"
    "ram st1 = ram st" "length (cpus st1) = length (cpus st)" "room_ok st1 room"
    "whole st A \<Longrightarrow> insert t (known A1) = {..< nb_tbs st1}"
    by (rule tb_gen_alloc_inv [OF inv room w]) (rule that)
  have ph1: "phys_ok phys st1 pc0" "phys_ok phys st1 ((pc0 AND TARGET_PAGE_MASK) + TARGET_PAGE_SIZE)"
    using ph a(8) by (simp_all add: phys_ok_def ram_page_def)
  obtain st2 page2 where g: "tb_gen_link phys gen st1 t (phys pc0) pc0 csb flags cfl = Inr (st2, t)"
    "tb_inv st2 (abs_link t (phys pc0) page2 A1)" "tb_matches phys (tbs st2 t) pc0 csb flags"
    "\<And>u. u \<noteq> t \<Longrightarrow> tbs st2 u = tbs st1 u" "length (cpus st2) = length (cpus st1)"
    "code_gen_buffer_size st2 = code_gen_buffer_size st1"
    "code_gen_buffer_max_size st2 = code_gen_buffer_max_size st1" "code_gen_max_blocks st2 = code_gen_max_blocks st1"
    "ram_wf (ram st2) = ram_wf (ram st1)" "set (blocks (ram st2)) = set (blocks (ram st1))"
    "tb_invalidated_flag st2 = tb_invalidated_flag st1" "nb_tbs st2 = nb_tbs st1"
    by (rule tb_gen_link_inv [OF a(2-5) gen a(6) ph1]) (rule that)
  show ?thesis
  proof (rule that [of st2 t "abs_link t (phys pc0) page2 A1"])
    show "tb_gen_code phys gen w st pc0 csb flags cfl = Inr (st2, t)" by (simp add: tb_gen_code_def Let_def a(1) g(1))
    show "tb_invalidated_flag st2 \<or> live A \<subseteq> live (abs_link t (phys pc0) page2 A1) \<and>
        known A \<subseteq> known (abs_link t (phys pc0) page2 A1) \<and> (\<forall>u \<in> known A. tbs st2 u = tbs st u)"
    proof (cases "A1 = no_lists \<and> tb_invalidated_flag st1")
      case False
      with a(7) have A: "A1 = A" "\<forall>u. u \<noteq> t \<longrightarrow> tbs st1 u = tbs st u" by auto
      then have "\<forall>u \<in> known A. tbs st2 u = tbs st u" using a(4) g(4) by metis
      then show ?thesis by (auto simp: live_abs_link known_abs_link A(1))
    qed (simp add: g(11))
    show "live (abs_link t (phys pc0) page2 A1) \<subseteq> insert t (live A)" using a(7) by (auto simp: live_abs_link)
    show "\<forall>u \<in> live (abs_link t (phys pc0) page2 A1). u \<noteq> t \<longrightarrow> tbs st2 u = tbs st u"
      using a(7) g(4) by (auto simp: live_abs_link)
    show "whole st2 (abs_link t (phys pc0) page2 A1)" if "whole st A"
      using a(11) [OF that] by (simp add: whole_def known_abs_link g(12))
    show "live (abs_link t (phys pc0) page2 A1) = insert t (live A) \<and> t \<notin> known A \<or> live (abs_link t (phys pc0) page2 A1) = {t}"
      using a(4,7) by (auto simp: live_abs_link)
  qed (use a g in \<open>simp_all add: live_abs_link room_ok_def\<close>)
qed

section \<open>Looking a block up\<close>

lemma hash_find_chain:
  assumes "chain (\<lambda>t. phys_hash_next (ts t)) p xs" and "length xs < f"
  shows "hash_find f ts P p = Inr (List.find (\<lambda>t. P (ts t)) xs)"
  using assms
proof (induction xs arbitrary: p f)
  case Nil
  then show ?case by (cases f) auto
next
  case (Cons x xs)
  then obtain f' where f: "f = Suc f'" "length xs < f'" by (cases f) auto
  then show ?case using Cons by auto
qed

lemma hash_list_length:
  assumes "hash_rel st HL"
  shows "length (HL h) < list_fuel st"
proof -
  have "distinct (HL h)" using assms by (auto simp: hash_rel_def intro: chain_distinct)
  moreover have "set (HL h) \<subseteq> {..< nb_tbs st}" using assms by (auto simp: hash_rel_def)
  ultimately have "length (HL h) \<le> nb_tbs st"
    using card_mono [of "{..< nb_tbs st}" "set (HL h)"] by (simp add: distinct_card)
  then show ?thesis by (simp add: list_fuel_def)
qed

lemma tb_inv_jmp_cache:
  assumes inv: "tb_inv st A" and t: "t \<in> live A" "pc (tbs st t) = pc0"
  shows "tb_inv (set_jmp_cache st i pc0 t) A"
proof -
  have "caches_ok (set_jmp_cache st i pc0 t) (live A)"
    unfolding caches_ok_def
  proof (intro ballI allI impI)
    fix env j u assume env: "env \<in> set (cpus (set_jmp_cache st i pc0 t))" and c: "tb_jmp_cache env j = Some u"
    have ok: "\<forall>e \<in> set (cpus st). \<forall>j u. tb_jmp_cache e j = Some u \<longrightarrow>
        u \<in> live A \<and> j = tb_jmp_cache_hash_func (pc (tbs st u))"
      using inv by (simp add: tb_inv_def tb_rel_def caches_ok_def)
    have "u \<in> live A \<and> j = tb_jmp_cache_hash_func (pc (tbs st u))"
    proof (cases "i < length (cpus st)")
      case True
      have "env \<in> set (cpus st) \<or> env = (cpus st ! i)\<lparr>tb_jmp_cache :=
          (tb_jmp_cache (cpus st ! i))(tb_jmp_cache_hash_func pc0 := Some t)\<rparr>"
        using env set_update_subset_insert by (fastforce simp: set_jmp_cache_def)
      then show ?thesis
      proof
        assume "env = (cpus st ! i)\<lparr>tb_jmp_cache :=
          (tb_jmp_cache (cpus st ! i))(tb_jmp_cache_hash_func pc0 := Some t)\<rparr>"
        then show ?thesis using c t ok [rule_format, OF nth_mem [OF True], of j u] by (auto split: if_splits)
      qed (use ok c in blast)
    next
      case False
      then have "env \<in> set (cpus st)" using env by (simp add: set_jmp_cache_def list_update_beyond)
      then show ?thesis using ok c by blast
    qed
    then show "u \<in> live A \<and> j = tb_jmp_cache_hash_func (pc (tbs (set_jmp_cache st i pc0 t) u))"
      by (simp add: set_jmp_cache_def)
  qed
  moreover have "page_rel (set_jmp_cache st i pc0 t) (apage A) = page_rel st (apage A)"
    by (rule page_rel_cong) (simp_all add: set_jmp_cache_def)
  ultimately show ?thesis
    using inv by (simp add: tb_inv_def tb_rel_def hash_rel_def buffer_ok_def dead_ok_def) (simp add: set_jmp_cache_def)
qed

lemma matches_hash:
  assumes "tb_matches phys b pc0 csb fl" and "phys pc0 AND 0xFFF = pc0 AND 0xFFF"
  shows "tb_hash_index b = tb_phys_hash_func (phys pc0)"
  using assms page_split [of "phys pc0"] by (simp add: tb_matches_def tb_hash_index_def)

lemma tb_find_slow_inv:
  assumes inv: "tb_inv st A" and room: "room_ok st room" and w: "\<not> snd w" and gen: "gen_ok gen room"
    and ph: "phys_ok phys st pc0" "phys_ok phys st ((pc0 AND TARGET_PAGE_MASK) + TARGET_PAGE_SIZE)"
    and i: "i < length (cpus st)"
  obtains st' t A' where "tb_find_slow phys gen w st i pc0 csb flags = Inr (st', t)" "tb_inv st' A'" "t \<in> live A'"
    "tb_matches phys (tbs st' t) pc0 csb flags" "tb_jmp_cache (cpus st' ! i) (tb_jmp_cache_hash_func pc0) = Some t"
    "tb_invalidated_flag st' \<or> live A \<subseteq> live A' \<and> known A \<subseteq> known A' \<and> (\<forall>u \<in> known A. tbs st' u = tbs st u)"
    "length (cpus st') = length (cpus st)" "room_ok st' room"
    "ram_wf (ram st') = ram_wf (ram st)" "set (blocks (ram st')) = set (blocks (ram st))" "whole st A \<Longrightarrow> whole st' A'"
    "\<exists>u \<in> live A. tb_matches phys (tbs st u) pc0 csb flags \<Longrightarrow>
       st' = set_jmp_cache (st\<lparr>tb_invalidated_flag := False\<rparr>) i pc0 t \<and> A' = A"
proof -
  let ?h = "tb_phys_hash_func (phys pc0)" and ?P = "\<lambda>b. tb_matches phys b pc0 csb flags"
  define st0 where "st0 = st\<lparr>tb_invalidated_flag := False\<rparr>"
  have inv0: "tb_inv st0 A" by (rule tb_inv_dead [OF inv]) (simp_all add: st0_def)
  have hr: "hash_rel st (ahash A)" using inv by (simp add: tb_inv_def tb_rel_def)
  have f: "hash_find (list_fuel st0) (tbs st0) ?P (tb_phys_hash st0 ?h) =
      Inr (List.find (\<lambda>t. ?P (tbs st t)) (ahash A ?h))"
    using hash_find_chain [of "tbs st" "tb_phys_hash st ?h" "ahash A ?h" "list_fuel st" ?P]
      hash_list_length [OF hr, of ?h] hr by (simp add: hash_rel_def st0_def list_fuel_def)
  have jc: "tb_jmp_cache (cpus (set_jmp_cache s i pc0 t) ! i) (tb_jmp_cache_hash_func pc0) = Some t"
    if "length (cpus s) = length (cpus st)" for s t using i that by (simp add: set_jmp_cache_def)
  show ?thesis
  proof (cases "List.find (\<lambda>t. ?P (tbs st t)) (ahash A ?h)")
    case (Some t)
    then have t: "t \<in> set (ahash A ?h)" "?P (tbs st t)" by (auto simp: find_Some_iff)
    then have tl: "t \<in> live A" by (auto simp: live_def)
    have pc: "pc (tbs st0 t) = pc0" using t(2) by (simp add: tb_matches_def st0_def)
    have run: "tb_find_slow phys gen w st i pc0 csb flags = Inr (set_jmp_cache st0 i pc0 t, t)"
      using f Some by (simp add: tb_find_slow_def Let_def st0_def)
    show ?thesis
      by (rule that [OF run tb_inv_jmp_cache [OF inv0 tl pc] tl])
        (use t jc [of st0] room in \<open>simp_all add: set_jmp_cache_def st0_def room_ok_def whole_def\<close>)
  next
    case None
    have ph0: "phys_ok phys st0 pc0" "phys_ok phys st0 ((pc0 AND TARGET_PAGE_MASK) + TARGET_PAGE_SIZE)"
      using ph by (simp_all add: phys_ok_def ram_page_def st0_def)
    have room0: "room_ok st0 room" using room by (simp add: room_ok_def st0_def)
    obtain st1 t A' where g: "tb_gen_code phys gen w st0 pc0 csb flags 0 = Inr (st1, t)" "tb_inv st1 A'" "t \<in> live A'"
      "?P (tbs st1 t)" "tb_invalidated_flag st1 \<or> live A \<subseteq> live A' \<and> known A \<subseteq> known A' \<and> (\<forall>u \<in> known A. tbs st1 u = tbs st0 u)"
      "length (cpus st1) = length (cpus st0)" "room_ok st1 room"
      "ram_wf (ram st1) = ram_wf (ram st0)" "set (blocks (ram st1)) = set (blocks (ram st0))" "whole st0 A \<Longrightarrow> whole st1 A'"
      by (rule tb_gen_code_inv [OF inv0 room0 w gen ph0]) (rule that)
    have run: "tb_find_slow phys gen w st i pc0 csb flags = Inr (set_jmp_cache st1 i pc0 t, t)"
      using f None g(1) by (simp add: tb_find_slow_def Let_def st0_def)
    have pc: "pc (tbs st1 t) = pc0" using g(4) by (simp add: tb_matches_def)
    have no: "\<not> ?P (tbs st u)" if u: "u \<in> live A" for u
    proof
      assume P: "?P (tbs st u)"
      have "tb_hash_index (tbs st u) = ?h" by (rule matches_hash [OF P]) (use ph in \<open>simp add: phys_ok_def\<close>)
      moreover obtain h where h: "u \<in> set (ahash A h)" using u by (auto simp: live_def)
      ultimately have "u \<in> set (ahash A ?h)" using hash_rel_live(2) [OF hr h] by simp
      then show False using None P by (auto simp: find_None_iff)
    qed
    show ?thesis
      by (rule that [OF run tb_inv_jmp_cache [OF g(2,3) pc] g(3)])
        (use g jc [of st1] no in \<open>simp_all add: set_jmp_cache_def st0_def room_ok_def whole_def\<close>)
  qed
qed

lemma tb_find_fast_inv:
  assumes inv: "tb_inv st A" and room: "room_ok st room" and w: "\<not> snd w" and gen: "gen_ok gen room"
    and ph: "phys_ok phys st pc0" "phys_ok phys st ((pc0 AND TARGET_PAGE_MASK) + TARGET_PAGE_SIZE)"
    and i: "i < length (cpus st)"
  obtains st' t A' where "tb_find_fast phys gen w st i pc0 csb flags = Inr (st', t)" "tb_inv st' A'" "t \<in> live A'"
    "pc (tbs st' t) = pc0" "cs_base (tbs st' t) = csb" "tbflags (tbs st' t) = flags"
    "tb_jmp_cache (cpus st' ! i) (tb_jmp_cache_hash_func pc0) = Some t"
    "tb_invalidated_flag st' \<or> live A \<subseteq> live A' \<and> known A \<subseteq> known A' \<and> (\<forall>u \<in> known A. tbs st' u = tbs st u)"
    "length (cpus st') = length (cpus st)" "room_ok st' room"
    "ram_wf (ram st') = ram_wf (ram st)" "set (blocks (ram st')) = set (blocks (ram st))" "whole st A \<Longrightarrow> whole st' A'"
proof -
  let ?c = "tb_jmp_cache (cpus st ! i) (tb_jmp_cache_hash_func pc0)"
  let ?hit = "\<lambda>t. pc (tbs st t) = pc0 \<and> cs_base (tbs st t) = csb \<and> tbflags (tbs st t) = flags"
  show ?thesis
  proof (cases "\<exists>t. ?c = Some t \<and> ?hit t")
    case True
    then obtain t where t: "?c = Some t" "?hit t" by blast
    have "t \<in> live A" using inv t(1) nth_mem [OF i] by (auto simp: tb_inv_def tb_rel_def caches_ok_def)
    moreover have "tb_find_fast phys gen w st i pc0 csb flags = Inr (st, t)" using t by (simp add: tb_find_fast_def)
    ultimately show ?thesis using that [of st t A] inv room t by simp
  next
    case False
    then have "tb_find_fast phys gen w st i pc0 csb flags = tb_find_slow phys gen w st i pc0 csb flags"
      by (auto simp: tb_find_fast_def split: option.splits)
    moreover obtain st' t A' where "tb_find_slow phys gen w st i pc0 csb flags = Inr (st', t)" "tb_inv st' A'" "t \<in> live A'"
      "tb_matches phys (tbs st' t) pc0 csb flags" "tb_jmp_cache (cpus st' ! i) (tb_jmp_cache_hash_func pc0) = Some t"
      "tb_invalidated_flag st' \<or> live A \<subseteq> live A' \<and> known A \<subseteq> known A' \<and> (\<forall>u \<in> known A. tbs st' u = tbs st u)"
      "length (cpus st') = length (cpus st)" "room_ok st' room"
      "ram_wf (ram st') = ram_wf (ram st)" "set (blocks (ram st')) = set (blocks (ram st))" "whole st A \<Longrightarrow> whole st' A'"
      by (rule tb_find_slow_inv [OF inv room w gen ph i]) (rule that)
    ultimately show ?thesis by (intro that [of st' t A']) (simp_all add: tb_matches_def)
  qed
qed

text \<open>The answers of llvm_check_flush do not matter when the block is found.\<close>

lemma tb_find_slow_found:
  assumes "tb_rel st A" and "phys pc0 AND 0xFFF = pc0 AND 0xFFF" and u: "u \<in> live A" and P: "tb_matches phys (tbs st u) pc0 csb flags"
  shows "tb_find_slow phys gen w st i pc0 csb flags = tb_find_slow phys gen w' st i pc0 csb flags"
proof -
  let ?h = "tb_phys_hash_func (phys pc0)" and ?P = "\<lambda>b. tb_matches phys b pc0 csb flags"
  have hr: "hash_rel st (ahash A)" using assms(1) by (simp add: tb_rel_def)
  have "u \<in> set (ahash A ?h)"
    using u hash_rel_live(2) [OF hr, of u] matches_hash [OF P assms(2)] by (auto simp: live_def)
  with P obtain t where f: "List.find (\<lambda>t. ?P (tbs st t)) (ahash A ?h) = Some t"
    by (cases "List.find (\<lambda>t. ?P (tbs st t)) (ahash A ?h)") (auto simp: find_None_iff)
  have lf: "list_fuel (st\<lparr>tb_invalidated_flag := False\<rparr>) = list_fuel st" by (simp add: list_fuel_def)
  have "hash_find (list_fuel st) (tbs st) ?P (tb_phys_hash st ?h) = Inr (Some t)"
    using hash_find_chain [of "tbs st" "tb_phys_hash st ?h" "ahash A ?h" "list_fuel st"] hr f
      hash_list_length [OF hr, of ?h] by (simp add: hash_rel_def)
  then show ?thesis by (simp add: tb_find_slow_def Let_def lf)
qed

section \<open>Which block a lookup may return\<close>

text \<open>
  A block is a translation of what the guest executes at \<open>pc0\<close> when its key agrees and every byte
  of guest code that it was translated from is the byte that the address map gives for it now.
\<close>

definition translates :: "(u64 \<Rightarrow> u64) \<Rightarrow> TranslationBlock \<Rightarrow> u64 \<Rightarrow> u64 \<Rightarrow> u64 \<Rightarrow> bool" where
  "translates phys b pc0 csb fl \<longleftrightarrow> pc b = pc0 \<and> cs_base b = csb \<and> tbflags b = fl \<and>
     (\<forall>j < unat (tbsize b). code_byte b j = unat (phys (pc0 + of_nat j)))"

text \<open>The address map translates the page at \<open>p\<close> as a whole.\<close>

definition maps_page :: "(u64 \<Rightarrow> u64) \<Rightarrow> u64 \<Rightarrow> bool" where
  "maps_page phys p \<longleftrightarrow> phys p AND 0xFFF = 0 \<and> (\<forall>j < 4096. phys (p + of_nat j) = phys p + of_nat j)"

lemma unat_page_byte:
  fixes q :: u64
  assumes "q AND 0xFFF = 0" "x < 4096"
  shows "unat (q + of_nat x) = unat q + x"
proof -
  have "unat q mod 4096 = 0" using assms(1) unat_and_FFF [of q] by simp
  then have "4096 dvd unat q" by (simp add: mod_eq_0_iff_dvd)
  then obtain k where k: "unat q = 4096 * k" by blast
  have "4096 * k < 4096 * 2 ^ 52" using unsigned_less [of q] by (simp add: k [symmetric])
  then have "unat q + x < 2 ^ 64" using assms(2) unfolding k by simp
  then show ?thesis using assms(2) by (simp add: unat_word_ariths take_bit_nat_eq_self unat_of_nat)
qed

lemma maps_page_byte:
  assumes "maps_page phys p" "x < 4096"
  shows "unat (phys (p + of_nat x)) = unat (phys p) + x"
  using assms unat_page_byte [of "phys p" x] by (simp add: maps_page_def)

lemma tb_matches_translates:
  assumes b: "tb_block_ok b"
    and m: "maps_page phys (pc0 AND TARGET_PAGE_MASK)" "maps_page phys ((pc0 AND TARGET_PAGE_MASK) + TARGET_PAGE_SIZE)"
  shows "tb_matches phys b pc0 csb fl \<longleftrightarrow> translates phys b pc0 csb fl"
proof (cases "pc b = pc0 \<and> cs_base b = csb \<and> tbflags b = fl")
  case False
  then show ?thesis by (auto simp: tb_matches_def translates_def)
next
  case True
  let ?P = "pc0 AND TARGET_PAGE_MASK" and ?o = "unat (pc0 AND 0xFFF)" and ?z = "unat (tbsize b)"
  let ?q0 = "phys ?P" and ?q1 = "phys (?P + TARGET_PAGE_SIZE)"
  have o: "?o < 4096" by (simp add: unat_and_FFF)
  have z: "0 < ?z" "?z \<le> 4096" using b by (simp_all add: tb_block_ok_def)
  have one: "page_addr b 1 = NO_PAGE \<longleftrightarrow> ?o + ?z \<le> 4096" using b True by (simp add: tb_block_ok_def)
  have ad: "pc0 = ?P + of_nat ?o" using page_split [of pc0] by simp
  have v0: "pc0 + of_nat j = ?P + of_nat (?o + j)" for j by (subst ad) (simp add: add.assoc)
  have v1: "pc0 + of_nat j = (?P + TARGET_PAGE_SIZE) + of_nat (?o + j - 4096)" if "4096 \<le> ?o + j" for j
    unfolding v0 using that by (simp add: of_nat_diff)
  have p0: "phys pc0 AND TARGET_PAGE_MASK = ?q0"
  proof -
    have "phys (?P + of_nat ?o) = ?q0 + of_nat ?o" using m(1) o unfolding maps_page_def by blast
    then have "phys pc0 = ?q0 + of_nat ?o" by (simp only: ad [symmetric])
    moreover have "(?q0 + of_nat ?o) AND TARGET_PAGE_MASK = ?q0"
      by (rule page_add_offset) (use m(1) o in \<open>simp_all add: maps_page_def\<close>)
    ultimately show ?thesis by simp
  qed
  have first: "code_byte b j = unat (phys (pc0 + of_nat j)) \<longleftrightarrow> page_addr b 0 = ?q0" if "?o + j < 4096" for j
  proof -
    have "code_byte b j = unat (page_addr b 0) + (?o + j)" using that True by (simp add: code_byte_def Let_def)
    then show ?thesis unfolding v0 maps_page_byte [OF m(1) that] by (simp only: word_unat_eq_iff add_right_cancel)
  qed
  have second: "code_byte b j = unat (phys (pc0 + of_nat j)) \<longleftrightarrow> page_addr b 1 = ?q1" if "4096 \<le> ?o + j" "j < ?z" for j
  proof -
    have l: "?o + j - 4096 < 4096" using that o z by linarith
    have "code_byte b j = unat (page_addr b 1) + (?o + j - 4096)" using that(1) True by (simp add: code_byte_def Let_def)
    then show ?thesis unfolding v1 [OF that(1)] maps_page_byte [OF m(2) l] by (simp only: word_unat_eq_iff add_right_cancel)
  qed
  have "(\<forall>j < ?z. code_byte b j = unat (phys (pc0 + of_nat j))) \<longleftrightarrow>
      page_addr b 0 = ?q0 \<and> (page_addr b 1 = NO_PAGE \<or> page_addr b 1 = ?q1)"
  proof
    assume a: "\<forall>j < ?z. code_byte b j = unat (phys (pc0 + of_nat j))"
    have "?o + 0 < 4096" using o by simp
    from first [OF this] a [rule_format, OF z(1)] have "page_addr b 0 = ?q0" by (rule iffD1)
    moreover have "page_addr b 1 = ?q1" if "page_addr b 1 \<noteq> NO_PAGE"
    proof -
      have l: "?z - 1 < ?z" "4096 \<le> ?o + (?z - 1)" using z(1) that one by linarith+
      from second [OF l(2,1)] a [rule_format, OF l(1)] show ?thesis by (rule iffD1)
    qed
    ultimately show "page_addr b 0 = ?q0 \<and> (page_addr b 1 = NO_PAGE \<or> page_addr b 1 = ?q1)" by blast
  next
    assume a: "page_addr b 0 = ?q0 \<and> (page_addr b 1 = NO_PAGE \<or> page_addr b 1 = ?q1)"
    show "\<forall>j < ?z. code_byte b j = unat (phys (pc0 + of_nat j))"
    proof (intro allI impI)
      fix j assume j: "j < ?z"
      show "code_byte b j = unat (phys (pc0 + of_nat j))"
      proof (cases "?o + j < 4096")
        case True
        from first [OF this] conjunct1 [OF a] show ?thesis by (rule iffD2)
      next
        case False
        then have l: "page_addr b 1 \<noteq> NO_PAGE" "4096 \<le> ?o + j" using one j by linarith+
        then have "page_addr b 1 = ?q1" using a by blast
        with second [OF l(2) j] show ?thesis by (rule iffD2)
      qed
    qed
  qed
  with True p0 show ?thesis by (auto simp: tb_matches_def translates_def)
qed

lemma extent_core_cong:
  assumes "\<And>u. tb_core (ts' u) = tb_core (ts u)"
  shows "extent_ok lo hi ts' L = extent_ok lo hi ts L"
  using slots_cong(1,2) [of ts' ts, OF assms] tb_core_eqD(3) [OF assms] jexit_cong [of ts' ts, OF assms]
  by (simp add: extent_ok_def placed_def)

lemma tb_add_jump_inv:
  assumes inv: "tb_inv st A" and s: "(s, n) \<in> jump_slots (tbs st) (known A)" and t: "t \<in> live A"
  obtains A' where "tb_inv (tb_add_jump st s n t) A'" and "live A' = live A" "known A' = known A"
    and "jmp_next (tbs st s) n = None \<Longrightarrow> (s, n) \<in> set (ajmp A' t)"
proof (cases "jmp_next (tbs st s) n")
  case None
  note I = inv [unfolded tb_inv_def]
  have lk: "live A \<subseteq> known A" and tk: "t \<in> known A" using t by (auto simp: known_def)
  have sn: "s \<in> known A" "n < 2" using s by (simp_all add: jump_slots_def)
  let ?st = "tb_add_jump st s n t"
  note run = tb_add_jump_run [OF None sn(2), of t]
  have core: "tb_core (tbs ?st u) = tb_core (tbs st u)" for u by (simp add: run set_jmp_slot_def)
  have c: "code ?st = tb_set_jmp_target1 (code st) (jaddr (tbs st) (s, n)) (tc_ptr (tbs st t))" by (simp add: run)
  have free: "jmp_slot (tbs st) (s, n) = None" using None sn(2) by (simp add: jmp_slot_def)
  have rel: "tb_rel st A" and lay: "layout_ok (tbs st) (known A) (code st)" using I by blast+
  have fits: "rel32_fits (jaddr (tbs st) (s, n)) (tc_ptr (tbs st t))" using lay s tk by (simp add: layout_ok_def)
  have "jumps_ok (tbs st) (live A) (known A) ((ajmp A)(t := (s, n) # ajmp A t)) (code ?st)"
    unfolding c by (rule jumps_ok_add [OF lay _ _ lk s tk free]) (use I in \<open>auto simp: tb_rel_def\<close>)
  moreover have "layout_ok (tbs st) (known A) (code ?st)" unfolding c by (rule patch_slot(2) [OF lay s fits])
  ultimately have "tb_inv ?st (abs_add_jump (s, n) t A)"
    using tb_add_jump_rel [OF rel sn t None] I
    unfolding tb_inv_def slots_cong(3,4) [of "tbs ?st" "tbs st", OF core]
      extent_core_cong [of "tbs ?st" "tbs st", OF core] live_abs_add_jump tb_block_ok_core [OF core]
    by (simp add: abs_add_jump_def buffer_ok_def) (simp add: run)
  then show ?thesis by (rule that) (simp_all, simp add: abs_add_jump_def)
next
  case (Some a)
  then show ?thesis using that [of A] inv tb_add_jump_busy [of st s n t] by simp
qed

lemma tb_phys_invalidate_inv:
  assumes inv: "tb_inv st A" and t: "t \<in> live A"
  obtains st' where "tb_phys_invalidate st t NO_PAGE = Inr st'" and "tb_inv st' (abs_invalidate t A)"
    and "\<And>u. tb_core (tbs st' u) = tb_core (tbs st u)" and "buf_frame st st'" and "nb_tbs st' = nb_tbs st"
    and "\<And>u m. m < 2 \<Longrightarrow> jmp_next (tbs st u) m = None \<Longrightarrow> jmp_next (tbs st' u) m = None"
      "\<And>m. m < 2 \<Longrightarrow> jmp_next (tbs st' t) m = None"
    and "map (\<lambda>env. env\<lparr>tb_jmp_cache := (\<lambda>_. None)\<rparr>) (cpus st') = map (\<lambda>env. env\<lparr>tb_jmp_cache := (\<lambda>_. None)\<rparr>) (cpus st)"
    and "\<And>q. q < V_PAGES \<Longrightarrow> pd_get (l1_map st) (page_ptr q) \<noteq> None \<Longrightarrow> pd_get (l1_map st') (page_ptr q) \<noteq> None"
proof -
  note I = inv [unfolded tb_inv_def]
  have rel: "tb_rel st A" using I by blast
  obtain st' where r: "tb_phys_invalidate st t NO_PAGE = Inr st'" "tb_rel st' (abs_invalidate t A)"
    "\<And>u. tb_core (tbs st' u) = tb_core (tbs st u)" "buf_frame st st'"
    "code st' = reset_code (tbs st) (filter (\<lambda>k. fst k \<noteq> t) (ajmp A t)) (code st)" "nb_tbs st' = nb_tbs st"
    "\<And>u m. m < 2 \<Longrightarrow> jmp_next (tbs st u) m = None \<Longrightarrow> jmp_next (tbs st' u) m = None"
    "\<And>m. m < 2 \<Longrightarrow> jmp_next (tbs st' t) m = None"
    "map (\<lambda>env. env\<lparr>tb_jmp_cache := (\<lambda>_. None)\<rparr>) (cpus st') = map (\<lambda>env. env\<lparr>tb_jmp_cache := (\<lambda>_. None)\<rparr>) (cpus st)"
    "\<And>q. q < V_PAGES \<Longrightarrow> pd_get (l1_map st) (page_ptr q) \<noteq> None \<Longrightarrow> pd_get (l1_map st') (page_ptr q) \<noteq> None"
    by (rule tb_phys_invalidate_rel [OF rel t]) (rule that)
  have jr: "jmp_rel (tbs st) (known A) (ajmp A)" using rel by (simp add: tb_rel_def)
  have lk: "live A \<subseteq> known A" and tk: "t \<in> known A" using t by (auto simp: known_def)
  have lay: "layout_ok (tbs st) (known A) (code st)" and jo: "jumps_ok (tbs st) (live A) (known A) (ajmp A) (code st)"
    using I by blast+
  have j: "ajmp (abs_invalidate t A) = (\<lambda>s. filter (\<lambda>k. fst k \<noteq> t) (ajmp A s))(t := [])" by (simp add: abs_invalidate_def)
  have k: "known (abs_invalidate t A) = known A" unfolding known_abs_invalidate by (rule insert_absorb [OF tk])
  have "tb_inv st' (abs_invalidate t A)"
    using I r(2,4) jumps_ok_invalidate [OF lay jo jr lk tk]
    unfolding tb_inv_def slots_cong(3,4) [of "tbs st'" "tbs st", OF r(3)]
      extent_core_cong [of "tbs st'" "tbs st", OF r(3)] live_abs_invalidate k j r(5) tb_block_ok_core [OF r(3)]
    by (simp add: buf_frame_def buffer_ok_def)
  with r show ?thesis by (intro that)
qed

section \<open>The cache as a state machine\<close>

fun hash_list :: "nat \<Rightarrow> (nat \<Rightarrow> TranslationBlock) \<Rightarrow> tbptr \<Rightarrow> nat list" where
  "hash_list 0 ts p = []"
| "hash_list (Suc f) ts p = (case p of None \<Rightarrow> [] | Some t \<Rightarrow> t # hash_list f ts (phys_hash_next (ts t)))"

definition in_cache :: "TBContext \<Rightarrow> nat \<Rightarrow> bool" where
  "in_cache st t \<longleftrightarrow> t \<in> set (hash_list (list_fuel st) (tbs st) (tb_phys_hash st (tb_hash_index (tbs st t))))"

lemma hash_list_chain:
  "chain (\<lambda>t. phys_hash_next (ts t)) p xs \<Longrightarrow> length xs \<le> f \<Longrightarrow> hash_list f ts p = xs"
proof (induction xs arbitrary: p f)
  case Nil
  then show ?case by (cases f) auto
next
  case (Cons x xs)
  then obtain f' where "f = Suc f'" by (cases f) auto
  with Cons show ?case by auto
qed

lemma in_cache_live:
  assumes "tb_rel st A"
  shows "in_cache st t \<longleftrightarrow> t \<in> live A"
proof -
  have hr: "hash_rel st (ahash A)" using assms by (simp add: tb_rel_def)
  let ?h = "tb_hash_index (tbs st t)"
  have "hash_list (list_fuel st) (tbs st) (tb_phys_hash st ?h) = ahash A ?h"
    by (rule hash_list_chain) (use hr hash_list_length [OF hr, of ?h] in \<open>simp_all add: hash_rel_def\<close>)
  moreover have "t \<in> set (ahash A ?h)" if "t \<in> live A"
    using that hash_rel_live(2) [OF hr, of t] by (auto simp: live_def)
  ultimately show ?thesis by (auto simp: in_cache_def live_def)
qed

text \<open>
  An exit that cpu_exec may chain: one with a patchable jump, of a block that was generated since
  the last flush. The block need not be in the cache any more: tb_find_slow clears
  tb_invalidated_flag, so that cpu_exec also chains a block that was invalidated while its code
  was running. A flush never leaves such an exit behind: one in tb_gen_code makes cpu_exec
  forget the exit, and every other one leaves the running code through cpu_loop_exit.
\<close>

definition exit_ok :: "TBContext \<Rightarrow> tagptr \<Rightarrow> bool" where
  "exit_ok st p = (case p of None \<Rightarrow> True
     | Some (s, n) \<Rightarrow> s < nb_tbs st \<and> n < 2 \<and> tb_next_offset (tbs st s) n \<noteq> 0xffff)"

text \<open>
  One operation on the cache. Every lookup has its own address map \<open>phys\<close> (the guest may change
  its page tables between two of them), its own translator \<open>gen\<close> and its own answers of
  llvm_check_flush; the page of the address and the page behind it, where the code of the block
  may end, are RAM at that moment.
\<close>

inductive tb_step :: "nat \<Rightarrow> TBContext \<Rightarrow> TBContext \<Rightarrow> bool" for room where
  exec: "gen_ok gen room \<Longrightarrow> i < length (cpus st) \<Longrightarrow> phys_ok phys st pc0 \<Longrightarrow>
    phys_ok phys st ((pc0 AND TARGET_PAGE_MASK) + TARGET_PAGE_SIZE) \<Longrightarrow> exit_ok st next_tb \<Longrightarrow>
    cpu_exec_find_tb phys gen w st i pc0 csb flags next_tb = Inr (st', t) \<Longrightarrow> tb_step room st st'"
| invalidate: "in_cache st t \<Longrightarrow> tb_phys_invalidate st t NO_PAGE = Inr st' \<Longrightarrow> tb_step room st st'"
| flush: "tb_flush st = Inr st' \<Longrightarrow> tb_step room st st'"

text \<open>A lookup that returns did not need the second answer of llvm_check_flush.\<close>

lemma tb_gen_alloc_once:
  "tb_gen_alloc w st pc0 = Inr r \<Longrightarrow> tb_gen_alloc (fst w, False) st pc0 = Inr r"
  by (cases "tb_flush (fst (tb_alloc (fst w) st pc0))")
    (auto simp: tb_gen_alloc_def tb_alloc_def Let_def split: prod.splits option.splits if_splits)

lemma andthen_mono: "andthen r f = Inr y \<Longrightarrow> (\<And>x. r = Inr x \<Longrightarrow> r' = Inr x) \<Longrightarrow> andthen r' f = Inr y"
  by (cases r) auto

lemma andthen_mono2: "andthen r f = Inr y \<Longrightarrow> (\<And>x. f x = Inr y \<Longrightarrow> f' x = Inr y) \<Longrightarrow> andthen r f' = Inr y"
  by (cases r) auto

lemma tb_gen_code_once:
  assumes "tb_gen_code phys gen w st pc0 csb flags cfl = Inr r"
  shows "tb_gen_code phys gen (fst w, False) st pc0 csb flags cfl = Inr r"
  using assms unfolding tb_gen_code_def Let_def by (rule andthen_mono) (rule tb_gen_alloc_once)

lemma tb_find_slow_once:
  assumes "tb_find_slow phys gen w st i pc0 csb flags = Inr r"
  shows "tb_find_slow phys gen (fst w, False) st i pc0 csb flags = Inr r"
  using assms unfolding tb_find_slow_def Let_def
  by (rule andthen_mono2, elim andthen_mono) (auto simp: tb_gen_code_once split: option.splits)

lemma cpu_exec_find_tb_once:
  assumes "cpu_exec_find_tb phys gen w st i pc0 csb flags next_tb = Inr r"
  shows "cpu_exec_find_tb phys gen (fst w, False) st i pc0 csb flags next_tb = Inr r"
  using assms unfolding cpu_exec_find_tb_def
  by (rule andthen_mono) (auto simp: tb_find_fast_def tb_find_slow_once split: option.splits if_splits)

lemma tb_add_jump_frame:
  "tb_core (tbs (tb_add_jump st s n t) u) = tb_core (tbs st u)" "buf_frame st (tb_add_jump st s n t)"
  "cpus (tb_add_jump st s n t) = cpus st" "nb_tbs (tb_add_jump st s n t) = nb_tbs st"
  by (simp_all add: tb_add_jump_def Let_def tb_set_jmp_target_def upd_tb_def buf_frame_def)

lemma tb_inv_current:
  assumes "tb_inv st A"
  shows "tb_inv (st\<lparr>cpus := (cpus st)[i := (cpus st ! i)\<lparr>current_tb := c\<rparr>]\<rparr>) A"
proof (rule tb_inv_dead [OF assms])
  have "map tb_jmp_cache ((cpus st)[i := (cpus st ! i)\<lparr>current_tb := c\<rparr>]) = map tb_jmp_cache (cpus st)"
    by (cases "i < length (cpus st)") (simp_all add: map_update list_update_same_conv list_update_beyond)
  then show "map tb_jmp_cache (cpus (st\<lparr>cpus := (cpus st)[i := (cpus st ! i)\<lparr>current_tb := c\<rparr>]\<rparr>)) = map tb_jmp_cache (cpus st)"
    by simp
qed simp_all

lemma cpu_exec_find_tb_inv:
  assumes inv: "tb_inv st A" and wh: "whole st A" and room: "room_ok st room" and gen: "gen_ok gen room"
    and i: "i < length (cpus st)" and w: "\<not> snd w" and ph: "phys_ok phys st pc0" "phys_ok phys st ((pc0 AND TARGET_PAGE_MASK) + TARGET_PAGE_SIZE)"
    and ex: "exit_ok st next_tb"
  obtains st' t A' where "cpu_exec_find_tb phys gen w st i pc0 csb flags next_tb = Inr (st', t)"
    "tb_inv st' A'" "t \<in> live A'" "pc (tbs st' t) = pc0" "cs_base (tbs st' t) = csb" "tbflags (tbs st' t) = flags"
    "current_tb (cpus st' ! i) = Some t" "room_ok st' room" "length (cpus st') = length (cpus st)"
    "ram_wf (ram st') = ram_wf (ram st)" "set (blocks (ram st')) = set (blocks (ram st))" "whole st' A'"
proof -
  obtain st1 t A1 where f: "tb_find_fast phys gen w st i pc0 csb flags = Inr (st1, t)" "tb_inv st1 A1" "t \<in> live A1"
    "pc (tbs st1 t) = pc0" "cs_base (tbs st1 t) = csb" "tbflags (tbs st1 t) = flags"
    "tb_invalidated_flag st1 \<or> live A \<subseteq> live A1 \<and> known A \<subseteq> known A1 \<and> (\<forall>u \<in> known A. tbs st1 u = tbs st u)"
    "length (cpus st1) = length (cpus st)" "room_ok st1 room"
    "ram_wf (ram st1) = ram_wf (ram st)" "set (blocks (ram st1)) = set (blocks (ram st))" "whole st A \<Longrightarrow> whole st1 A1"
    by (rule tb_find_fast_inv [OF inv room w gen ph i]) (rule that)
  define nx where "nx = (if tb_invalidated_flag st1 then None else next_tb)"
  define st2 where "st2 = (if tb_invalidated_flag st1 then st1\<lparr>tb_invalidated_flag := False\<rparr> else st1)"
  define st3 where "st3 = (case nx of None \<Rightarrow> st2
     | Some (s, n) \<Rightarrow> if page_addr (tbs st2 t) 1 = NO_PAGE then tb_add_jump st2 s n t else st2)"
  have run: "cpu_exec_find_tb phys gen w st i pc0 csb flags next_tb =
      Inr (st3\<lparr>cpus := (cpus st3)[i := (cpus st3 ! i)\<lparr>current_tb := Some t\<rparr>]\<rparr>, t)"
  proof -
    have "(if tb_invalidated_flag st1 then (None, st1\<lparr>tb_invalidated_flag := False\<rparr>) else (next_tb, st1)) = (nx, st2)"
      by (simp add: nx_def st2_def)
    then show ?thesis by (simp only: cpu_exec_find_tb_def f(1) andthen_simps prod.case Let_def st3_def)
  qed
  have inv2: "tb_inv st2 A1" by (rule tb_inv_dead [OF f(2)]) (simp_all add: st2_def)
  have b2: "buf_frame st1 st2" "tbs st2 = tbs st1" "nb_tbs st2 = nb_tbs st1" by (simp_all add: st2_def buf_frame_def)
  have sl: "(s, n) \<in> jump_slots (tbs st2) (known A1)" if "nx = Some (s, n)" for s n
  proof -
    have nf: "\<not> tb_invalidated_flag st1" "next_tb = Some (s, n)" using that by (simp_all add: nx_def split: if_splits)
    with ex wh have "s \<in> known A" "n < 2" "tb_next_offset (tbs st s) n \<noteq> 0xffff"
      by (simp_all add: exit_ok_def whole_def)
    with f(7) nf show ?thesis by (auto simp: jump_slots_def b2)
  qed
  obtain A3 where inv3: "tb_inv st3 A3" "live A3 = live A1" "known A3 = known A1"
  proof (cases "\<exists>s n. nx = Some (s, n) \<and> page_addr (tbs st2 t) 1 = NO_PAGE")
    case True
    then obtain s n where sn: "nx = Some (s, n)" "page_addr (tbs st2 t) 1 = NO_PAGE" by blast
    from tb_add_jump_inv [OF inv2 sl [OF sn(1)] f(3)] obtain A' where
      "tb_inv (tb_add_jump st2 s n t) A'" "live A' = live A1" "known A' = known A1" by blast
    with sn show ?thesis by (intro that [of A']) (simp_all add: st3_def)
  next
    case False
    then have "st3 = st2" by (auto simp: st3_def split: option.splits)
    with inv2 show ?thesis by (intro that [of A1]) simp_all
  qed
  have core: "tb_core (tbs st3 u) = tb_core (tbs st1 u)" for u
    by (auto simp: st3_def tb_add_jump_frame b2 split: option.splits)
  have bf: "buf_frame st1 st3"
    using tb_add_jump_frame(2) [of st2 _ _ t] b2(1) unfolding st3_def buf_frame_def by (auto split: option.splits)
  note k = tb_core_eqD [OF core [of t]]
  have "nb_tbs st3 = nb_tbs st1" by (auto simp: st3_def tb_add_jump_frame b2 split: option.splits)
  then have wh3: "whole st3 A3" using f(12) [OF wh] inv3(3) by (simp add: whole_def)
  show ?thesis
    by (rule that [OF run tb_inv_current [OF inv3(1)]])
      (use f(3-6,8-11) k bf inv3(2) wh3 i in \<open>simp_all add: buf_frame_def room_ok_def whole_def\<close>)
qed

lemma tb_step_inv:
  assumes "tb_step room st st'" and "tb_inv st A" and "whole st A" and "room_ok st room"
  shows "\<exists>A'. tb_inv st' A' \<and> whole st' A' \<and> room_ok st' room"
  using assms(1)
proof cases
  case (exec gen i phys pc0 next_tb w csb flags t)
  show ?thesis
    by (rule cpu_exec_find_tb_inv [OF assms(2-4) exec(1,2) _ exec(3-5), of "(fst w, False)" csb flags])
      (use cpu_exec_find_tb_once [OF exec(6)] in auto)
next
  case (invalidate t)
  have t: "t \<in> live A" using invalidate(1) assms(2) in_cache_live [of st A t] by (simp add: tb_inv_def)
  have "known (abs_invalidate t A) = known A"
    unfolding known_abs_invalidate by (rule insert_absorb [OF live_known [OF t]])
  moreover obtain st1 where "tb_phys_invalidate st t NO_PAGE = Inr st1" "tb_inv st1 (abs_invalidate t A)"
    "buf_frame st st1" "nb_tbs st1 = nb_tbs st" by (rule tb_phys_invalidate_inv [OF assms(2) t]) (rule that)
  ultimately show ?thesis
    using invalidate(2) assms(3,4)
    by (intro exI [of _ "abs_invalidate t A"]) (simp add: room_ok_def buf_frame_def whole_def)
next
  case flush
  then show ?thesis
    using tb_inv_flush [OF assms(2) flush] assms(4)
    by (intro exI [of _ no_lists]) (auto simp: tb_flush_def room_ok_def whole_def split: if_splits)
qed

text \<open>The state after code_gen_alloc and before the first lookup.\<close>

definition tb_start :: "TBContext \<Rightarrow> bool" where
  "tb_start st \<longleftrightarrow> nb_tbs st = 0 \<and> tb_phys_hash st = (\<lambda>_. None) \<and> l1_map st = (\<lambda>_. LNull) \<and>
     (\<forall>env \<in> set (cpus st). tb_jmp_cache env = (\<lambda>_. None)) \<and> code_gen_ptr st = code_gen_buffer st \<and>
     unat (code_gen_buffer st) + unat (code_gen_buffer_size st) < 2 ^ 64 \<and> unat (code_gen_buffer_size st) \<le> 2 ^ 30"

lemma tb_start_inv:
  assumes "tb_start st"
  shows "tb_inv st no_lists"
proof -
  have "pd_get (\<lambda>_. LNull :: PageDesc lnode) p = None" for p by (cases p) auto
  then have "page_first st p = None" "page_bitmap (l1_map st) p = None" for p
    using assms by (simp_all add: page_first_def page_bitmap_def tb_start_def)
  moreover have "wf_map V_SPACE (l1_map st)" using assms by (simp add: tb_start_def wf_map_def)
  ultimately show ?thesis
    using assms by (simp add: tb_start_def tb_inv_def tb_rel_def hash_rel_def page_rel_def pages_ok_def jmp_rel_def
        caches_ok_def layout_ok_def jumps_ok_def extent_ok_def buffer_ok_def dead_ok_def) (simp add: no_lists_def)
qed

lemma tb_reach_inv:
  assumes "(tb_step room)\<^sup>*\<^sup>* st0 st" and "tb_start st0" and "room_ok st0 room"
  obtains A where "tb_inv st A" and "whole st A" and "room_ok st room"
proof -
  from assms have "\<exists>A. tb_inv st A \<and> whole st A \<and> room_ok st room"
  proof induction
    case base
    then show ?case using tb_start_inv [of st0] by (intro exI [of _ no_lists]) (simp add: whole_def tb_start_def)
  next
    case (step y z)
    then show ?case using tb_step_inv by metis
  qed
  then show ?thesis using that by blast
qed

section \<open>Properties\<close>

text \<open>
  C1: In every state that the cache can reach from the empty one by any number of lookups with
  translation and chaining, invalidations of single blocks and flushes, every patchable jump of
  a block in the cache leads either to the exit stub of that block or to the entry of a block
  that is in the cache, never to the code of a block that was invalidated; and every entry of
  the jump cache of every CPU is a block that is in the cache. Each lookup is for any CPU,
  address, cs_base and flags, under its own guest page tables, and may flush the cache when it
  is full or when the optimizer asks for it; it may chain any patchable exit of any block
  generated since the last flush, whether or not that block has been invalidated meanwhile.
  What is assumed of a lookup: it returns; the page of the address and the page behind it are
  RAM; and the translator (\<open>gen_ok\<close>) writes each block into the free part of the code buffer, at
  most \<open>room\<close> bytes, which the buffer keeps free behind the point where it counts as full, with
  its patchable jumps inside that part, from at least one byte and at most a page of guest code.
\<close>
theorem tb_reach_jumps_safe:
  assumes "tb_start st0" and "room_ok st0 room" and "(tb_step room)\<^sup>*\<^sup>* st0 st"
  shows "(\<forall>s n. in_cache st s \<and> n < 2 \<and> tb_next_offset (tbs st s) n \<noteq> 0xffff \<longrightarrow>
      branch_target (code st) (jop (tbs st) (s, n)) = Some (jexit (tbs st) (s, n)) \<or>
      (\<exists>t. in_cache st t \<and> branch_target (code st) (jop (tbs st) (s, n)) = Some (tc_ptr (tbs st t))))
    \<and> (\<forall>env \<in> set (cpus st). \<forall>i t. tb_jmp_cache env i = Some t \<longrightarrow> in_cache st t)"
proof -
  obtain A where inv: "tb_inv st A" by (rule tb_reach_inv [OF assms(3,1,2)])
  have ic: "in_cache st t \<longleftrightarrow> t \<in> live A" for t using in_cache_live inv by (simp add: tb_inv_def)
  have jo: "jumps_ok (tbs st) (live A) (known A) (ajmp A) (code st)" using inv by (simp add: tb_inv_def)
  have "t \<in> live A" if "t \<in> known A" "k \<in> set (ajmp A t)" for t k
    using inv that by (auto simp: tb_inv_def tb_rel_def dead_ok_def known_def)
  then have "branch_target (code st) (jop (tbs st) k) = Some (jexit (tbs st) k) \<or>
      (\<exists>t \<in> live A. branch_target (code st) (jop (tbs st) k) = Some (tc_ptr (tbs st t)))"
    if "k \<in> jump_slots (tbs st) (live A)" for k using jo that unfolding jumps_ok_def by blast
  then have "\<forall>s n. in_cache st s \<and> n < 2 \<and> tb_next_offset (tbs st s) n \<noteq> 0xffff \<longrightarrow>
      branch_target (code st) (jop (tbs st) (s, n)) = Some (jexit (tbs st) (s, n)) \<or>
      (\<exists>t. in_cache st t \<and> branch_target (code st) (jop (tbs st) (s, n)) = Some (tc_ptr (tbs st t)))"
    by (simp add: ic jump_slots_def Bex_def)
  moreover have "caches_ok st (live A)" using inv by (simp add: tb_inv_def tb_rel_def)
  ultimately show ?thesis unfolding caches_ok_def ic by blast
qed

text \<open>
  C21: In every reachable state no operation of the cache faults or runs out of rounds. The
  lookup of a guest address, with a flush and a translation when needed and with the chaining
  of any patchable exit of a block generated since the last flush, returns a block that is in
  the cache, has the requested pc, cs_base and flags and becomes the current block, provided
  that the page of the address and the page behind it are RAM, that the translator keeps to its
  part of the buffer and to a page of guest code (\<open>gen_ok\<close>) and that the optimizer does not
  ask for another flush right after a flush (the second tb_alloc of tb_gen_code would then return NULL). A block in the cache can be
  invalidated and is no longer in the cache then, while every other block stays; and the cache
  can be flushed.
\<close>
theorem tb_reach_progress:
  assumes "tb_start st0" and "room_ok st0 room" and "(tb_step room)\<^sup>*\<^sup>* st0 st" and "gen_ok gen room"
    and "i < length (cpus st)" and "\<not> snd w" and "phys_ok phys st pc0"
    and "phys_ok phys st ((pc0 AND TARGET_PAGE_MASK) + TARGET_PAGE_SIZE)" and "exit_ok st next_tb"
  shows "(\<exists>st' t. cpu_exec_find_tb phys gen w st i pc0 csb flags next_tb = Inr (st', t) \<and> in_cache st' t \<and>
      pc (tbs st' t) = pc0 \<and> cs_base (tbs st' t) = csb \<and> tbflags (tbs st' t) = flags \<and>
      current_tb (cpus st' ! i) = Some t)
    \<and> (\<forall>t. in_cache st t \<longrightarrow> (\<exists>st'. tb_phys_invalidate st t NO_PAGE = Inr st' \<and>
        (\<forall>u. in_cache st' u \<longleftrightarrow> in_cache st u \<and> u \<noteq> t)))
    \<and> (\<exists>st'. tb_flush st = Inr st' \<and> (\<forall>t. \<not> in_cache st' t))"
proof (intro conjI allI impI)
  obtain A where inv: "tb_inv st A" "whole st A" and room: "room_ok st room" by (rule tb_reach_inv [OF assms(3,1,2)])
  have ic: "in_cache s t \<longleftrightarrow> t \<in> live B" if "tb_inv s B" for s t B using in_cache_live that by (simp add: tb_inv_def)
  show "\<exists>st' t. cpu_exec_find_tb phys gen w st i pc0 csb flags next_tb = Inr (st', t) \<and> in_cache st' t \<and>
      pc (tbs st' t) = pc0 \<and> cs_base (tbs st' t) = csb \<and> tbflags (tbs st' t) = flags \<and>
      current_tb (cpus st' ! i) = Some t"
    by (rule cpu_exec_find_tb_inv [OF inv room assms(4-9), of csb flags]) (use ic in blast)
  fix t assume "in_cache st t"
  then have t: "t \<in> live A" using ic [OF inv(1)] by blast
  show "\<exists>st'. tb_phys_invalidate st t NO_PAGE = Inr st' \<and> (\<forall>u. in_cache st' u \<longleftrightarrow> in_cache st u \<and> u \<noteq> t)"
  proof (rule tb_phys_invalidate_inv [OF inv(1) t])
    fix st' assume r: "tb_phys_invalidate st t NO_PAGE = Inr st'" "tb_inv st' (abs_invalidate t A)"
    have "in_cache st' u \<longleftrightarrow> in_cache st u \<and> u \<noteq> t" for u
      unfolding ic [OF r(2)] ic [OF inv(1)] live_abs_invalidate by simp
    with r(1) show ?thesis by blast
  qed
next
  obtain A where inv: "tb_inv st A" by (rule tb_reach_inv [OF assms(3,1,2)])
  then obtain st' where fl: "tb_flush st = Inr st'" using tb_flush_ok by (auto simp: tb_inv_def)
  have "\<not> in_cache st' t" for t
    using tb_inv_flush [OF inv fl] in_cache_live [of st' no_lists t] by (simp add: tb_inv_def)
  with fl show "\<exists>st'. tb_flush st = Inr st' \<and> (\<forall>t. \<not> in_cache st' t)" by blast
qed

text \<open>A translator and a machine for the examples: four bytes of guest code and sixteen of host
  code per block, one patchable jump; 64 KiB of RAM and one CPU.\<close>

definition ex_gen :: gen_fun where
  "ex_gen b c = (b\<lparr>tbsize := 4, tb_next_offset := (\<lambda>n. if n = 0 then 5 else 0xffff), tb_jmp_offset := (\<lambda>_. 1)\<rparr>,
     c(tc_ptr b := 0xe9), 16)"

definition ex_tb :: TranslationBlock where
  "ex_tb = \<lparr>pc = 0, cs_base = 0, tbflags = 0, tbsize = 0, cflags = 0, tc_ptr = 0, opt_ptr = 0, phys_hash_next = None,
     page_next = (\<lambda>_. None), page_addr = (\<lambda>_. 0), tb_next_offset = (\<lambda>_. 0xffff), tb_jmp_offset = (\<lambda>_. 0),
     jmp_next = (\<lambda>_. None), jmp_first = None, icount = 0, ib_jmp_offset = 0, ib_num_chain = 0, tbmode = 0,
     tbinvalidated = False, tb_gen_pending = False, exec_count = 0, jmp_pc = (\<lambda>_. 0)\<rparr>"

definition ex_ram :: RAMList where
  "ex_ram = \<lparr>phys_dirty = (\<lambda>_. 0xff), dirty_size = 16,
     blocks = [\<lparr>rb_host = 0x100000, rb_offset = 0, rb_length = 0x10000, rb_idstr = ''ram''\<rparr>]\<rparr>"

definition ex_st :: TBContext where
  "ex_st = \<lparr>tbs = (\<lambda>_. ex_tb), nb_tbs = 0, tb_phys_hash = (\<lambda>_. None), l1_map = (\<lambda>_. LNull),
     cpus = [CPUState_zero], ram = ex_ram, code = (\<lambda>_. 0), code_gen_ptr = 0x40000000, code_gen_buffer = 0x40000000,
     code_gen_buffer_size = 0x1000, code_gen_buffer_max_size = 0x800, code_gen_max_blocks = 4,
     tb_invalidated_flag = False\<rparr>"

definition ex_phys :: "u64 \<Rightarrow> u64" where
  "ex_phys v = v AND 0xFFF"

lemma ex_gen_ok: "gen_ok ex_gen 16"
  unfolding gen_ok_def
proof (intro allI impI, elim conjE)
  fix b c b' c' sz assume g: "ex_gen b c = (b', c', sz)" and r: "unat (tc_ptr b) + 16 < 2 ^ 64"
  have b': "b' = b\<lparr>tbsize := 4, tb_next_offset := (\<lambda>n. if n = 0 then 5 else 0xffff), tb_jmp_offset := (\<lambda>_. 1)\<rparr>"
    and c': "c' = c(tc_ptr b := 0xe9)" and sz: "sz = 16" using g by (auto simp: ex_gen_def)
  have "unat (tc_ptr b + 5) = unat (tc_ptr b) + 5" using r by (simp add: unat_word_ariths)
  moreover have "jop (\<lambda>_. b') (0, 0) = tc_ptr b" "jexit (\<lambda>_. b') (0, 0) = tc_ptr b + 5"
    by (simp_all add: jop_def jaddr_def jexit_def b')
  ultimately have "placed (unat (tc_ptr b)) (unat (tc_ptr b) + 16) (\<lambda>_. b') (0, 0)" "c' (jop (\<lambda>_. b') (0, 0)) = 0xe9"
    by (simp_all add: placed_def c')
  then show "pc b' = pc b \<and> cs_base b' = cs_base b \<and> tbflags b' = tbflags b \<and> tc_ptr b' = tc_ptr b \<and>
     0 < unat (tbsize b') \<and> unat (tbsize b') \<le> 4096 \<and> unat sz \<le> 16 \<and>
     (\<forall>a. unat a < unat (tc_ptr b) \<or> unat (tc_ptr b) + unat sz \<le> unat a \<longrightarrow> c' a = c a) \<and>
     (\<forall>n < 2. tb_next_offset b' n \<noteq> 0xffff \<longrightarrow>
        placed (unat (tc_ptr b)) (unat (tc_ptr b) + unat sz) (\<lambda>_. b') (0, n) \<and> c' (jop (\<lambda>_. b') (0, n)) = 0xe9) \<and>
     (tb_next_offset b' 0 \<noteq> 0xffff \<and> tb_next_offset b' 1 \<noteq> 0xffff \<longrightarrow>
        five (jop (\<lambda>_. b') (0, 0)) \<inter> five (jop (\<lambda>_. b') (0, 1)) = {})"
    by (auto simp: b' c' sz)
qed

lemma ex_start: "tb_start ex_st" "room_ok ex_st 16"
  by (simp_all add: tb_start_def room_ok_def ex_st_def CPUState_zero_def)

lemma ex_ram_page: "ram_page ex_st 0"
  by (simp add: ram_page_def ex_st_def ex_ram_def ram_wf_def block_ok_def ram_range_def host_range_def apart_def)

lemma ex_phys_ok:
  assumes "ram_wf (ram st) = ram_wf (ram ex_st)" "set (blocks (ram st)) = set (blocks (ram ex_st))"
  shows "phys_ok ex_phys st v"
proof -
  have "phys_ok ex_phys ex_st v" using ex_ram_page by (simp add: phys_ok_def ex_phys_def and.assoc)
  then show ?thesis by (simp only: phys_ok_cong [OF assms])
qed

lemma ex_maps_page:
  assumes "p AND 0xFFF = 0"
  shows "maps_page ex_phys p"
proof -
  have "(p + of_nat j) AND 0xFFF = of_nat j" if "j < 4096" for j
  proof (rule word_unat_eq_iff [THEN iffD2])
    have "unat p mod 4096 = 0" using assms unat_and_FFF [of p] by simp
    then have "(unat p + j) mod 4096 = j" using that by (simp add: mod_add_left_eq [symmetric])
    then show "unat ((p + of_nat j) AND 0xFFF) = unat (of_nat j :: u64)"
      using unat_page_byte [OF assms that] that by (simp add: unat_and_FFF unat_of_nat)
  qed
  then show ?thesis using assms by (simp add: maps_page_def ex_phys_def)
qed

text \<open>A reachable state with a block in the cache.\<close>

lemma ex_reach:
  obtains st t where "(tb_step 16)\<^sup>*\<^sup>* ex_st st" and "in_cache st t" and "pc (tbs st t) = 0x100"
    and "length (cpus st) = 1" and "ram_wf (ram st) = ram_wf (ram ex_st)" "set (blocks (ram st)) = set (blocks (ram ex_st))"
    and "current_tb (cpus st ! 0) = Some t"
proof -
  have i: "0 < length (cpus ex_st)" and w: "\<not> snd (False, False)" and ex: "exit_ok ex_st None"
    and wh: "whole ex_st no_lists"
    by (simp_all add: ex_st_def exit_ok_def whole_def)
  have ph: "phys_ok ex_phys ex_st v" for v by (rule ex_phys_ok) simp_all
  obtain st' t A' where r: "cpu_exec_find_tb ex_phys ex_gen (False, False) ex_st 0 0x100 0 0 None = Inr (st', t)"
    "tb_inv st' A'" "t \<in> live A'" "pc (tbs st' t) = 0x100" "length (cpus st') = length (cpus ex_st)"
    "ram_wf (ram st') = ram_wf (ram ex_st)" "set (blocks (ram st')) = set (blocks (ram ex_st))"
    "current_tb (cpus st' ! 0) = Some t"
    by (rule cpu_exec_find_tb_inv [OF tb_start_inv [OF ex_start(1)] wh ex_start(2) ex_gen_ok i w ph ph ex]) (rule that)
  have "tb_step 16 ex_st st'" by (rule tb_step.exec [OF ex_gen_ok i ph ph ex r(1)])
  then have "(tb_step 16)\<^sup>*\<^sup>* ex_st st'" by simp
  moreover have "in_cache st' t" using in_cache_live [of st' A' t] r(2,3) by (simp add: tb_inv_def)
  ultimately show ?thesis using r(4-8) by (intro that) (simp_all add: ex_st_def)
qed

text \<open>The machine with one block in its cache.\<close>

lemma ex_block:
  obtains st page2 where "tb_gen_code ex_phys ex_gen (False, False) ex_st pc0 0 0 0 = Inr (st, 0)"
    and "tb_inv st (abs_link 0 (ex_phys pc0) page2 no_lists)" "tb_matches ex_phys (tbs st 0) pc0 0 0"
    and "page_addr (tbs st 0) 1 = page2" "tbsize (tbs st 0) = 4" "room_ok st 16" "length (cpus st) = 1"
    and "ram_wf (ram st) = ram_wf (ram ex_st)" "set (blocks (ram st)) = set (blocks (ram ex_st))"
    and "nb_tbs st = 1" "code_gen_buffer st = 0x40000000" "unat (code_gen_ptr st) \<le> 0x4000001F" "code_gen_max_blocks st = 4"
      "code_gen_buffer_max_size st = 0x800" "\<And>n. n < 2 \<Longrightarrow> jmp_next (tbs st 0) n = None" "tb_next_offset (tbs st 0) 0 = 5"
proof -
  obtain st1 where al: "tb_alloc False ex_st pc0 = (st1, Some 0)"
    by (simp add: tb_alloc_def ex_st_def)
  note a = tb_alloc_inv [OF tb_start_inv [OF ex_start(1)] al ex_start(2)]
  have ph: "phys_ok ex_phys st1 v" for v by (rule ex_phys_ok) (simp_all add: a(7))
  obtain st page2 where g: "tb_gen_link ex_phys ex_gen st1 0 (ex_phys pc0) pc0 0 0 0 = Inr (st, 0)"
    "tb_inv st (abs_link 0 (ex_phys pc0) page2 no_lists)" "tb_matches ex_phys (tbs st 0) pc0 0 0"
    "nb_tbs st = nb_tbs st1" "length (cpus st) = length (cpus st1)"
    "code_gen_buffer st = code_gen_buffer st1" "code_gen_buffer_size st = code_gen_buffer_size st1"
    "code_gen_buffer_max_size st = code_gen_buffer_max_size st1" "code_gen_max_blocks st = code_gen_max_blocks st1"
    "ram_wf (ram st) = ram_wf (ram st1)" "set (blocks (ram st)) = set (blocks (ram st1))" "page_addr (tbs st 0) 1 = page2"
    "\<exists>b c. tbsize (tbs st 0) = tbsize (fst (ex_gen b c)) \<and> tb_next_offset (tbs st 0) = tb_next_offset (fst (ex_gen b c))"
    "unat (code_gen_ptr st) \<le> unat (code_gen_ptr st1) + 16 + 15" "\<And>n. n < 2 \<Longrightarrow> jmp_next (tbs st 0) n = None"
    by (rule tb_gen_link_inv [OF a(1-4) ex_gen_ok a(6) ph ph]) (rule that)
  have "code_gen_ptr st1 = 0x40000000" using al by (auto simp: tb_alloc_def ex_st_def upd_tb_def)
  with g(14) have p: "unat (code_gen_ptr st) \<le> 0x4000001F" by simp
  have "tb_gen_code ex_phys ex_gen (False, False) ex_st pc0 0 0 0 = Inr (st, 0)"
    by (simp add: tb_gen_code_def Let_def tb_gen_alloc_def al g(1))
  moreover have "tbsize (tbs st 0) = 4" "tb_next_offset (tbs st 0) 0 = 5" using g(13) by (auto simp: ex_gen_def)
  moreover have "room_ok st 16" using ex_start(2) by (simp add: room_ok_def g a)
  ultimately show ?thesis
    using g p a(7-12,15) by (intro that [of st page2]) (simp_all add: ex_st_def)
qed

text \<open>The machine with two blocks, the first of them chained to the second.\<close>

lemma ex_chain:
  obtains st A where "tb_inv st A" "whole st A" "0 \<in> live A" "1 \<in> live A" "(0, 0) \<in> set (ajmp A 1)"
    and "tb_next_offset (tbs st 0) 0 = 5" "length (cpus st) = 1" "room_ok st 16"
proof -
  obtain st0 q where b: "tb_inv st0 (abs_link 0 (ex_phys 0x100) q no_lists)" "room_ok st0 16" "length (cpus st0) = 1"
    "ram_wf (ram st0) = ram_wf (ram ex_st)" "set (blocks (ram st0)) = set (blocks (ram ex_st))"
    "nb_tbs st0 = 1" "code_gen_buffer st0 = 0x40000000" "unat (code_gen_ptr st0) \<le> 0x4000001F" "code_gen_max_blocks st0 = 4"
      "code_gen_buffer_max_size st0 = 0x800" "\<And>n. n < 2 \<Longrightarrow> jmp_next (tbs st0 0) n = None" "tb_next_offset (tbs st0 0) 0 = 5"
    by (rule ex_block [of "0x100"]) (rule that)
  let ?A = "abs_link 0 (ex_phys 0x100) q no_lists"
  have "code_gen_buffer st0 \<le> code_gen_ptr st0"
    using b(1) by (simp add: tb_inv_def buffer_ok_def word_le_nat_alt)
  then have "unat (code_gen_ptr st0 - code_gen_buffer st0) \<le> 31" using b(7,8) by (simp add: unat_sub)
  then have "code_gen_ptr st0 - code_gen_buffer st0 < 0x800" by (simp add: word_less_nat_alt)
  then obtain st1 where al: "tb_alloc False st0 0x200 = (st1, Some 1)" by (simp add: tb_alloc_def b not_le)
  note a = tb_alloc_inv [OF b(1) al b(2)]
  have ph: "phys_ok ex_phys st1 v" for v by (rule ex_phys_ok) (simp_all add: a(7) b)
  obtain st2 page2 where g: "tb_inv st2 (abs_link 1 (ex_phys 0x200) page2 ?A)" "\<And>u. u \<noteq> 1 \<Longrightarrow> tbs st2 u = tbs st1 u"
    "nb_tbs st2 = nb_tbs st1" "length (cpus st2) = length (cpus st1)" "code_gen_buffer_size st2 = code_gen_buffer_size st1"
    "code_gen_buffer_max_size st2 = code_gen_buffer_max_size st1" "code_gen_max_blocks st2 = code_gen_max_blocks st1"
    by (rule tb_gen_link_inv [OF a(1-4) ex_gen_ok a(6) ph ph]) (rule that)
  let ?A2 = "abs_link 1 (ex_phys 0x200) page2 ?A"
  have t0: "tbs st2 0 = tbs st0 0" using g(2) [of 0] a(5) [of 0] by simp
  have L: "live ?A2 = {0, 1}" "known ?A2 = {0, 1}" by (auto simp: live_abs_link known_abs_link)
  have s: "(0, 0) \<in> jump_slots (tbs st2) (known ?A2)" by (simp add: jump_slots_def known_abs_link t0 b(12))
  have t: "1 \<in> live ?A2" by (simp add: live_abs_link)
  obtain A where r: "tb_inv (tb_add_jump st2 0 0 1) A" "live A = live ?A2" "known A = known ?A2"
    "jmp_next (tbs st2 0) 0 = None \<Longrightarrow> (0, 0) \<in> set (ajmp A 1)" by (rule tb_add_jump_inv [OF g(1) s t]) (rule that)
  note f = tb_add_jump_frame [of st2 0 0 1, unfolded buf_frame_def]
  have nb: "nb_tbs st2 = 2" using g(3) a(15) b(6) by simp
  show ?thesis
  proof (rule that [OF r(1)])
    show "whole (tb_add_jump st2 0 0 1) A" unfolding whole_def r(3) L(2) f(4) nb by auto
    show "0 \<in> live A" "1 \<in> live A" unfolding r(2) L(1) by simp_all
    show "(0, 0) \<in> set (ajmp A 1)" by (rule r(4)) (simp add: t0 b(11))
    show "tb_next_offset (tbs (tb_add_jump st2 0 0 1) 0) 0 = 5" using tb_core_eqD(8) [OF f(1) [of 0]] by (simp add: t0 b(12))
    show "length (cpus (tb_add_jump st2 0 0 1)) = 1" using f(3) g(4) a(8) b(3) by simp
    show "room_ok (tb_add_jump st2 0 0 1) 16" using f(2) b(2) by (simp add: room_ok_def g a)
  qed
qed

theorem tb_reach_jumps_safe_witness:
  "\<exists>st t. (tb_step 16)\<^sup>*\<^sup>* ex_st st \<and> in_cache st t \<and>
     (tb_next_offset (tbs st t) 0 \<noteq> 0xffff \<longrightarrow>
      branch_target (code st) (jop (tbs st) (t, 0)) = Some (jexit (tbs st) (t, 0)) \<or>
      (\<exists>u. in_cache st u \<and> branch_target (code st) (jop (tbs st) (t, 0)) = Some (tc_ptr (tbs st u))))"
proof -
  obtain st t where r: "(tb_step 16)\<^sup>*\<^sup>* ex_st st" "in_cache st t" by (rule ex_reach) (rule that)
  from tb_reach_jumps_safe [OF ex_start r(1)] r show ?thesis
    by (intro exI [of _ st] exI [of _ t]) simp
qed

theorem tb_reach_progress_witness:
  "\<exists>st t. (tb_step 16)\<^sup>*\<^sup>* ex_st st \<and> in_cache st t \<and>
     (\<exists>st' u. cpu_exec_find_tb ex_phys ex_gen (False, False) st 0 0x200 0 0 None = Inr (st', u) \<and> in_cache st' u) \<and>
     (\<exists>st'. tb_phys_invalidate st t NO_PAGE = Inr st' \<and> \<not> in_cache st' t)"
proof -
  obtain st t where r: "(tb_step 16)\<^sup>*\<^sup>* ex_st st" "in_cache st t" "length (cpus st) = 1"
    "ram_wf (ram st) = ram_wf (ram ex_st)" "set (blocks (ram st)) = set (blocks (ram ex_st))" by (rule ex_reach) (rule that)
  have i: "0 < length (cpus st)" and w: "\<not> snd (False, False)" and ex: "exit_ok st None" using r by (simp_all add: exit_ok_def)
  have ph: "phys_ok ex_phys st v" for v by (rule ex_phys_ok [OF r(4,5)])
  note p = tb_reach_progress [OF ex_start r(1) ex_gen_ok i w ph ph ex, of "0x200" 0 0]
  from p r show ?thesis by blast
qed

text \<open>
  C10: tb_phys_invalidate implements the removal of a block from three abstract lists: on a
  cache that represents the lists, invalidating a live block returns without fault, and the
  result represents the lists with every entry of the block filtered out of its hash list,
  of the lists of its one or two pages and of all jump lists; the key, the code address and
  the size of every block are unchanged.
\<close>
theorem tb_phys_invalidate_refines:
  assumes "tb_rel st A" and "t \<in> live A"
  shows "\<exists>st'. tb_phys_invalidate st t NO_PAGE = Inr st' \<and> tb_rel st' (abs_invalidate t A)
    \<and> live (abs_invalidate t A) = live A - {t}
    \<and> (\<forall>u. tb_core (tbs st' u) = tb_core (tbs st u)) \<and> nb_tbs st' = nb_tbs st \<and> tb_invalidated_flag st'"
  by (rule tb_phys_invalidate_rel [OF assms]) (use live_abs_invalidate in blast)

text \<open>
  C22: tb_link_page implements the insertion of a block into the abstract lists: for a block
  that has not been linked since the last flush, whose one or two pages lie in RAM, it returns
  without fault, the block becomes the head of its hash list and of its page lists with no jump to or from it,
  records its pages, and no other block changes.
\<close>
theorem tb_link_page_refines:
  assumes "tb_rel st A" and "t < nb_tbs st" and "t \<notin> known A" and "pc (tbs st t) AND 0xFFF = phys_pc AND 0xFFF"
    and "ram_page st (phys_pc AND TARGET_PAGE_MASK)" and "page2 = NO_PAGE \<or> ram_page st page2"
  shows "\<exists>st'. tb_link_page st t phys_pc page2 = Inr st' \<and> tb_rel st' (abs_link t phys_pc page2 A)
    \<and> live (abs_link t phys_pc page2 A) = insert t (live A)
    \<and> (\<forall>u. u \<noteq> t \<longrightarrow> tbs st' u = tbs st u)
    \<and> page_addr (tbs st' t) 0 = phys_pc AND TARGET_PAGE_MASK \<and> page_addr (tbs st' t) 1 = page2"
proof (rule tb_link_page_rel [OF assms])
  fix st' assume "tb_link_page st t phys_pc page2 = Inr st'" "tb_rel st' (abs_link t phys_pc page2 A)"
    "\<And>u. u \<noteq> t \<Longrightarrow> tbs st' u = tbs st u" "page_addr (tbs st' t) 0 = phys_pc AND TARGET_PAGE_MASK"
    "page_addr (tbs st' t) 1 = page2"
  then show ?thesis using live_abs_link by blast
qed

text \<open>
  C23: A guest address is translated at most once while its translation is in the cache, and a
  lookup never returns a translation of other code. A block translates what the guest executes
  at an address when its pc, cs_base and flags are those of the request and each byte of guest
  code it was translated from is the physical byte that the guest's page tables give for it
  now, in its first and in its second page. When the cache holds such a block, tb_find_slow
  returns such a block without translating, and only the jump cache of the CPU and the
  invalidation flag change; asked again, tb_find_fast returns the same block from the jump
  cache and changes nothing. In every case a block that tb_find_slow returns, found or newly
  generated, is in the cache and translates what the guest executes at the address. The page
  of the address and the page behind it are mapped page-wise and lie in RAM, and the translator
  keeps to its part of the buffer and to a page of guest code (\<open>gen_ok\<close>).
\<close>
theorem tb_find_slow_reuses:
  assumes "tb_inv st A" and "i < length (cpus st)" and "gen_ok gen room" and "room_ok st room"
    and "maps_page phys (pc0 AND TARGET_PAGE_MASK)" "maps_page phys ((pc0 AND TARGET_PAGE_MASK) + TARGET_PAGE_SIZE)"
    and "phys_ok phys st pc0" "phys_ok phys st ((pc0 AND TARGET_PAGE_MASK) + TARGET_PAGE_SIZE)"
  shows "((\<exists>u \<in> live A. translates phys (tbs st u) pc0 csb flags) \<longrightarrow>
      (\<exists>t \<in> live A. translates phys (tbs st t) pc0 csb flags
        \<and> tb_find_slow phys gen w st i pc0 csb flags =
            Inr (set_jmp_cache (st\<lparr>tb_invalidated_flag := False\<rparr>) i pc0 t, t)
        \<and> tb_find_fast phys gen w (set_jmp_cache (st\<lparr>tb_invalidated_flag := False\<rparr>) i pc0 t) i pc0 csb flags =
            Inr (set_jmp_cache (st\<lparr>tb_invalidated_flag := False\<rparr>) i pc0 t, t)))
    \<and> (\<forall>st' t. tb_find_slow phys gen w st i pc0 csb flags = Inr (st', t) \<longrightarrow>
        in_cache st' t \<and> translates phys (tbs st' t) pc0 csb flags)"
proof -
  have tr: "tb_matches phys (tbs s u) pc0 csb flags = translates phys (tbs s u) pc0 csb flags"
    if "tb_inv s B" "u \<in> live B" for s u B
    using tb_matches_translates [OF _ assms(5,6), of "tbs s u"] that by (simp add: tb_inv_def)
  have w: "\<not> snd (fst w, False)" by simp
  obtain st1 t A1 where f: "tb_find_slow phys gen (fst w, False) st i pc0 csb flags = Inr (st1, t)" "tb_inv st1 A1" "t \<in> live A1"
    "tb_matches phys (tbs st1 t) pc0 csb flags" "tb_jmp_cache (cpus st1 ! i) (tb_jmp_cache_hash_func pc0) = Some t"
    "\<exists>u \<in> live A. tb_matches phys (tbs st u) pc0 csb flags \<Longrightarrow>
       st1 = set_jmp_cache (st\<lparr>tb_invalidated_flag := False\<rparr>) i pc0 t \<and> A1 = A"
    by (rule tb_find_slow_inv [OF assms(1,4) w assms(3,7,8,2)]) (rule that)
  have "in_cache st' u \<and> translates phys (tbs st' u) pc0 csb flags"
    if "tb_find_slow phys gen w st i pc0 csb flags = Inr (st', u)" for st' u
    using tb_find_slow_once [OF that] f(1-4) tr [OF f(2,3)] in_cache_live [of st1 A1 t] by (simp add: tb_inv_def)
  moreover have "\<exists>t \<in> live A. translates phys (tbs st t) pc0 csb flags
        \<and> tb_find_slow phys gen w st i pc0 csb flags =
            Inr (set_jmp_cache (st\<lparr>tb_invalidated_flag := False\<rparr>) i pc0 t, t)
        \<and> tb_find_fast phys gen w (set_jmp_cache (st\<lparr>tb_invalidated_flag := False\<rparr>) i pc0 t) i pc0 csb flags =
            Inr (set_jmp_cache (st\<lparr>tb_invalidated_flag := False\<rparr>) i pc0 t, t)"
    if u: "u \<in> live A" "translates phys (tbs st u) pc0 csb flags" for u
  proof -
    have P: "tb_matches phys (tbs st u) pc0 csb flags" using tr [OF assms(1) u(1)] u(2) by simp
    with f(6) u(1) have st1: "st1 = set_jmp_cache (st\<lparr>tb_invalidated_flag := False\<rparr>) i pc0 t" "A1 = A" by blast+
    have same: "tb_find_slow phys gen w st i pc0 csb flags = tb_find_slow phys gen (fst w, False) st i pc0 csb flags"
      by (rule tb_find_slow_found [OF _ _ u(1) P]) (use assms(1,7) in \<open>simp_all add: tb_inv_def phys_ok_def\<close>)
    have "tb_find_fast phys gen w st1 i pc0 csb flags = Inr (st1, t)"
      using f(4,5) by (simp add: tb_find_fast_def tb_matches_def)
    moreover have "translates phys (tbs st t) pc0 csb flags"
      using tr [OF f(2,3)] f(4) by (simp add: st1 set_jmp_cache_def)
    ultimately show ?thesis using f(1,3) same unfolding st1 by (intro bexI [of _ t]) simp_all
  qed
  ultimately show ?thesis by blast
qed

lemma search_pc_correct:
  assumes "0 \<le> a" "a \<le> b + 1" "b < int nb"
    and "\<And>i j. i < j \<Longrightarrow> j < nb \<Longrightarrow> tc i < tc j"
    and "\<And>i. int i < a \<Longrightarrow> tc i \<le> p" and "\<And>i. b < int i \<Longrightarrow> i < nb \<Longrightarrow> p < tc i"
  defines "r \<equiv> search_pc tc p a b"
  shows "- 1 \<le> r \<and> r < int nb \<and> (0 \<le> r \<longrightarrow> tc (nat r) \<le> p) \<and> (\<forall>i. r < int i \<longrightarrow> i < nb \<longrightarrow> p < tc i)"
  using assms(1-6) unfolding r_def
proof (induction tc p a b rule: search_pc.induct)
  case (1 tc p a b)
  show ?case
  proof (cases "a \<le> b")
    case False
    then have "search_pc tc p a b = b" by (subst search_pc.simps) simp
    moreover have "tc (nat b) \<le> p" if "0 \<le> b" using "1.prems"(2,5) False that by simp
    ultimately show ?thesis using "1.prems" False by auto
  next
    case True
    define m where "m = (a + b) div 2"
    have m: "a \<le> m" "m \<le> b" using True by (auto simp: m_def)
    have mn: "nat m < nb" using m "1.prems"(1,3) by simp
    have le: "tc i \<le> tc (nat m)" if "int i \<le> m" for i
    proof (cases "int i = m")
      case False
      then have "i < nat m" using that by linarith
      then show ?thesis using "1.prems"(4) [of i "nat m"] mn by simp
    qed auto
    have ge: "tc (nat m) < tc i" if "m < int i" "i < nb" for i using "1.prems"(4) [of "nat m" i] that m "1.prems"(1) by auto
    consider "tc (nat m) = p" | "p < tc (nat m)" | "tc (nat m) < p" by fastforce
    then show ?thesis
    proof cases
      case 1
      then have "search_pc tc p a b = m" using True by (subst search_pc.simps) (auto simp: m_def Let_def)
      then show ?thesis using 1 m mn ge "1.prems"(1) by auto
    next
      case 2
      then have s: "search_pc tc p a b = search_pc tc p a (m - 1)" using True by (subst search_pc.simps) (auto simp: m_def Let_def)
      have hi: "p < tc i" if "m - 1 < int i" "i < nb" for i using 2 ge [of i] that by (cases "int i = m") auto
      have ne: "tc (nat m) \<noteq> p" using 2 by auto
      show ?thesis unfolding s
        by (rule "1.IH"(1) [OF True m_def refl ne 2]) (use "1.prems" m hi in auto)
    next
      case 3
      then have s: "search_pc tc p a b = search_pc tc p (m + 1) b" using True by (subst search_pc.simps) (auto simp: m_def Let_def)
      have lo: "tc i \<le> p" if "int i < m + 1" for i using 3 le [of i] that by auto
      have ne: "tc (nat m) \<noteq> p" "\<not> p < tc (nat m)" using 3 by auto
      show ?thesis unfolding s
        by (rule "1.IH"(2) [OF True m_def refl ne]) (use "1.prems" m lo in auto)
    qed
  qed
qed

text \<open>
  C24: tb_find_pc: when the blocks lie in the code buffer in the order of their indexes and the
  first starts the buffer, the binary search ends and returns, for a host address in the used
  part of the buffer, the last block that starts at or before it; for any other address it
  returns NULL.
\<close>
theorem tb_find_pc_correct:
  assumes "\<And>i j. i < j \<Longrightarrow> j < nb_tbs st \<Longrightarrow> tc_ptr (tbs st i) < tc_ptr (tbs st j)"
    and "0 < nb_tbs st" and "tc_ptr (tbs st 0) = code_gen_buffer st"
  shows "if code_gen_buffer st \<le> p \<and> p < code_gen_ptr st
    then \<exists>m < nb_tbs st. tb_find_pc st p = Some (int m) \<and> tc_ptr (tbs st m) \<le> p
       \<and> (\<forall>i. m < i \<and> i < nb_tbs st \<longrightarrow> p < tc_ptr (tbs st i))
    else tb_find_pc st p = None"
proof (cases "code_gen_buffer st \<le> p \<and> p < code_gen_ptr st")
  case True
  let ?r = "search_pc (\<lambda>t. tc_ptr (tbs st t)) p 0 (int (nb_tbs st) - 1)"
  have s: "- 1 \<le> ?r \<and> ?r < int (nb_tbs st) \<and> (0 \<le> ?r \<longrightarrow> tc_ptr (tbs st (nat ?r)) \<le> p) \<and>
      (\<forall>i. ?r < int i \<longrightarrow> i < nb_tbs st \<longrightarrow> p < tc_ptr (tbs st i))"
    by (rule search_pc_correct [of 0 "int (nb_tbs st) - 1" "nb_tbs st" "\<lambda>t. tc_ptr (tbs st t)" p]) (use assms in auto)
  have "0 \<le> ?r"
  proof (rule ccontr)
    assume "\<not> 0 \<le> ?r"
    then have "p < tc_ptr (tbs st 0)" using s assms(2) by auto
    with True assms(3) show False by auto
  qed
  then show ?thesis using True s assms(2) by (auto simp: tb_find_pc_def not_less not_le intro!: exI [of _ "nat ?r"])
next
  case False
  then show ?thesis by (auto simp: tb_find_pc_def)
qed

text \<open>Examples.\<close>

theorem tb_phys_invalidate_refines_witness:
  "\<exists>st A t st'. tb_rel st A \<and> t \<in> live A \<and> tb_phys_invalidate st t NO_PAGE = Inr st' \<and>
     tb_rel st' (abs_invalidate t A)"
proof -
  obtain st t where r: "(tb_step 16)\<^sup>*\<^sup>* ex_st st" "in_cache st t" by (rule ex_reach) (rule that)
  obtain A where "tb_inv st A" by (rule tb_reach_inv [OF r(1) ex_start])
  then have rel: "tb_rel st A" by (simp add: tb_inv_def)
  with r(2) have t: "t \<in> live A" by (simp add: in_cache_live)
  from tb_phys_invalidate_refines [OF rel t] rel t show ?thesis by blast
qed

theorem tb_link_page_refines_witness:
  "\<exists>st'. tb_link_page (ex_st\<lparr>nb_tbs := 1\<rparr>) 0 0 NO_PAGE = Inr st' \<and> page_addr (tbs st' 0) 0 = 0"
proof -
  let ?st = "ex_st\<lparr>nb_tbs := 1\<rparr>"
  have "tb_rel ex_st no_lists" using tb_start_inv [OF ex_start(1)] by (simp add: tb_inv_def)
  then have rel: "tb_rel ?st no_lists" by (rule tb_rel_dead) (simp_all add: ex_st_def)
  have h: "0 < nb_tbs ?st" "0 \<notin> known no_lists" "pc (tbs ?st 0) AND 0xFFF = 0 AND 0xFFF"
    by (simp_all add: ex_st_def ex_tb_def)
  have pg: "ram_page ?st (0 AND TARGET_PAGE_MASK)" using ex_ram_page by (simp add: ram_page_def)
  from tb_link_page_refines [OF rel h pg, of NO_PAGE] show ?thesis by auto
qed

theorem tb_find_slow_reuses_witness:
  "\<exists>st A t. tb_inv st A \<and> translates ex_phys (tbs st 0) 0xFFE 0 0 \<and> page_addr (tbs st 0) 1 \<noteq> NO_PAGE \<and> t \<in> live A \<and>
     tb_find_slow ex_phys ex_gen (False, False) st 0 0xFFE 0 0 =
        Inr (set_jmp_cache (st\<lparr>tb_invalidated_flag := False\<rparr>) 0 0xFFE t, t)"
proof -
  obtain st q where s: "tb_inv st (abs_link 0 (ex_phys 0xFFE) q no_lists)" "tb_matches ex_phys (tbs st 0) 0xFFE 0 0"
    "tbsize (tbs st 0) = 4" "room_ok st 16" "length (cpus st) = 1"
    "ram_wf (ram st) = ram_wf (ram ex_st)" "set (blocks (ram st)) = set (blocks (ram ex_st))"
    by (rule ex_block [of "0xFFE"]) (rule that)
  let ?A = "abs_link 0 (ex_phys 0xFFE) q no_lists"
  have t: "0 \<in> live ?A" by (simp add: live_abs_link)
  have i: "0 < length (cpus st)" using s(5) by simp
  have b: "tb_block_ok (tbs st 0)" using s(1) t by (simp add: tb_inv_def)
  have pc: "pc (tbs st 0) = 0xFFE" using s(2) by (simp add: tb_matches_def)
  have p1: "page_addr (tbs st 0) 1 \<noteq> NO_PAGE" using b s(3) pc by (simp add: tb_block_ok_def)
  have mp: "maps_page ex_phys (v AND TARGET_PAGE_MASK)" for v by (rule ex_maps_page) (simp add: and.assoc)
  have al: "((0xFFE :: u64) AND TARGET_PAGE_MASK) + TARGET_PAGE_SIZE = 0x1000 AND TARGET_PAGE_MASK" by simp
  have mp2: "maps_page ex_phys ((0xFFE AND TARGET_PAGE_MASK) + TARGET_PAGE_SIZE)" unfolding al by (rule mp)
  have ph: "phys_ok ex_phys st v" for v by (rule ex_phys_ok [OF s(6,7)])
  have tr: "translates ex_phys (tbs st 0) 0xFFE 0 0" using tb_matches_translates [OF b mp mp2] s(2) by simp
  from tb_find_slow_reuses [OF s(1) i ex_gen_ok s(4) mp mp2 ph ph, of 0 0 "(False, False)"] t tr p1 s(1) show ?thesis by blast
qed

theorem tb_find_pc_correct_witness:
  "tb_find_pc (ex_st\<lparr>tbs := (\<lambda>t. ex_tb\<lparr>tc_ptr := 0x40000000 + of_nat (16 * t)\<rparr>), nb_tbs := 2,
      code_gen_ptr := 0x40000020\<rparr>) 0x40000014 = Some 1"
proof -
  let ?st = "ex_st\<lparr>tbs := (\<lambda>t. ex_tb\<lparr>tc_ptr := 0x40000000 + of_nat (16 * t)\<rparr>), nb_tbs := 2, code_gen_ptr := 0x40000020\<rparr>"
  have h: "tc_ptr (tbs ?st i) < tc_ptr (tbs ?st j)" if "i < j" "j < nb_tbs ?st" for i j
  proof -
    have "i = 0" "j = 1" using that by simp_all
    then show ?thesis by simp
  qed
  have z: "0 < nb_tbs ?st" "tc_ptr (tbs ?st 0) = code_gen_buffer ?st" by (simp_all add: ex_st_def)
  have "code_gen_buffer ?st \<le> 0x40000014 \<and> 0x40000014 < code_gen_ptr ?st" by (simp add: ex_st_def)
  with tb_find_pc_correct [of ?st "0x40000014", OF h z] obtain m where m: "m < nb_tbs ?st"
    "tb_find_pc ?st 0x40000014 = Some (int m)" "\<forall>i. m < i \<and> i < nb_tbs ?st \<longrightarrow> 0x40000014 < tc_ptr (tbs ?st i)" by auto
  have "m \<noteq> 0" using m(3) [rule_format, of 1] by auto
  then have "m = 1" using m(1) by simp
  with m(2) show ?thesis by simp
qed

end
