(* ===== verification/TB_Unchain.thy ===== *)
theory TB_Unchain
  imports TB_Code
begin

text \<open>
  Unchaining: tb_reset_jump_recursive follows the chained jumps from the block that a CPU
  executes and gives every one of them its own exit back, so that the CPU returns to its
  main loop. It is used by cpu_interrupt and cpu_exit (exec.c).
\<close>

section \<open>Model\<close>

text \<open>The first loop of tb_reset_jump_recursive2: the block at the end of the jump list.\<close>

fun jmp_head :: "nat \<Rightarrow> (nat \<Rightarrow> TranslationBlock) \<Rightarrow> tagptr \<Rightarrow> nat result" where
  "jmp_head 0 ts p = Inl NoFuel"
| "jmp_head (Suc f) ts p =
     (case p of
        None \<Rightarrow> Inl NullDeref
      | Some (tb1, n1) \<Rightarrow> if n1 = 2 then Inr tb1 else jmp_head f ts (jmp_next (ts tb1) n1))"

text \<open>The first argument bounds the depth of the recursion; each level removes one jump.\<close>

function (sequential) tb_reset_jump_recursive :: "nat \<Rightarrow> TBContext \<Rightarrow> nat \<Rightarrow> TBContext result"
  and tb_reset_jump_recursive2 :: "nat \<Rightarrow> TBContext \<Rightarrow> nat \<Rightarrow> nat \<Rightarrow> TBContext result" where
  "tb_reset_jump_recursive 0 st tb = Inl NoFuel"
| "tb_reset_jump_recursive (Suc f) st tb =
     andthen (tb_reset_jump_recursive2 f st tb 0) (\<lambda>st. tb_reset_jump_recursive2 f st tb 1)"
| "tb_reset_jump_recursive2 f st tb n =
     (if jmp_next (tbs st tb) n = None then Inr st
      else andthen (jmp_head (list_fuel st) (tbs st) (jmp_next (tbs st tb) n)) (\<lambda>tb_next.
           andthen (jmp_unlink (list_fuel st) (tbs st) (tb_next, 2) (tb, n)) (\<lambda>ts.
           let st = st\<lparr>tbs := set_jmp_slot ts (tb, n) None\<rparr>;
               st = tb_reset_jump st tb n
           in tb_reset_jump_recursive f st tb_next)))"
  by pat_completeness auto
termination
  by (relation "measure (\<lambda>x. case x of Inl (f, _, _) \<Rightarrow> 2 * f | Inr (f, _, _, _) \<Rightarrow> 2 * f + 1)") auto

declare tb_reset_jump_recursive2.simps [simp del]

definition upd_cpu :: "nat \<Rightarrow> (CPUState \<Rightarrow> CPUState) \<Rightarrow> TBContext \<Rightarrow> TBContext" where
  "upd_cpu i f st = st\<lparr>cpus := (cpus st)[i := f (cpus st ! i)]\<rparr>"

definition cpu_unlink_tb :: "TBContext \<Rightarrow> nat \<Rightarrow> TBContext result" where
  "cpu_unlink_tb st i =
     (case current_tb (cpus st ! i) of
        None \<Rightarrow> Inr st
      | Some tb \<Rightarrow>
          let st = upd_cpu i (\<lambda>env. env\<lparr>current_tb := None\<rparr>) st
          in tb_reset_jump_recursive (list_fuel st) st tb)"

text \<open>
  cpu_interrupt. \<open>self\<close> is the answer of qemu_cpu_self, \<open>use_icount\<close> whether instructions are
  counted, \<open>can_io\<close> the answer of can_do_io; qemu_cpu_kick only wakes the host thread.
\<close>

definition cpu_interrupt :: "bool \<Rightarrow> bool \<Rightarrow> bool \<Rightarrow> TBContext \<Rightarrow> nat \<Rightarrow> u32 \<Rightarrow> TBContext result" where
  "cpu_interrupt self use_icount can_io st i msk =
     (let old_mask = interrupt_request (cpus st ! i);
          st = upd_cpu i (\<lambda>env. env\<lparr>interrupt_request := old_mask OR msk\<rparr>) st
      in if \<not> self then Inr st
         else if use_icount then
           let st = upd_cpu i (\<lambda>env. env\<lparr>icount_high := 0xffff\<rparr>) st
           in if \<not> can_io \<and> msk AND NOT old_mask \<noteq> 0 then Inl Abort else Inr st
         else cpu_unlink_tb st i)"

definition cpu_reset_interrupt :: "TBContext \<Rightarrow> nat \<Rightarrow> u32 \<Rightarrow> TBContext" where
  "cpu_reset_interrupt st i msk =
     upd_cpu i (\<lambda>env. env\<lparr>interrupt_request := interrupt_request env AND NOT msk\<rparr>) st"

definition cpu_exit :: "TBContext \<Rightarrow> nat \<Rightarrow> TBContext result" where
  "cpu_exit st i = cpu_unlink_tb (upd_cpu i (\<lambda>env. env\<lparr>exit_request := 1\<rparr>) st) i"

section \<open>One jump\<close>

lemma jmp_head_lseg:
  assumes "lseg (jmp_slot ts) p xs (Some (g, 2))" and "\<forall>k \<in> set xs. snd k < 2" and "length xs < f"
  shows "jmp_head f ts p = Inr g"
  using assms
proof (induction xs arbitrary: p f)
  case Nil
  then show ?case by (cases f) auto
next
  case (Cons x xs)
  then obtain f' where f: "f = Suc f'" by (cases f) auto
  obtain s n where x: "x = (s, n)" by fastforce
  have "jmp_head f' ts (jmp_next (ts s) n) = Inr g"
    by (rule Cons.IH) (use Cons.prems in \<open>auto simp: f x jmp_slot_def\<close>)
  with Cons.prems show ?case by (auto simp: f x)
qed

text \<open>The jump list that holds a given jump, as a segment from the jump and from its head.\<close>

lemma jmp_list_split:
  assumes rel: "jmp_rel ts L J" and g: "g \<in> L" and J: "J g = ys @ k # zs"
  shows "lseg (jmp_slot ts) (jmp_slot ts (g, 2)) (ys @ [k]) (jmp_slot ts k)"
    and "lseg (jmp_slot ts) (jmp_slot ts k) zs (Some (g, 2))"
proof -
  have el: "\<forall>x \<in> set (J g). snd x < 2" using rel g by (auto simp: jmp_rel_def)
  have "chain (jcut ts) (jmp_slot ts (g, 2)) (J g @ [(g, 2)])" using rel g by (simp add: jmp_rel_def)
  then have "lseg (jmp_slot ts) (jmp_slot ts (g, 2)) (ys @ k # zs) (Some (g, 2))"
    using el J by (subst (asm) jcut_lseg) auto
  then show "lseg (jmp_slot ts) (jmp_slot ts (g, 2)) (ys @ [k]) (jmp_slot ts k)"
    "lseg (jmp_slot ts) (jmp_slot ts k) zs (Some (g, 2))" by (auto simp: lseg_append)
qed

text \<open>Unlinking from the head of the list is unlinking from the jump itself, around the circle.\<close>

lemma jmp_unlink_head:
  assumes rel: "jmp_rel ts L J" and g: "g \<in> L" and k: "k \<in> set (J g)" and n: "length (J g) < f"
  shows "jmp_unlink f ts (g, 2) k = jmp_unlink f ts k k"
proof -
  obtain ys zs where J: "J g = ys @ k # zs" using k by (meson split_list)
  have d: "distinct (ys @ k # zs)" using jmp_rel_distinct(1) [OF rel g] J by simp
  have "jmp_unlink f ts (g, 2) k = Inr (set_jmp_slot ts (if ys = [] then (g, 2) else last ys) (jmp_slot ts k))"
    by (rule jl.rm_finds [OF jmp_list_split(1) [OF rel g J]]) (use d n J in auto)
  moreover obtain ts' where "jmp_unlink f ts k k = Inr ts'"
    "ts' = set_jmp_slot ts (if ys = [] then (g, 2) else last ys) (jmp_slot ts k)"
    using jmp_unlink_rel [OF rel g J n] by blast
  ultimately show ?thesis by simp
qed

lemma recursive2_step:
  assumes rel: "jmp_rel (tbs st) L J" and nb: "\<forall>u \<in> L. u < nb_tbs st"
    and g: "g \<in> L" and k: "(s, n) \<in> set (J g)"
  shows "tb_reset_jump_recursive2 f st s n =
     andthen (tb_jmp_remove st s n) (\<lambda>st. tb_reset_jump_recursive f (tb_reset_jump st s n) g)"
proof -
  obtain ys zs where J: "J g = ys @ (s, n) # zs" using k by (meson split_list)
  have el: "\<forall>x \<in> set (J g). snd x < 2" using rel g by (auto simp: jmp_rel_def)
  then have n: "n < 2" using k by auto
  have len: "length (J g) < list_fuel st" using jmp_rel_len [OF rel g nb] by (simp add: list_fuel_def)
  note z = jmp_list_split(2) [OF rel g J]
  have "jmp_slot (tbs st) (s, n) \<noteq> None" using z by (cases zs) auto
  then have ne: "jmp_next (tbs st s) n \<noteq> None" using n by (simp add: jmp_slot_def)
  have h: "jmp_head (list_fuel st) (tbs st) (jmp_next (tbs st s) n) = Inr g"
    by (rule jmp_head_lseg [of _ _ zs]) (use z n el J len in \<open>auto simp: jmp_slot_def\<close>)
  have u: "jmp_unlink (list_fuel st) (tbs st) (g, 2) (s, n) = jmp_unlink (list_fuel st) (tbs st) (s, n) (s, n)"
    by (rule jmp_unlink_head [OF rel g k len])
  show ?thesis
    by (simp add: tb_reset_jump_recursive2.simps tb_jmp_remove_def ne h u andthen_assoc Let_def)
qed

lemma jumps_ok_reset:
  assumes lay: "layout_ok ts K c" and ok: "jumps_ok ts L K J c" and LK: "L \<subseteq> K"
    and g: "g \<in> K" and k: "k \<in> set (J g)"
  defines "c' \<equiv> tb_set_jmp_target1 c (jaddr ts k) (jexit ts k)"
  shows "layout_ok ts K c'" and "jumps_ok ts L K (\<lambda>u. filter (\<lambda>x. x \<noteq> k) (J u)) c'"
proof -
  have ks: "k \<in> jump_slots ts K" using ok g k by (auto simp: jumps_ok_def)
  then have fits: "rel32_fits (jaddr ts k) (jexit ts k)" using lay by (simp add: layout_ok_def)
  note p = patch_slot [OF lay ks fits, folded c'_def]
  show "layout_ok ts K c'" by (rule p(2))
  show "jumps_ok ts L K (\<lambda>u. filter (\<lambda>x. x \<noteq> k) (J u)) c'"
    unfolding jumps_ok_def
  proof (intro conjI ballI impI)
    fix u x assume u: "u \<in> K" and x: "x \<in> set (filter (\<lambda>x. x \<noteq> k) (J u))"
    with ok have b: "x \<in> jump_slots ts K" "branch_target c (jop ts x) = Some (tc_ptr (ts u))" "x \<noteq> k"
      by (auto simp: jumps_ok_def)
    then show "x \<in> jump_slots ts K" "branch_target c' (jop ts x) = Some (tc_ptr (ts u))" using p(3) by auto
  next
    fix x assume x: "x \<in> jump_slots ts L" and no: "\<forall>u \<in> K. x \<notin> set (filter (\<lambda>x. x \<noteq> k) (J u))"
    have xK: "x \<in> jump_slots ts K" using x jump_slots_mono [OF LK] by blast
    show "branch_target c' (jop ts x) = Some (jexit ts x)"
    proof (cases "x = k")
      case False
      then have "\<forall>u \<in> K. x \<notin> set (J u)" using no by auto
      with ok x have "branch_target c (jop ts x) = Some (jexit ts x)" by (simp add: jumps_ok_def)
      then show ?thesis using p(3) [OF xK False] by simp
    qed (simp add: p(1))
  qed
qed

definition drop_jump :: "nat \<times> nat \<Rightarrow> TBLists \<Rightarrow> TBLists" where
  "drop_jump k A = A\<lparr>ajmp := (\<lambda>u. filter (\<lambda>x. x \<noteq> k) (ajmp A u))\<rparr>"

lemma live_drop_jump [simp]: "live (drop_jump k A) = live A" "adead (drop_jump k A) = adead A"
  "known (drop_jump k A) = known A"
  by (simp_all add: drop_jump_def live_def known_def)

definition run_frame :: "TBContext \<Rightarrow> TBContext \<Rightarrow> bool" where
  "run_frame st st' \<longleftrightarrow> (\<forall>u. tb_core (tbs st' u) = tb_core (tbs st u)) \<and> buf_frame st st' \<and>
     cpus st' = cpus st \<and> nb_tbs st' = nb_tbs st \<and> l1_map st' = l1_map st"

lemma run_frame_trans: "run_frame st st' \<Longrightarrow> run_frame st' st'' \<Longrightarrow> run_frame st st''"
  by (simp add: run_frame_def buf_frame_def)

lemma jmp_rel_el:
  assumes "jmp_rel ts L J" "g \<in> L" "k \<in> set (J g)"
  shows "fst k \<in> L" "snd k < 2"
  using assms unfolding jmp_rel_def by blast+

lemma unchain_inv:
  assumes inv: "tb_inv st A" and g: "g \<in> known A" and k: "(s, n) \<in> set (ajmp A g)"
  obtains st1 where "tb_jmp_remove st s n = Inr st1" and "tb_inv (tb_reset_jump st1 s n) (drop_jump (s, n) A)"
    and "run_frame st (tb_reset_jump st1 s n)"
proof -
  note I = inv [unfolded tb_inv_def]
  have rel: "tb_rel st A" using I by blast
  have jr: "jmp_rel (tbs st) (known A) (ajmp A)" using rel by (simp add: tb_rel_def)
  have nb: "\<forall>u \<in> known A. u < nb_tbs st" using known_less [OF rel] by blast
  have sn: "s \<in> known A" "n < 2" using jmp_rel_el [OF jr g k] by simp_all
  obtain ts where r: "tb_jmp_remove st s n = Inr (st\<lparr>tbs := ts\<rparr>)"
    "jmp_rel ts (known A) (\<lambda>u. filter (\<lambda>x. x \<noteq> (s, n)) (ajmp A u))"
    "\<And>u. ts u = (tbs st u)\<lparr>jmp_next := jmp_next (ts u), jmp_first := jmp_first (ts u)\<rparr>"
    by (rule tb_jmp_remove_rel [OF jr sn nb]) (rule that)
  have f: "tb_core (ts u) = tb_core (tbs st u)" "phys_hash_next (ts u) = phys_hash_next (tbs st u)"
    "page_next (ts u) = page_next (tbs st u)" for u by (subst r(3), simp)+
  let ?c = "tb_set_jmp_target1 (code st) (jaddr (tbs st) (s, n)) (jexit (tbs st) (s, n))"
  have e: "tb_reset_jump (st\<lparr>tbs := ts\<rparr>) s n = st\<lparr>tbs := ts, code := ?c\<rparr>"
    using jaddr_cong [of ts "tbs st", OF f(1)] jexit_cong [of ts "tbs st", OF f(1)]
    by (simp add: tb_reset_jump_def tb_set_jmp_target_def) (simp add: jaddr_def jexit_def fun_eq_iff)
  have lay: "layout_ok (tbs st) (known A) (code st)" and jo: "jumps_ok (tbs st) (live A) (known A) (ajmp A) (code st)"
    and lk: "live A \<subseteq> known A" using I by (auto simp: known_def)
  have "tb_rel (st\<lparr>tbs := ts, code := ?c\<rparr>) (drop_jump (s, n) A)"
    by (rule tb_rel_jumps_cong [OF rel _ _ _ _ f]) (use r(2) rel in \<open>simp_all add: drop_jump_def tb_rel_def dead_ok_def\<close>)
  then have "tb_inv (st\<lparr>tbs := ts, code := ?c\<rparr>) (drop_jump (s, n) A)"
    using I jumps_ok_reset [OF lay jo lk g k]
    by (simp add: tb_inv_def slots_cong(3,4) [of ts "tbs st", OF f(1)] extent_core_cong [of ts "tbs st", OF f(1)]
        buffer_ok_def tb_block_ok_core [OF f(1)]) (simp add: drop_jump_def)
  then show ?thesis by (intro that [OF r(1)]) (simp_all add: e run_frame_def buf_frame_def f)
qed

section \<open>The recursion\<close>

definition jump_set :: "TBLists \<Rightarrow> (nat \<times> nat) set" where
  "jump_set A = (\<Union>g \<in> known A. set (ajmp A g))"

text \<open>No chained jump leaves block \<open>t\<close>.\<close>

definition no_out :: "TBLists \<Rightarrow> nat \<Rightarrow> bool" where
  "no_out A t \<longleftrightarrow> (\<forall>n. (t, n) \<notin> jump_set A)"

text \<open>Jumps were removed, and the target of a removed jump has no chained jump left.\<close>

definition unchained :: "TBLists \<Rightarrow> TBLists \<Rightarrow> bool" where
  "unchained A A' \<longleftrightarrow> live A' = live A \<and> known A' = known A \<and> apage A' = apage A \<and> (\<forall>g. set (ajmp A' g) \<subseteq> set (ajmp A g)) \<and>
     (\<forall>g \<in> known A. set (ajmp A g) \<noteq> set (ajmp A' g) \<longrightarrow> no_out A' g)"

lemma unchained_refl [simp]: "unchained A A"
  by (simp add: unchained_def)

lemma jump_set_mono: "unchained A A' \<Longrightarrow> jump_set A' \<subseteq> jump_set A"
  by (fastforce simp: unchained_def jump_set_def)

lemma no_out_mono: "jump_set A' \<subseteq> jump_set A \<Longrightarrow> no_out A t \<Longrightarrow> no_out A' t"
  by (auto simp: no_out_def)

lemma unchained_trans:
  assumes a: "unchained A A'" and b: "unchained A' A''"
  shows "unchained A A''"
proof -
  have "no_out A'' g" if "g \<in> known A" "set (ajmp A g) \<noteq> set (ajmp A'' g)" for g
  proof (cases "set (ajmp A g) = set (ajmp A' g)")
    case True
    with that a b show ?thesis by (simp add: unchained_def)
  next
    case False
    with that a have "no_out A' g" by (simp add: unchained_def)
    then show ?thesis by (rule no_out_mono [OF jump_set_mono [OF b]])
  qed
  moreover have "set (ajmp A'' g) \<subseteq> set (ajmp A g)" for g using a b unfolding unchained_def by blast
  ultimately show ?thesis using a b by (simp add: unchained_def)
qed

lemma jump_set_bound:
  assumes "tb_rel st A"
  shows "finite (jump_set A)" and "card (jump_set A) \<le> 2 * nb_tbs st"
proof -
  have "jump_set A \<subseteq> {..< nb_tbs st} \<times> {..< 2}"
  proof
    fix k assume "k \<in> jump_set A"
    then obtain g where g: "g \<in> known A" "k \<in> set (ajmp A g)" by (auto simp: jump_set_def)
    have "jmp_rel (tbs st) (known A) (ajmp A)" using assms by (simp add: tb_rel_def)
    from jmp_rel_el [OF this g] known_less [OF assms, of "fst k"] show "k \<in> {..< nb_tbs st} \<times> {..< 2}"
      by (cases k) simp
  qed
  moreover have "card ({..< nb_tbs st} \<times> {..< 2 :: nat}) = 2 * nb_tbs st" by simp
  ultimately show "finite (jump_set A)" "card (jump_set A) \<le> 2 * nb_tbs st"
    by (auto intro: finite_subset dest: card_mono [rotated])
qed

lemma recursive2_inv:
  assumes inv: "tb_inv st A" and t: "t \<in> known A" "n < 2" and card: "card (jump_set A) \<le> f"
    and IH: "\<And>st A t. tb_inv st A \<Longrightarrow> t \<in> known A \<Longrightarrow> card (jump_set A) < f \<Longrightarrow>
      \<exists>st' A'. tb_reset_jump_recursive f st t = Inr st' \<and> tb_inv st' A' \<and> unchained A A' \<and> no_out A' t \<and> run_frame st st'"
  shows "\<exists>st' A'. tb_reset_jump_recursive2 f st t n = Inr st' \<and> tb_inv st' A' \<and> unchained A A' \<and>
    (t, n) \<notin> jump_set A' \<and> run_frame st st'"
proof -
  have rel: "tb_rel st A" using inv by (simp add: tb_inv_def)
  have jr: "jmp_rel (tbs st) (known A) (ajmp A)" using rel by (simp add: tb_rel_def)
  have nb: "\<forall>u \<in> known A. u < nb_tbs st" using known_less [OF rel] by blast
  show ?thesis
  proof (cases "(t, n) \<in> jump_set A")
    case False
    have "jmp_next (tbs st t) n = None"
    proof (rule ccontr)
      assume "jmp_next (tbs st t) n \<noteq> None"
      then have "jmp_slot (tbs st) (t, n) \<noteq> None" using t(2) by (simp add: jmp_slot_def)
      with jr t False show False unfolding jmp_rel_def jump_set_def by blast
    qed
    then have "tb_reset_jump_recursive2 f st t n = Inr st" by (simp add: tb_reset_jump_recursive2.simps)
    with inv False show ?thesis by (intro exI [of _ st] exI [of _ A]) (simp add: run_frame_def buf_frame_def)
  next
    case True
    then obtain g where g: "g \<in> known A" "(t, n) \<in> set (ajmp A g)" by (auto simp: jump_set_def)
    obtain st1 where s: "tb_jmp_remove st t n = Inr st1" "tb_inv (tb_reset_jump st1 t n) (drop_jump (t, n) A)"
      "run_frame st (tb_reset_jump st1 t n)" by (rule unchain_inv [OF inv g]) (rule that)
    have js: "jump_set (drop_jump (t, n) A) = jump_set A - {(t, n)}" by (auto simp: jump_set_def drop_jump_def live_def known_def)
    have "card (jump_set (drop_jump (t, n) A)) < card (jump_set A)"
      unfolding js by (rule card_Diff1_less [OF jump_set_bound(1) [OF rel] True])
    then have c: "card (jump_set (drop_jump (t, n) A)) < f" using card by simp
    have gl: "g \<in> known (drop_jump (t, n) A)" using g(1) by simp
    from IH [OF s(2) gl c] obtain st' A' where r: "tb_reset_jump_recursive f (tb_reset_jump st1 t n) g = Inr st'"
      "tb_inv st' A'" "unchained (drop_jump (t, n) A) A'" "no_out A' g" "run_frame (tb_reset_jump st1 t n) st'" by blast
    have "tb_reset_jump_recursive2 f st t n = Inr st'" using recursive2_step [OF jr nb g] s(1) r(1) by simp
    moreover have "unchained A A'"
      unfolding unchained_def
    proof (intro conjI allI ballI impI)
      show "live A' = live A" "known A' = known A" "apage A' = apage A" using r(3) by (simp_all add: unchained_def) (simp add: drop_jump_def)
      show "set (ajmp A' h) \<subseteq> set (ajmp A h)" for h using r(3) by (auto simp: unchained_def drop_jump_def)
      fix h assume h: "h \<in> known A" "set (ajmp A h) \<noteq> set (ajmp A' h)"
      show "no_out A' h"
      proof (cases "h = g")
        case False
        then have "(t, n) \<notin> set (ajmp A h)" using jmp_rel_disjoint [OF jr g(1) h(1) g(2)] by blast
        then have "set (ajmp (drop_jump (t, n) A) h) = set (ajmp A h)" by (auto simp: drop_jump_def)
        with h r(3) show ?thesis by (simp add: unchained_def)
      qed (simp add: r(4))
    qed
    moreover have "(t, n) \<notin> jump_set A'" using jump_set_mono [OF r(3)] js by blast
    ultimately show ?thesis using r(2) run_frame_trans [OF s(3) r(5)] by blast
  qed
qed

lemma recursive_inv:
  "tb_inv st A \<Longrightarrow> t \<in> known A \<Longrightarrow> card (jump_set A) < f \<Longrightarrow>
     \<exists>st' A'. tb_reset_jump_recursive f st t = Inr st' \<and> tb_inv st' A' \<and> unchained A A' \<and> no_out A' t \<and> run_frame st st'"
proof (induction f arbitrary: st A t)
  case 0
  then show ?case by simp
next
  case (Suc f)
  have c: "card (jump_set A) \<le> f" using Suc.prems(3) by simp
  from recursive2_inv [OF Suc.prems(1,2) _ c Suc.IH, of 0] obtain st1 A1 where
    r1: "tb_reset_jump_recursive2 f st t 0 = Inr st1" "tb_inv st1 A1" "unchained A A1" "(t, 0) \<notin> jump_set A1" "run_frame st st1"
    by auto
  have rel: "tb_rel st A" using Suc.prems(1) by (simp add: tb_inv_def)
  have t1: "t \<in> known A1" using Suc.prems(2) r1(3) by (simp add: unchained_def)
  have "card (jump_set A1) \<le> card (jump_set A)" by (rule card_mono [OF jump_set_bound(1) [OF rel] jump_set_mono [OF r1(3)]])
  then have c1: "card (jump_set A1) \<le> f" using c by simp
  from recursive2_inv [OF r1(2) t1 _ c1 Suc.IH, of 1] obtain st2 A2 where
    r2: "tb_reset_jump_recursive2 f st1 t 1 = Inr st2" "tb_inv st2 A2" "unchained A1 A2" "(t, 1) \<notin> jump_set A2" "run_frame st1 st2"
    by auto
  have "no_out A2 t"
    unfolding no_out_def
  proof
    fix n
    have rel2: "tb_rel st2 A2" using r2(2) by (simp add: tb_inv_def)
    show "(t, n) \<notin> jump_set A2"
    proof
      assume a: "(t, n) \<in> jump_set A2"
      then obtain g where g: "g \<in> known A2" "(t, n) \<in> set (ajmp A2 g)" by (auto simp: jump_set_def)
      have "jmp_rel (tbs st2) (known A2) (ajmp A2)" using rel2 by (simp add: tb_rel_def)
      from jmp_rel_el(2) [OF this g] have "n < 2" by simp
      then have "n = 0 \<or> n = 1" by auto
      with a r1(4) r2(4) jump_set_mono [OF r2(3)] show False by auto
    qed
  qed
  with r1 r2 show ?case
    using unchained_trans run_frame_trans by (intro exI [of _ st2] exI [of _ A2]) auto
qed

section \<open>What an interrupt guarantees\<close>

text \<open>Block \<open>s\<close> has a jump that is chained to block \<open>u\<close>.\<close>

definition chained :: "TBContext \<Rightarrow> nat \<Rightarrow> nat \<Rightarrow> bool" where
  "chained st s u \<longleftrightarrow> (\<exists>n < 2. jmp_next (tbs st s) n \<noteq> None \<and>
     jmp_head (list_fuel st) (tbs st) (jmp_next (tbs st s) n) = Inr u)"

lemma chained_list:
  assumes rel: "tb_rel st A" and s: "s \<in> known A" and c: "chained st s u"
  shows "u \<in> known A" and "\<exists>n. (s, n) \<in> set (ajmp A u)"
proof -
  have jr: "jmp_rel (tbs st) (known A) (ajmp A)" using rel by (simp add: tb_rel_def)
  have nb: "\<forall>u \<in> known A. u < nb_tbs st" using known_less [OF rel] by blast
  obtain n where n: "n < 2" "jmp_next (tbs st s) n \<noteq> None"
    "jmp_head (list_fuel st) (tbs st) (jmp_next (tbs st s) n) = Inr u" using c by (auto simp: chained_def)
  have "jmp_slot (tbs st) (s, n) \<noteq> None" using n by (simp add: jmp_slot_def)
  then obtain g where g: "g \<in> known A" "(s, n) \<in> set (ajmp A g)" using jr s n(1) unfolding jmp_rel_def by blast
  obtain ys zs where J: "ajmp A g = ys @ (s, n) # zs" using g(2) by (meson split_list)
  have "length (ajmp A g) < list_fuel st" using jmp_rel_len [OF jr g(1) nb] by (simp add: list_fuel_def)
  moreover have "\<forall>k \<in> set (ajmp A g). snd k < 2" using jmp_rel_el(2) [OF jr g(1)] by blast
  ultimately have "jmp_head (list_fuel st) (tbs st) (jmp_slot (tbs st) (s, n)) = Inr g"
    by (intro jmp_head_lseg [OF jmp_list_split(2) [OF jr g(1) J]]) (auto simp: J)
  then have "u = g" using n by (simp add: jmp_slot_def)
  with g show "u \<in> known A" "\<exists>n. (s, n) \<in> set (ajmp A u)" by blast+
qed

lemma unchained_reach:
  assumes rel: "tb_rel st A" and t: "t \<in> known A" and un: "unchained A A'" "no_out A' t"
    and r: "(chained st)\<^sup>*\<^sup>* t s"
  shows "s \<in> known A \<and> no_out A' s"
  using r
proof induction
  case base
  then show ?case using t un(2) by simp
next
  case (step s u)
  then have s: "s \<in> known A" "no_out A' s" by simp_all
  note c = chained_list [OF rel s(1) step(2)]
  obtain n where n: "(s, n) \<in> set (ajmp A u)" using c(2) by blast
  moreover have "(s, n) \<notin> set (ajmp A' u)" using s(2) c(1) un(1) by (auto simp: no_out_def jump_set_def unchained_def)
  ultimately show ?case using c(1) un(1) by (auto simp: unchained_def)
qed

lemma no_out_exits:
  assumes inv: "tb_inv st A" and s: "s \<in> known A" and no: "no_out A s" and n: "n < 2"
  shows "jmp_next (tbs st s) n = None"
    and "s \<in> live A \<Longrightarrow> tb_next_offset (tbs st s) n \<noteq> 0xffff \<Longrightarrow>
      branch_target (code st) (jop (tbs st) (s, n)) = Some (jexit (tbs st) (s, n))"
proof -
  have out: "\<forall>u \<in> known A. (s, n) \<notin> set (ajmp A u)" using no by (auto simp: no_out_def jump_set_def)
  have jr: "jmp_rel (tbs st) (known A) (ajmp A)" using inv by (simp add: tb_inv_def tb_rel_def)
  show "jmp_next (tbs st s) n = None"
  proof (rule ccontr)
    assume "jmp_next (tbs st s) n \<noteq> None"
    then have "jmp_slot (tbs st) (s, n) \<noteq> None" using n by (simp add: jmp_slot_def)
    with jr s n out show False unfolding jmp_rel_def by blast
  qed
  assume "s \<in> live A" "tb_next_offset (tbs st s) n \<noteq> 0xffff"
  then have "(s, n) \<in> jump_slots (tbs st) (live A)" using n by (simp add: jump_slots_def)
  then show "branch_target (code st) (jop (tbs st) (s, n)) = Some (jexit (tbs st) (s, n))"
    using inv out by (simp add: tb_inv_def jumps_ok_def)
qed

lemma tb_inv_upd_cpu:
  assumes "tb_inv st A" and "\<And>env. tb_jmp_cache (f env) = tb_jmp_cache env"
  shows "tb_inv (upd_cpu i f st) A"
proof (rule tb_inv_dead [OF assms(1)])
  have "map tb_jmp_cache ((cpus st)[i := f (cpus st ! i)]) = map tb_jmp_cache (cpus st)"
    by (cases "i < length (cpus st)") (simp_all add: map_update assms(2) list_update_same_conv list_update_beyond)
  then show "map tb_jmp_cache (cpus (upd_cpu i f st)) = map tb_jmp_cache (cpus st)" by (simp add: upd_cpu_def)
qed (simp_all add: upd_cpu_def)


text \<open>A CPU that executes a block with a jump to a second block; the jump loses its target.\<close>

lemma chained_head:
  assumes "tb_rel st A" and "g \<in> known A" and "(s, n) \<in> set (ajmp A g)"
  shows "chained st s g" "n < 2"
proof -
  have jr: "jmp_rel (tbs st) (known A) (ajmp A)" using assms(1) by (simp add: tb_rel_def)
  have nb: "\<forall>u \<in> known A. u < nb_tbs st" using known_less [OF assms(1)] by blast
  obtain ys zs where J: "ajmp A g = ys @ (s, n) # zs" using assms(3) by (meson split_list)
  show n: "n < 2" using jmp_rel_el(2) [OF jr assms(2,3)] by simp
  note z = jmp_list_split(2) [OF jr assms(2) J]
  have "jmp_slot (tbs st) (s, n) \<noteq> None" using z by (cases zs) auto
  moreover have "length (ajmp A g) < list_fuel st" using jmp_rel_len [OF jr assms(2) nb] by (simp add: list_fuel_def)
  moreover have "\<forall>k \<in> set (ajmp A g). snd k < 2" using jmp_rel_el(2) [OF jr assms(2)] by blast
  ultimately have "jmp_head (list_fuel st) (tbs st) (jmp_slot (tbs st) (s, n)) = Inr g"
    by (intro jmp_head_lseg [OF z]) (auto simp: J)
  with \<open>jmp_slot (tbs st) (s, n) \<noteq> None\<close> show "chained st s g"
    using n unfolding chained_def by (intro exI [of _ n]) (simp add: jmp_slot_def)
qed


end
