(* ===== verification/TB_SMC.thy ===== *)
theory TB_SMC
  imports TB_Unchain
begin

text \<open>
  Writes to pages that hold translated code (exec.c): tb_invalidate_phys_page_range drops the
  blocks whose guest code a write touches, tb_invalidate_phys_page_fast asks the bitmap of the
  page first. A block that modifies itself is stopped: a block for just the writing
  instruction is generated and the CPU leaves the host code through cpu_resume_from_signal.
\<close>

section \<open>Model\<close>

text \<open>The physical addresses of the part of a block that lies in its first or second page.\<close>

definition tb_phys_range :: "TranslationBlock \<Rightarrow> nat \<Rightarrow> u64 \<times> u64" where
  "tb_phys_range b n =
     (if n = 0 then
        let tb_start = page_addr b 0 + (pc b AND 0xFFF) in (tb_start, tb_start + ucast (tbsize b))
      else
        let tb_start = page_addr b 1 in (tb_start, tb_start + ((pc b + ucast (tbsize b)) AND 0xFFF)))"

definition tb_hit :: "u64 \<Rightarrow> u64 \<Rightarrow> TranslationBlock \<Rightarrow> nat \<Rightarrow> bool" where
  "tb_hit start end0 b n =
     (let (tb_start, tb_end) = tb_phys_range b n in \<not> (tb_end \<le> start \<or> tb_start \<ge> end0))"

text \<open>
  What the functions need of their surroundings: the answers of qemu_cpu_self, use_icount and
  can_do_io for cpu_interrupt, the parameters of tb_gen_code, and the triple that
  cpu_get_tb_cpu_state gives for a CPU whose state cpu_restore_state has set back to the
  instruction of a block that is being executed.
\<close>

record smc_env =
  is_self :: bool
  icount_on :: bool
  can_io :: bool
  phys_of :: "u64 \<Rightarrow> u64"
  gen_of :: gen_fun
  want_fl :: "bool \<times> bool"
  restored :: "nat \<Rightarrow> CPUState \<Rightarrow> u64 \<times> u64 \<times> u64"

text \<open>The variables of the loop: current_tb_not_found, current_tb and, when
  current_tb_modified, the state to continue with.\<close>

record smc_vars =
  not_found :: bool
  cur_tb :: "int option"
  modified :: "(u64 \<times> u64 \<times> u64) option"

definition smc_current :: "smc_env \<Rightarrow> TBContext \<Rightarrow> nat \<Rightarrow> nat \<Rightarrow> smc_vars \<Rightarrow> smc_vars" where
  "smc_current E st i tb v =
     (let v = (if not_found v then
                 v\<lparr>not_found := False,
                   cur_tb := (if mem_io_pc (cpus st ! i) \<noteq> 0 then tb_find_pc st (mem_io_pc (cpus st ! i)) else None)\<rparr>
               else v)
      in if cur_tb v = Some (int tb) \<and> cflags (tbs st tb) AND 0x7fff \<noteq> 1
         then v\<lparr>modified := Some (restored E tb (cpus st ! i))\<rparr> else v)"

text \<open>One block that the write touches; \<open>env\<close> is the position of cpu_single_env, if any.\<close>

definition smc_drop ::
  "smc_env \<Rightarrow> nat option \<Rightarrow> TBContext \<Rightarrow> smc_vars \<Rightarrow> nat \<Rightarrow> (TBContext \<times> smc_vars) result" where
  "smc_drop E env st v tb =
     (case env of
        None \<Rightarrow>
          if not_found v then Inl NullDeref
          else andthen (tb_phys_invalidate st tb NO_PAGE) (\<lambda>st. Inr (st, v))
      | Some i \<Rightarrow>
          let v = smc_current E st i tb v;
              saved_tb = current_tb (cpus st ! i);
              st = upd_cpu i (\<lambda>e. e\<lparr>current_tb := None\<rparr>) st
          in andthen (tb_phys_invalidate st tb NO_PAGE) (\<lambda>st.
             let st = upd_cpu i (\<lambda>e. e\<lparr>current_tb := saved_tb\<rparr>) st
             in andthen (if interrupt_request (cpus st ! i) \<noteq> 0 \<and> saved_tb \<noteq> None
                         then cpu_interrupt (is_self E) (icount_on E) (can_io E) st i (interrupt_request (cpus st ! i))
                         else Inr st) (\<lambda>st. Inr (st, v))))"

fun smc_loop ::
  "nat \<Rightarrow> smc_env \<Rightarrow> nat option \<Rightarrow> u64 \<Rightarrow> u64 \<Rightarrow> TBContext \<Rightarrow> smc_vars \<Rightarrow> tagptr \<Rightarrow> (TBContext \<times> smc_vars) result" where
  "smc_loop 0 E env start end0 st v p = Inl NoFuel"
| "smc_loop (Suc f) E env start end0 st v p =
     (case p of
        None \<Rightarrow> Inr (st, v)
      | Some (tb, n) \<Rightarrow>
          let tb_next = page_next (tbs st tb) n
          in andthen (if tb_hit start end0 (tbs st tb) n then smc_drop E env st v tb else Inr (st, v)) (\<lambda>(st, v).
             smc_loop f E env start end0 st v tb_next))"

definition count_write :: "nat \<Rightarrow> (nat \<Rightarrow> TranslationBlock) \<Rightarrow> bool \<Rightarrow> PageDesc \<Rightarrow> PageDesc result" where
  "count_write f ts is_cpu_write_access d =
     (if code_bitmap d = None then
        let d = d\<lparr>code_write_count := code_write_count d + 1\<rparr>
        in if code_write_count d \<ge> 10 \<and> is_cpu_write_access then build_page_bitmap f ts d else Inr d
      else Inr d)"

text \<open>No code remains on the page: its bitmap goes, and a CPU write makes it writable again.\<close>

definition smc_unprotect :: "nat option \<Rightarrow> TBContext \<Rightarrow> pdptr \<Rightarrow> u64 \<Rightarrow> bool \<Rightarrow> TBContext result" where
  "smc_unprotect env st p start is_cpu_write_access =
     (case pd_get (l1_map st) p of
        None \<Rightarrow> Inl NullDeref
      | Some d \<Rightarrow>
          if first_tb d \<noteq> None then Inr st
          else
            let st = st\<lparr>l1_map := pd_put (l1_map st) p (invalidate_page_bitmap d)\<rparr>
            in if \<not> is_cpu_write_access then Inr st
               else if env = None then Inl NullDeref
               else Inr (st\<lparr>ram := tlb_unprotect_code_phys (ram st) start\<rparr>))"

text \<open>The result says whether the CPU resumes through cpu_resume_from_signal.\<close>

definition smc_resume :: "smc_env \<Rightarrow> nat option \<Rightarrow> TBContext \<Rightarrow> smc_vars \<Rightarrow> (TBContext \<times> bool) result" where
  "smc_resume E env st v =
     (case modified v of
        None \<Rightarrow> Inr (st, False)
      | Some (pc0, csb, fl) \<Rightarrow>
          (case env of
             None \<Rightarrow> Inl NullDeref
           | Some i \<Rightarrow>
               andthen (tb_gen_code (phys_of E) (gen_of E) (want_fl E) (upd_cpu i (\<lambda>e. e\<lparr>current_tb := None\<rparr>) st)
                          pc0 csb fl 1) (\<lambda>(st, _).
               Inr (upd_cpu i (\<lambda>e. e\<lparr>exception_index := - 1\<rparr>) st, True))))"

definition tb_invalidate_phys_page_range ::
  "smc_env \<Rightarrow> nat option \<Rightarrow> TBContext \<Rightarrow> u64 \<Rightarrow> u64 \<Rightarrow> bool \<Rightarrow> (TBContext \<times> bool) result" where
  "tb_invalidate_phys_page_range E env st start end0 is_cpu_write_access =
     (case page_find (l1_map st) (unat (drop_bit TARGET_PAGE_BITS start)) of
        None \<Rightarrow> Inr (st, False)
      | Some p \<Rightarrow>
          (case pd_get (l1_map st) p of
             None \<Rightarrow> Inl NullDeref
           | Some d \<Rightarrow>
               andthen (count_write (list_fuel st) (tbs st) is_cpu_write_access d) (\<lambda>d.
               let st = st\<lparr>l1_map := pd_put (l1_map st) p d\<rparr>
               in andthen (smc_loop (list_fuel st) E env start end0 st
                     \<lparr>not_found = is_cpu_write_access, cur_tb = None, modified = None\<rparr> (first_tb d)) (\<lambda>(st, v).
                  andthen (smc_unprotect env st p start is_cpu_write_access) (\<lambda>st.
                  smc_resume E env st v)))))"

definition tb_invalidate_phys_page_fast ::
  "smc_env \<Rightarrow> nat option \<Rightarrow> TBContext \<Rightarrow> u64 \<Rightarrow> nat \<Rightarrow> (TBContext \<times> bool) result" where
  "tb_invalidate_phys_page_fast E env st start len =
     (case page_find (l1_map st) (unat (drop_bit TARGET_PAGE_BITS start)) of
        None \<Rightarrow> Inr (st, False)
      | Some p \<Rightarrow>
          (case pd_get (l1_map st) p of
             None \<Rightarrow> Inl NullDeref
           | Some d \<Rightarrow>
               (case code_bitmap d of
                  None \<Rightarrow> tb_invalidate_phys_page_range E env st start (start + of_nat len) True
                | Some tab \<Rightarrow>
                    let offset = unat (start AND 0xFFF);
                        b = drop_bit (offset mod 8) (ucast (tab ! (offset div 8)) :: u32)
                    in if b AND (push_bit len 1 - 1) \<noteq> 0
                       then tb_invalidate_phys_page_range E env st start (start + of_nat len) True
                       else Inr (st, False))))"

section \<open>The page descriptor\<close>

lemma page_rel_put:
  assumes rel: "page_rel st PL" and p: "p < V_PAGES" and d: "pd_get (l1_map st) (page_ptr p) = Some d"
    and d': "first_tb d' = first_tb d" "\<And>tab. code_bitmap d' = Some tab \<Longrightarrow> bitmap_exact (tbs st) tab (PL p)"
  shows "page_rel (st\<lparr>l1_map := pd_put (l1_map st) (page_ptr p) d'\<rparr>) PL"
proof -
  have wf: "wf_map V_SPACE (l1_map st)" using rel by (simp add: page_rel_def)
  let ?st = "st\<lparr>l1_map := pd_put (l1_map st) (page_ptr p) d'\<rparr>"
  have g: "pd_get (l1_map ?st) (page_ptr q) = (if q = p then Some d' else pd_get (l1_map st) (page_ptr q))"
    if "q < V_PAGES" for q using vp.put_get [OF wf p that, of d'] d by simp
  have "page_first ?st q = page_first st q" if "q < V_PAGES" for q
    using g [OF that] d d'(1) by (simp add: page_first_def)
  moreover have "page_bitmap (l1_map ?st) q = (if q = p then code_bitmap d' else page_bitmap (l1_map st) q)"
    if "q < V_PAGES" for q using g [OF that] by (simp add: page_bitmap_def)
  moreover have "wf_map V_SPACE (l1_map ?st)" using vp.put_invar [OF wf p] by simp
  ultimately show ?thesis using rel d'(2) by (simp add: page_rel_def)
qed

lemma tb_inv_page_put:
  assumes inv: "tb_inv st A" and p: "p < V_PAGES" and d: "pd_get (l1_map st) (page_ptr p) = Some d"
    and d': "first_tb d' = first_tb d" "\<And>tab. code_bitmap d' = Some tab \<Longrightarrow> bitmap_exact (tbs st) tab (apage A p)"
  shows "tb_inv (st\<lparr>l1_map := pd_put (l1_map st) (page_ptr p) d'\<rparr>) A"
proof -
  have "page_rel st (apage A)" using inv by (simp add: tb_inv_def tb_rel_def)
  from page_rel_put [OF this p d d'] inv show ?thesis
    by (simp add: tb_inv_def tb_rel_def hash_rel_def caches_ok_def buffer_ok_def dead_ok_def)
qed

lemma count_write_ok:
  assumes "chain (\<lambda>k. page_next (ts (fst k)) (snd k)) (first_tb d) ks" and "length ks < f"
    and "\<And>tab. code_bitmap d = Some tab \<Longrightarrow> bitmap_exact ts tab ks"
  obtains d' where "count_write f ts w d = Inr d'" "first_tb d' = first_tb d"
    "\<And>tab. code_bitmap d' = Some tab \<Longrightarrow> bitmap_exact ts tab ks"
proof -
  let ?d = "d\<lparr>code_write_count := code_write_count d + 1\<rparr>"
  show ?thesis
  proof (cases "code_bitmap d = None \<and> code_write_count ?d \<ge> 10 \<and> w")
    case True
    have "chain (\<lambda>k. page_next (ts (fst k)) (snd k)) (first_tb ?d) ks" using assms(1) by simp
    from build_page_bitmap_exact [OF this assms(2)] obtain tab where
      "build_page_bitmap f ts ?d = Inr (?d\<lparr>code_bitmap := Some tab\<rparr>)" "bitmap_exact ts tab ks" .
    with True show ?thesis by (intro that [of "?d\<lparr>code_bitmap := Some tab\<rparr>"]) (simp_all add: count_write_def)
  next
    case False
    show ?thesis
    proof (cases "code_bitmap d")
      case None
      with False show ?thesis by (intro that [of ?d]) (auto simp: count_write_def Let_def)
    next
      case (Some tab)
      with assms(3) show ?thesis by (intro that [of d]) (auto simp: count_write_def)
    qed
  qed
qed

section \<open>Dropping a block\<close>

text \<open>The current block of the CPU was generated since the last flush or has no chained jump.\<close>

definition quiet :: "(nat \<Rightarrow> TranslationBlock) \<Rightarrow> nat \<Rightarrow> bool" where
  "quiet ts c \<longleftrightarrow> (\<forall>m < 2. jmp_next (ts c) m = None)"

definition cur_ok :: "TBContext \<Rightarrow> TBLists \<Rightarrow> nat \<Rightarrow> bool" where
  "cur_ok st A i \<longleftrightarrow> i < length (cpus st) \<and>
     (\<forall>c. current_tb (cpus st ! i) = Some c \<longrightarrow> c \<in> known A \<or> quiet (tbs st) c)"

lemma recursive_quiet: "quiet (tbs st) c \<Longrightarrow> tb_reset_jump_recursive (Suc f) st c = Inr st"
  by (simp add: quiet_def tb_reset_jump_recursive2.simps)

lemma upd_cpu_simps [simp]:
  "tbs (upd_cpu i f st) = tbs st" "l1_map (upd_cpu i f st) = l1_map st" "nb_tbs (upd_cpu i f st) = nb_tbs st"
  "length (cpus (upd_cpu i f st)) = length (cpus st)" "list_fuel (upd_cpu i f st) = list_fuel st"
  "i < length (cpus st) \<Longrightarrow> cpus (upd_cpu i f st) ! i = f (cpus st ! i)"
  "buf_frame st0 (upd_cpu i f st) = buf_frame st0 st"
  by (simp_all add: upd_cpu_def list_fuel_def buf_frame_def)

lemma upd_cpu_io_pc:
  "(\<And>e. mem_io_pc (f e) = mem_io_pc e) \<Longrightarrow> map mem_io_pc (cpus (upd_cpu i f st)) = map mem_io_pc (cpus st)"
  by (cases "i < length (cpus st)") (simp_all add: upd_cpu_def map_update list_update_same_conv list_update_beyond)

lemma cpu_interrupt_again:
  assumes inv: "tb_inv st A" and cur: "cur_ok st A i"
  obtains st' A' where "cpu_interrupt self ic io st i (interrupt_request (cpus st ! i)) = Inr st'"
    "tb_inv st' A'" "unchained A A'" "cur_ok st' A' i"
    "\<And>u. tb_core (tbs st' u) = tb_core (tbs st u)" "buf_frame st st'" "nb_tbs st' = nb_tbs st" "l1_map st' = l1_map st"
    "map mem_io_pc (cpus st') = map mem_io_pc (cpus st)"
proof -
  let ?q = "interrupt_request (cpus st ! i)"
  have i: "i < length (cpus st)" using cur by (simp add: cur_ok_def)
  define st1 where "st1 = upd_cpu i (\<lambda>env. env\<lparr>interrupt_request := ?q\<rparr>) st"
  have inv1: "tb_inv st1 A" unfolding st1_def by (rule tb_inv_upd_cpu [OF inv]) simp
  have cur1: "cur_ok st1 A i" using cur i by (simp add: cur_ok_def st1_def)
  have fr1: "tbs st1 = tbs st" "buf_frame st st1" "nb_tbs st1 = nb_tbs st" "l1_map st1 = l1_map st"
    "length (cpus st1) = length (cpus st)" "current_tb (cpus st1 ! i) = current_tb (cpus st ! i)"
    "map mem_io_pc (cpus st1) = map mem_io_pc (cpus st)"
    using i by (simp_all add: st1_def upd_cpu_io_pc) (simp add: buf_frame_def)
  show ?thesis
  proof (cases "self \<and> \<not> ic")
    case False
    define st2 where "st2 = (if self then upd_cpu i (\<lambda>env. env\<lparr>icount_high := 0xffff\<rparr>) st1 else st1)"
    have "?q AND NOT ?q = 0" by simp
    then have run: "cpu_interrupt self ic io st i ?q = Inr st2"
      using False by (auto simp: cpu_interrupt_def st2_def st1_def Let_def)
    have "tb_inv st2 A" unfolding st2_def using inv1 tb_inv_upd_cpu [OF inv1, of "\<lambda>env. env\<lparr>icount_high := 0xffff\<rparr>" i] by simp
    moreover have "cur_ok st2 A i" using cur1 i fr1(5) by (simp add: st2_def cur_ok_def)
    ultimately show ?thesis using fr1 by (intro that [OF run]) (simp_all add: st2_def upd_cpu_io_pc)
  next
    case True
    show ?thesis
    proof (cases "current_tb (cpus st ! i)")
      case None
      then have run: "cpu_interrupt self ic io st i ?q = Inr st1"
        using True i fr1(6) by (simp add: cpu_interrupt_def cpu_unlink_tb_def st1_def [symmetric] Let_def)
      show ?thesis using fr1 inv1 cur1 by (intro that [OF run]) simp_all
    next
      case (Some c)
      define st2 where "st2 = upd_cpu i (\<lambda>env. env\<lparr>current_tb := None\<rparr>) st1"
      have inv2: "tb_inv st2 A" unfolding st2_def by (rule tb_inv_upd_cpu [OF inv1]) simp
      have run: "cpu_interrupt self ic io st i ?q = tb_reset_jump_recursive (list_fuel st2) st2 c"
        using True Some fr1(6) by (simp add: cpu_interrupt_def cpu_unlink_tb_def st1_def [symmetric] st2_def Let_def)
      have cur2: "current_tb (cpus st2 ! i) = None" "i < length (cpus st2)" using i fr1(5) by (simp_all add: st2_def)
      have fr2: "tbs st2 = tbs st" "buf_frame st st2" "nb_tbs st2 = nb_tbs st" "l1_map st2 = l1_map st"
        "map mem_io_pc (cpus st2) = map mem_io_pc (cpus st)"
        using fr1 by (simp_all add: st2_def upd_cpu_io_pc)
      consider "c \<in> known A" | "quiet (tbs st2) c" using cur Some fr2(1) by (auto simp: cur_ok_def)
      then show ?thesis
      proof cases
        case 1
        have rel2: "tb_rel st2 A" using inv2 by (simp add: tb_inv_def)
        have "card (jump_set A) < list_fuel st2" using jump_set_bound(2) [OF rel2] by (simp add: list_fuel_def)
        from recursive_inv [OF inv2 1 this] obtain st' A' where
          r: "tb_reset_jump_recursive (list_fuel st2) st2 c = Inr st'" "tb_inv st' A'" "unchained A A'" "run_frame st2 st'"
          by blast
        then show ?thesis using cur2 fr2 by (intro that [of st' A'])
          (simp_all add: run run_frame_def cur_ok_def buf_frame_def)
      next
        case 2
        have "list_fuel st2 = Suc (2 * nb_tbs st2 + 1)" by (simp add: list_fuel_def)
        with recursive_quiet [OF 2] run have "cpu_interrupt self ic io st i ?q = Inr st2" by simp
        then show ?thesis using inv2 cur2 fr2 by (intro that [of st2 A]) (simp_all add: cur_ok_def)
      qed
    qed
  qed
qed

lemma buf_frame_upd [simp]: "buf_frame (upd_cpu i f st) st' = buf_frame st st'"
  by (simp add: buf_frame_def upd_cpu_def)

text \<open>
  The block that the host address mem_io_pc lies in, and what is known of the variables of the
  loop: a state to continue with was restored for that block, one of the blocks \<open>H\<close> that are hit,
  which is not a block of a single instruction.
\<close>

definition running_tb :: "TBContext \<Rightarrow> nat \<Rightarrow> nat \<Rightarrow> bool" where
  "running_tb st i tb \<longleftrightarrow> mem_io_pc (cpus st ! i) \<noteq> 0 \<and> tb_find_pc st (mem_io_pc (cpus st ! i)) = Some (int tb)"

definition restarts :: "smc_env \<Rightarrow> nat option \<Rightarrow> TBContext \<Rightarrow> nat set \<Rightarrow> u64 \<times> u64 \<times> u64 \<Rightarrow> bool" where
  "restarts E env st H m \<longleftrightarrow> (\<exists>i tb e. env = Some i \<and> tb \<in> H \<and> running_tb st i tb \<and>
     cflags (tbs st tb) AND 0x7fff \<noteq> 1 \<and> mem_io_pc e = mem_io_pc (cpus st ! i) \<and> m = restored E tb e)"

definition vars_ok :: "smc_env \<Rightarrow> nat option \<Rightarrow> TBContext \<Rightarrow> nat set \<Rightarrow> smc_vars \<Rightarrow> bool" where
  "vars_ok E env st H v \<longleftrightarrow> (env = None \<longrightarrow> \<not> not_found v) \<and>
     (\<forall>i tb. env = Some i \<and> cur_tb v = Some (int tb) \<longrightarrow> running_tb st i tb) \<and>
     (\<forall>m. modified v = Some m \<longrightarrow> restarts E env st H m)"

definition env_ok :: "nat option \<Rightarrow> TBContext \<Rightarrow> TBLists \<Rightarrow> bool" where
  "env_ok env st A \<longleftrightarrow> (\<forall>i. env = Some i \<longrightarrow> cur_ok st A i)"

text \<open>What dropping blocks keeps: the blocks but for their links, the buffer, the descriptors.\<close>

definition drop_frame :: "TBContext \<Rightarrow> TBContext \<Rightarrow> bool" where
  "drop_frame st st' \<longleftrightarrow> (\<forall>u. tb_core (tbs st' u) = tb_core (tbs st u)) \<and> buf_frame st st' \<and> nb_tbs st' = nb_tbs st \<and>
     (\<forall>q < V_PAGES. pd_get (l1_map st) (page_ptr q) \<noteq> None \<longrightarrow> pd_get (l1_map st') (page_ptr q) \<noteq> None) \<and>
     map mem_io_pc (cpus st') = map mem_io_pc (cpus st)"

lemma drop_frame_trans: "drop_frame st st' \<Longrightarrow> drop_frame st' st'' \<Longrightarrow> drop_frame st st''"
  by (simp add: drop_frame_def buf_frame_def)

lemma drop_frame_refl [simp]: "drop_frame st st"
  by (simp add: drop_frame_def buf_frame_def)

lemma drop_frame_running:
  assumes "drop_frame st st'" and "i < length (cpus st)"
  shows "running_tb st' i tb = running_tb st i tb" "cflags (tbs st' u) = cflags (tbs st u)"
    "mem_io_pc (cpus st' ! i) = mem_io_pc (cpus st ! i)"
proof -
  note f = assms(1) [unfolded drop_frame_def buf_frame_def]
  have l: "length (cpus st') = length (cpus st)" using f by blast
  have "map mem_io_pc (cpus st') ! i = map mem_io_pc (cpus st) ! i" using f by simp
  then show m: "mem_io_pc (cpus st' ! i) = mem_io_pc (cpus st ! i)" using assms(2) l by simp
  have core: "tb_core (tbs st' v) = tb_core (tbs st v)" for v using f by blast
  have tc: "tc_ptr (tbs st' v) = tc_ptr (tbs st v)" for v by (rule tb_core_eqD(3) [OF core])
  show "running_tb st' i tb = running_tb st i tb" using f m tc by (simp add: running_tb_def tb_find_pc_def)
  have "cflags (tb_core (tbs st' u)) = cflags (tb_core (tbs st u))" using core by simp
  then show "cflags (tbs st' u) = cflags (tbs st u)" by (simp add: tb_core_def)
qed

lemma jmp_cache_frame:
  assumes "map (\<lambda>env. env\<lparr>tb_jmp_cache := (\<lambda>_. None)\<rparr>) cs' = map (\<lambda>env. env\<lparr>tb_jmp_cache := (\<lambda>_. None)\<rparr>) cs"
    and "i < length cs"
  shows "current_tb (cs' ! i) = current_tb (cs ! i)" "interrupt_request (cs' ! i) = interrupt_request (cs ! i)"
    "mem_io_pc (cs' ! i) = mem_io_pc (cs ! i)"
proof -
  have "length cs' = length cs" using assms(1) map_eq_imp_length_eq by blast
  then have "(cs' ! i)\<lparr>tb_jmp_cache := (\<lambda>_. None)\<rparr> = (cs ! i)\<lparr>tb_jmp_cache := (\<lambda>_. None)\<rparr>"
    using arg_cong [OF assms(1), of "\<lambda>xs. xs ! i"] assms(2) by simp
  then show "current_tb (cs' ! i) = current_tb (cs ! i)" "interrupt_request (cs' ! i) = interrupt_request (cs ! i)"
    "mem_io_pc (cs' ! i) = mem_io_pc (cs ! i)"
    by (metis CPUState.select_convs CPUState.surjective CPUState.update_convs(10))+
qed

lemma invalidate_drop:
  assumes inv: "tb_inv st A" and t: "t \<in> live A"
  obtains st' where "tb_phys_invalidate st t NO_PAGE = Inr st'" "tb_inv st' (abs_invalidate t A)" "drop_frame st st'"
    "\<And>u. quiet (tbs st) u \<Longrightarrow> quiet (tbs st') u"
    "\<And>i. i < length (cpus st) \<Longrightarrow> current_tb (cpus st' ! i) = current_tb (cpus st ! i)"
    "\<And>i. i < length (cpus st) \<Longrightarrow> interrupt_request (cpus st' ! i) = interrupt_request (cpus st ! i)"
    "length (cpus st') = length (cpus st)"
proof -
  obtain st' where r: "tb_phys_invalidate st t NO_PAGE = Inr st'" "tb_inv st' (abs_invalidate t A)"
    "\<And>u. tb_core (tbs st' u) = tb_core (tbs st u)" "buf_frame st st'" "nb_tbs st' = nb_tbs st"
    "\<And>u m. m < 2 \<Longrightarrow> jmp_next (tbs st u) m = None \<Longrightarrow> jmp_next (tbs st' u) m = None"
    "map (\<lambda>env. env\<lparr>tb_jmp_cache := (\<lambda>_. None)\<rparr>) (cpus st') = map (\<lambda>env. env\<lparr>tb_jmp_cache := (\<lambda>_. None)\<rparr>) (cpus st)"
    "\<And>q. q < V_PAGES \<Longrightarrow> pd_get (l1_map st) (page_ptr q) \<noteq> None \<Longrightarrow> pd_get (l1_map st') (page_ptr q) \<noteq> None"
    by (rule tb_phys_invalidate_inv [OF inv t]) (rule that)
  have l: "length (cpus st') = length (cpus st)" by (rule map_eq_imp_length_eq [OF r(7)])
  have "map mem_io_pc (cpus st') = map mem_io_pc (cpus st)"
    by (rule nth_equalityI) (use l jmp_cache_frame(3) [OF r(7)] in simp_all)
  then show ?thesis
    by (intro that [OF r(1,2)])
      (use r(3-6,8) jmp_cache_frame [OF r(7)] l in \<open>simp_all add: drop_frame_def quiet_def\<close>)
qed

lemma apage_abs_invalidate: "apage (abs_invalidate t A) = (\<lambda>p. filter (\<lambda>k. fst k \<noteq> t) (apage A p))"
  by (simp add: abs_invalidate_def)

lemma smc_current_ok:
  assumes "vars_ok E (Some i) st H v" and "tb \<in> H" and "drop_frame st st'" and "i < length (cpus st)"
  shows "vars_ok E (Some i) st H (smc_current E st' i tb v)"
proof -
  note f = drop_frame_running [OF assms(3,4)]
  define v1 where "v1 = (if not_found v then v\<lparr>not_found := False,
      cur_tb := (if mem_io_pc (cpus st' ! i) \<noteq> 0 then tb_find_pc st' (mem_io_pc (cpus st' ! i)) else None)\<rparr> else v)"
  have v1: "vars_ok E (Some i) st H v1"
    using assms(1) f(1) by (auto simp: v1_def vars_ok_def running_tb_def split: if_splits)
  have e: "smc_current E st' i tb v = (if cur_tb v1 = Some (int tb) \<and> cflags (tbs st' tb) AND 0x7fff \<noteq> 1
      then v1\<lparr>modified := Some (restored E tb (cpus st' ! i))\<rparr> else v1)"
    by (simp add: smc_current_def v1_def Let_def)
  show ?thesis
  proof (cases "cur_tb v1 = Some (int tb) \<and> cflags (tbs st' tb) AND 0x7fff \<noteq> 1")
    case True
    have "running_tb st i tb" using v1 True by (simp add: vars_ok_def)
    then have "restarts E (Some i) st H (restored E tb (cpus st' ! i))"
      unfolding restarts_def using assms(2) True f(2) [of tb] f(3)
      by (intro exI [of _ i] exI [of _ tb] exI [of _ "cpus st' ! i"]) simp
    then show ?thesis using v1 True by (simp add: e vars_ok_def)
  next
    case False
    then show ?thesis using v1 by (auto simp: e)
  qed
qed

lemma smc_drop_inv:
  assumes inv: "tb_inv st A" and t: "t \<in> live A" and v: "vars_ok E env st0 H v" and e: "env_ok env st A"
    and H: "t \<in> H" and f0: "drop_frame st0 st"
  obtains st' v' A' where "smc_drop E env st v t = Inr (st', v')" "tb_inv st' A'" "live A' = live A - {t}" "known A' = known A"
    "apage A' = (\<lambda>p. filter (\<lambda>k. fst k \<noteq> t) (apage A p))" "drop_frame st st'" "vars_ok E env st0 H v'" "env_ok env st' A'"
proof -
  have kn: "known (abs_invalidate t A) = known A"
    unfolding known_abs_invalidate by (rule insert_absorb [OF live_known [OF t]])
  show ?thesis
  proof (cases env)
    case None
    obtain st' where r: "tb_phys_invalidate st t NO_PAGE = Inr st'" "tb_inv st' (abs_invalidate t A)" "drop_frame st st'"
      by (rule invalidate_drop [OF inv t]) (rule that)
    have "smc_drop E env st v t = Inr (st', v)" using v None r(1) by (simp add: smc_drop_def vars_ok_def)
    then show ?thesis using r v None
      by (intro that [of st' v "abs_invalidate t A"])
        (simp_all add: live_abs_invalidate apage_abs_invalidate env_ok_def kn)
  next
    case (Some i)
    let ?v = "smc_current E st i t v" and ?saved = "current_tb (cpus st ! i)"
    let ?st = "upd_cpu i (\<lambda>e. e\<lparr>current_tb := None\<rparr>) st"
    have cur: "cur_ok st A i" and i: "i < length (cpus st)" using e Some by (simp_all add: env_ok_def cur_ok_def)
    have i0: "i < length (cpus st0)" using i f0 by (simp add: drop_frame_def buf_frame_def)
    have inv1: "tb_inv ?st A" by (rule tb_inv_upd_cpu [OF inv]) simp
    obtain st1 where r: "tb_phys_invalidate ?st t NO_PAGE = Inr st1" "tb_inv st1 (abs_invalidate t A)" "drop_frame ?st st1"
      "\<And>u. quiet (tbs ?st) u \<Longrightarrow> quiet (tbs st1) u"
      "\<And>i. i < length (cpus ?st) \<Longrightarrow> interrupt_request (cpus st1 ! i) = interrupt_request (cpus ?st ! i)"
      "length (cpus st1) = length (cpus ?st)"
      by (rule invalidate_drop [OF inv1 t]) (rule that)
    define st2 where "st2 = upd_cpu i (\<lambda>e. e\<lparr>current_tb := ?saved\<rparr>) st1"
    have i2: "i < length (cpus st2)" "i < length (cpus st1)" using r(6) i by (simp_all add: st2_def)
    have inv2: "tb_inv st2 (abs_invalidate t A)" unfolding st2_def by (rule tb_inv_upd_cpu [OF r(2)]) simp
    have cur2: "cur_ok st2 (abs_invalidate t A) i"
      unfolding cur_ok_def
    proof (intro conjI allI impI i2(1))
      fix c assume "current_tb (cpus st2 ! i) = Some c"
      then have "?saved = Some c" using i2 by (simp add: st2_def)
      with cur have "c \<in> known A \<or> quiet (tbs st) c" by (simp add: cur_ok_def)
      then show "c \<in> known (abs_invalidate t A) \<or> quiet (tbs st2) c"
        using r(4) [of c] by (auto simp: known_abs_invalidate st2_def)
    qed
    have fr2: "drop_frame st st2" using r(3) by (simp add: drop_frame_def st2_def upd_cpu_io_pc)
    define run where "run = (if interrupt_request (cpus st2 ! i) \<noteq> 0 \<and> ?saved \<noteq> None
        then cpu_interrupt (is_self E) (icount_on E) (can_io E) st2 i (interrupt_request (cpus st2 ! i)) else Inr st2)"
    have "smc_drop E env st v t = andthen run (\<lambda>st. Inr (st, ?v))"
      by (simp only: smc_drop_def Some option.case Let_def r(1) andthen_simps st2_def [symmetric] run_def)
    moreover obtain st3 A3 where s3: "run = Inr st3" "tb_inv st3 A3" "unchained (abs_invalidate t A) A3" "cur_ok st3 A3 i"
      "drop_frame st2 st3"
    proof (cases "interrupt_request (cpus st2 ! i) \<noteq> 0 \<and> ?saved \<noteq> None")
      case True
      obtain st3 A3 where "cpu_interrupt (is_self E) (icount_on E) (can_io E) st2 i (interrupt_request (cpus st2 ! i)) = Inr st3"
        "tb_inv st3 A3" "unchained (abs_invalidate t A) A3" "cur_ok st3 A3 i"
        "\<And>u. tb_core (tbs st3 u) = tb_core (tbs st2 u)" "buf_frame st2 st3" "nb_tbs st3 = nb_tbs st2" "l1_map st3 = l1_map st2"
        "map mem_io_pc (cpus st3) = map mem_io_pc (cpus st2)"
        by (rule cpu_interrupt_again [OF inv2 cur2]) (rule that)
      with True show ?thesis by (intro that [of st3 A3]) (simp_all add: run_def drop_frame_def)
    next
      case False
      with inv2 cur2 show ?thesis by (intro that [of st2 "abs_invalidate t A"]) (auto simp: run_def)
    qed
    ultimately show ?thesis
      using s3 Some smc_current_ok [OF _ H f0, of E i v] v i0 drop_frame_trans [OF fr2 s3(5)]
      by (intro that [of st3 ?v A3]) (simp_all add: unchained_def live_abs_invalidate apage_abs_invalidate env_ok_def kn)
  qed
qed

section \<open>The loop\<close>

lemma tb_hit_core: "tb_core b' = tb_core b \<Longrightarrow> tb_hit s e b' n = tb_hit s e b n"
  using tb_core_eqD [of b' b] by (simp add: tb_hit_def tb_phys_range_def)

lemma tb_inv_chain:
  assumes "tb_inv st A" and "p < V_PAGES"
  shows "chain (\<lambda>k. page_next (tbs st (fst k)) (snd k)) (page_first st p) (apage A p)"
    and "(t, n) \<in> set (apage A p) \<longleftrightarrow> t \<in> live A \<and> has_page (tbs st t) n \<and> tb_page (tbs st t) n = p"
  using assms unfolding tb_inv_def tb_rel_def page_rel_def pages_ok_def by blast+

lemma smc_loop_inv:
  assumes "tb_inv st A" "pg < V_PAGES" "apage A pg = kept @ ks" "distinct (map fst (kept @ ks))" "length ks < f"
    "vars_ok E env st0 H v" "env_ok env st A"
    "chain (\<lambda>k. page_next (tbs st (fst k)) (snd k)) p ks"
    "drop_frame st0 st" "\<forall>k \<in> set ks. tb_hit s e (tbs st (fst k)) (snd k) \<longrightarrow> fst k \<in> H"
  shows "\<exists>st' v' A'. smc_loop f E env s e st v p = Inr (st', v') \<and> tb_inv st' A' \<and>
     live A' = live A - {t. \<exists>n. (t, n) \<in> set ks \<and> tb_hit s e (tbs st t) n} \<and>
     apage A' pg = kept @ filter (\<lambda>k. \<not> tb_hit s e (tbs st (fst k)) (snd k)) ks \<and>
     drop_frame st st' \<and> vars_ok E env st0 H v' \<and> env_ok env st' A' \<and> known A' = known A"
  using assms
proof (induction ks arbitrary: f st A kept v p)
  case Nil
  then obtain g where "f = Suc g" by (cases f) auto
  with Nil show ?case by (intro exI [of _ st] exI [of _ v] exI [of _ A]) simp
next
  case (Cons k ks)
  obtain t n where k: "k = (t, n)" by fastforce
  obtain g where f: "f = Suc g" using Cons.prems(5) by (cases f) auto
  have p: "p = Some (t, n)" and ch: "chain (\<lambda>k. page_next (tbs st (fst k)) (snd k)) (page_next (tbs st t) n) ks"
    using Cons.prems(8) by (simp_all add: k)
  show ?case
  proof (cases "tb_hit s e (tbs st t) n")
    case False
    have "smc_loop f E env s e st v p = smc_loop g E env s e st v (page_next (tbs st t) n)"
      using False by (simp add: f p)
    moreover have "\<exists>st' v' A'. smc_loop g E env s e st v (page_next (tbs st t) n) = Inr (st', v') \<and> tb_inv st' A' \<and>
       live A' = live A - {t. \<exists>n. (t, n) \<in> set ks \<and> tb_hit s e (tbs st t) n} \<and>
       apage A' pg = (kept @ [k]) @ filter (\<lambda>k. \<not> tb_hit s e (tbs st (fst k)) (snd k)) ks \<and>
       drop_frame st st' \<and> vars_ok E env st0 H v' \<and> env_ok env st' A' \<and> known A' = known A"
      by (rule Cons.IH) (use Cons.prems ch f in \<open>simp_all\<close>)
    moreover have "{t. \<exists>n. (t, n) \<in> set (k # ks) \<and> tb_hit s e (tbs st t) n} =
        {t. \<exists>n. (t, n) \<in> set ks \<and> tb_hit s e (tbs st t) n}" using False by (auto simp: k)
    ultimately show ?thesis using False by (simp add: k)
  next
    case True
    have tl: "t \<in> live A"
      using tb_inv_chain(2) [OF Cons.prems(1,2), of t n] Cons.prems(3) by (simp add: k)
    have tH: "t \<in> H" using Cons.prems(10) True by (simp add: k)
    obtain st1 v1 A1 where d: "smc_drop E env st v t = Inr (st1, v1)" "tb_inv st1 A1" "live A1 = live A - {t}" "known A1 = known A"
      "apage A1 = (\<lambda>p. filter (\<lambda>k. fst k \<noteq> t) (apage A p))" "drop_frame st st1" "vars_ok E env st0 H v1" "env_ok env st1 A1"
      by (rule smc_drop_inv [OF Cons.prems(1) tl Cons.prems(6,7) tH Cons.prems(9)]) (rule that)
    have nt: "\<forall>k \<in> set (kept @ ks). fst k \<noteq> t" using Cons.prems(4) by (force simp: k)
    have ap: "apage A1 pg = kept @ ks" using nt Cons.prems(3) by (simp add: d(5) k filter_id_conv)
    have core: "tb_core (tbs st1 u) = tb_core (tbs st u)" for u using d(6) by (simp add: drop_frame_def)
    have "chain (\<lambda>k. page_next (tbs st1 (fst k)) (snd k)) (page_first st1 pg) (kept @ ks)"
      unfolding ap [symmetric] by (rule tb_inv_chain(1) [OF d(2) Cons.prems(2)])
    then obtain r where "chain (\<lambda>k. page_next (tbs st1 (fst k)) (snd k)) r ks" by (auto simp: lseg_append)
    moreover have "r = page_next (tbs st t) n"
      if "chain (\<lambda>k. page_next (tbs st1 (fst k)) (snd k)) r ks" for r using that ch by (cases ks) auto
    ultimately have ch1: "chain (\<lambda>k. page_next (tbs st1 (fst k)) (snd k)) (page_next (tbs st t) n) ks" by blast
    have "smc_loop f E env s e st v p = smc_loop g E env s e st1 v1 (page_next (tbs st t) n)"
      using True d(1) by (simp add: f p)
    moreover have "\<exists>st' v' A'. smc_loop g E env s e st1 v1 (page_next (tbs st t) n) = Inr (st', v') \<and> tb_inv st' A' \<and>
       live A' = live A1 - {t. \<exists>n. (t, n) \<in> set ks \<and> tb_hit s e (tbs st1 t) n} \<and>
       apage A' pg = kept @ filter (\<lambda>k. \<not> tb_hit s e (tbs st1 (fst k)) (snd k)) ks \<and>
       drop_frame st1 st' \<and> vars_ok E env st0 H v' \<and> env_ok env st' A' \<and> known A' = known A1"
      by (rule Cons.IH [OF d(2) Cons.prems(2) ap _ _ d(7,8) ch1 drop_frame_trans [OF Cons.prems(9) d(6)]])
        (use Cons.prems f in \<open>simp_all add: tb_hit_core [OF core]\<close>)
    moreover have "live A1 - {t. \<exists>n. (t, n) \<in> set ks \<and> tb_hit s e (tbs st t) n} =
       live A - {t. \<exists>n. (t, n) \<in> set (k # ks) \<and> tb_hit s e (tbs st t) n}" using True d(3) by (auto simp: k)
    ultimately show ?thesis using True drop_frame_trans [OF d(6)] unfolding tb_hit_core [OF core] d(4) by (simp add: k) blast
  qed
qed

section \<open>The guest code of a block\<close>

lemma unat_ucast16: "unat (ucast (sz :: u16) :: u64) = unat sz"
proof -
  have "unat sz < 2 ^ 16" using unsigned_less [of sz] by simp
  then show ?thesis by (simp add: unsigned_ucast_eq take_bit_nat_eq_self)
qed

lemma unat_second_part:
  fixes a :: u64 and sz :: u16
  shows "unat ((a + ucast sz) AND 0xFFF) = (unat (a AND 0xFFF) + unat sz) mod 4096"
proof -
  have "unat (a + ucast sz) = (unat a + unat sz) mod 2 ^ 64" using unat_ucast16 [of sz] by (simp add: unat_word_ariths)
  then have "unat ((a + ucast sz) AND 0xFFF) = (unat a + unat sz) mod 2 ^ 64 mod 4096" by (simp only: unat_and_FFF)
  also have "\<dots> = (unat a + unat sz) mod 4096" by (rule mod_mod_cancel) simp
  also have "\<dots> = (unat a mod 4096 + unat sz) mod 4096" by (simp add: mod_simps)
  finally show ?thesis by (simp only: unat_and_FFF)
qed

lemma aligned_page: "a AND 0xFFF = (0 :: u64) \<Longrightarrow> unat a = 4096 * unat (drop_bit 12 a)"
proof -
  assume "a AND 0xFFF = 0"
  then have "unat a mod 4096 = 0" using unat_and_FFF [of a] by simp
  then show ?thesis unfolding unat_drop12 by (metis add.right_neutral mult_div_mod_eq)
qed

lemma tb_page_unat:
  assumes "tb_block_ok b" "has_page b n"
  shows "unat (page_addr b n) = 4096 * tb_page b n"
  using assms aligned_page by (auto simp: tb_block_ok_def has_page_def tb_page_def)

lemma in_span_first: "in_span b 0 i \<longleftrightarrow> unat (pc b AND 0xFFF) \<le> i \<and> i < unat (pc b AND 0xFFF) + unat (tbsize b) \<and> i < 4096"
  using unat_and_FFF [of "pc b"] by (auto simp: in_span_def tb_span_def Let_def)

lemma in_span_second:
  assumes "tb_block_ok b" "page_addr b 1 \<noteq> NO_PAGE"
  shows "in_span b 1 i \<longleftrightarrow> i + 4096 < unat (pc b AND 0xFFF) + unat (tbsize b)"
proof -
  let ?o = "unat (pc b AND 0xFFF)"
  have o: "?o < 4096" by (simp add: unat_and_FFF)
  have "4096 < ?o + unat (tbsize b)" "?o + unat (tbsize b) < 2 * 4096" using assms o by (auto simp: tb_block_ok_def)
  then have "(?o + unat (tbsize b)) mod 4096 = ?o + unat (tbsize b) - 4096" by (simp add: mod_if)
  then show ?thesis by (auto simp: in_span_def tb_span_def unat_second_part)
qed

lemma code_bytes_spans:
  assumes "tb_block_ok b"
  shows "x \<in> code_bytes b \<longleftrightarrow> (\<exists>n i. has_page b n \<and> in_span b n i \<and> x = 4096 * tb_page b n + i)"
proof -
  let ?o = "unat (pc b AND 0xFFF)" and ?z = "unat (tbsize b)"
  have o: "?o < 4096" by (simp add: unat_and_FFF)
  have a0: "unat (page_addr b 0) = 4096 * tb_page b 0" using tb_page_unat [OF assms] by (simp add: has_page_def)
  have a1: "unat (page_addr b 1) = 4096 * tb_page b 1" if "page_addr b 1 \<noteq> NO_PAGE"
    using tb_page_unat [OF assms] that by (simp add: has_page_def)
  have p1: "page_addr b 1 \<noteq> NO_PAGE \<longleftrightarrow> 4096 < ?o + ?z" using assms by (auto simp: tb_block_ok_def)
  show ?thesis
  proof
    assume "x \<in> code_bytes b"
    then obtain j where j: "j < ?z" "x = code_byte b j" by (auto simp: code_bytes_def)
    show "\<exists>n i. has_page b n \<and> in_span b n i \<and> x = 4096 * tb_page b n + i"
    proof (cases "?o + j < 4096")
      case True
      with j a0 show ?thesis
        by (intro exI [of _ 0] exI [of _ "?o + j"]) (simp add: has_page_def in_span_first code_byte_def)
    next
      case False
      with j p1 have h: "page_addr b 1 \<noteq> NO_PAGE" by linarith
      have "in_span b 1 (?o + j - 4096)" unfolding in_span_second [OF assms h] using False j(1) by linarith
      with False j a1 [OF h] h show ?thesis
        by (intro exI [of _ 1] exI [of _ "?o + j - 4096"]) (simp add: has_page_def code_byte_def)
    qed
  next
    assume "\<exists>n i. has_page b n \<and> in_span b n i \<and> x = 4096 * tb_page b n + i"
    then obtain n i where i: "has_page b n" "in_span b n i" "x = 4096 * tb_page b n + i" by blast
    show "x \<in> code_bytes b"
    proof (cases "n = 0")
      case True
      with i a0 show ?thesis
        unfolding code_bytes_def by (intro image_eqI [of _ _ "i - ?o"]) (auto simp: in_span_first code_byte_def)
    next
      case False
      with i(1) have n: "n = 1" "page_addr b 1 \<noteq> NO_PAGE" by (simp_all add: has_page_def)
      have "i + 4096 < ?o + ?z" using i(2) in_span_second [OF assms n(2)] by (simp add: n)
      with i(3) a1 [OF n(2)] o show ?thesis
        unfolding code_bytes_def by (intro image_eqI [of _ _ "i + 4096 - ?o"]) (auto simp: n code_byte_def)
    qed
  qed
qed

lemma in_span_less: "in_span b n i \<Longrightarrow> i < 4096"
  using tb_span_bound(1) [of b n] by (simp add: in_span_def)

lemma page_offset_unique: "4096 * p + i = 4096 * q + j \<Longrightarrow> i < 4096 \<Longrightarrow> j < 4096 \<Longrightarrow> p = q \<and> i = (j :: nat)"
  by (cases p q rule: linorder_cases) auto

lemma bytes_in_page:
  assumes "tb_block_ok b" "c \<le> 4096"
  shows "code_bytes b \<inter> {4096 * pg + a ..< 4096 * pg + c} \<noteq> {} \<longleftrightarrow>
     (\<exists>n. has_page b n \<and> tb_page b n = pg \<and> (\<exists>i. a \<le> i \<and> i < c \<and> in_span b n i))"
proof
  assume "code_bytes b \<inter> {4096 * pg + a ..< 4096 * pg + c} \<noteq> {}"
  then obtain n i where i: "has_page b n" "in_span b n i" "4096 * pg + a \<le> 4096 * tb_page b n + i"
    "4096 * tb_page b n + i < 4096 * pg + c" using code_bytes_spans [OF assms(1)] by auto
  have "tb_page b n = pg" using in_span_less [OF i(2)] i(3,4) assms(2) by linarith
  with i show "\<exists>n. has_page b n \<and> tb_page b n = pg \<and> (\<exists>i. a \<le> i \<and> i < c \<and> in_span b n i)" by auto
next
  assume "\<exists>n. has_page b n \<and> tb_page b n = pg \<and> (\<exists>i. a \<le> i \<and> i < c \<and> in_span b n i)"
  then obtain n i where "has_page b n" "tb_page b n = pg" "a \<le> i" "i < c" "in_span b n i" by blast
  then have "4096 * pg + i \<in> code_bytes b \<inter> {4096 * pg + a ..< 4096 * pg + c}"
    using code_bytes_spans [OF assms(1), of "4096 * pg + i"] by auto
  then show "code_bytes b \<inter> {4096 * pg + a ..< 4096 * pg + c} \<noteq> {}" by blast
qed

lemma tb_hit_span:
  assumes b: "tb_block_ok b" "has_page b n" "tb_page b n < V_PAGES"
    and r: "unat s = 4096 * tb_page b n + a" "unat e = 4096 * tb_page b n + c" "a < c" "c \<le> 4096"
  shows "tb_hit s e b n \<longleftrightarrow> (\<exists>i. a \<le> i \<and> i < c \<and> in_span b n i)"
proof -
  let ?o = "unat (pc b AND 0xFFF)" and ?z = "unat (tbsize b)" and ?P = "4096 * tb_page b n"
  have o: "?o < 4096" by (simp add: unat_and_FFF)
  have z: "0 < ?z" "?z \<le> 4096" using b(1) by (simp_all add: tb_block_ok_def)
  have P: "unat (page_addr b n) = ?P" by (rule tb_page_unat [OF b(1,2)])
  have big: "?P + 3 * 4096 < 2 ^ 64" using b(3) by simp
  show ?thesis
  proof (cases "n = 0")
    case True
    have s0: "unat (page_addr b 0 + (pc b AND 0xFFF)) = ?P + ?o"
      using P big o by (simp add: unat_word_ariths True)
    then have "unat (page_addr b 0 + (pc b AND 0xFFF) + ucast (tbsize b)) = ?P + ?o + ?z"
      using big o z unat_ucast16 [of "tbsize b"] by (simp add: unat_word_ariths(1) [of "_ + _"])
    then have "tb_hit s e b n \<longleftrightarrow> ?P + a < ?P + ?o + ?z \<and> ?P + ?o < ?P + c"
      using s0 r(1,2) by (simp add: tb_hit_def tb_phys_range_def Let_def True word_le_nat_alt not_le)
    also have "\<dots> \<longleftrightarrow> a < ?o + ?z \<and> ?o < c" by simp
    also have "\<dots> \<longleftrightarrow> (\<exists>i. a \<le> i \<and> i < c \<and> in_span b n i)"
      unfolding True in_span_first using r(3,4) o z by (auto intro: exI [of _ "max a ?o"])
    finally show ?thesis .
  next
    case False
    with b(2) have n: "n = 1" "page_addr b 1 \<noteq> NO_PAGE" by (simp_all add: has_page_def)
    let ?q = "unat ((pc b + ucast (tbsize b)) AND 0xFFF)"
    have q: "?q < 4096" by (simp add: unat_and_FFF)
    have "unat (page_addr b 1 + ((pc b + ucast (tbsize b)) AND 0xFFF)) = ?P + ?q"
      using P big q by (simp add: unat_word_ariths n)
    then have "tb_hit s e b n \<longleftrightarrow> ?P + a < ?P + ?q \<and> ?P < ?P + c"
      using r(1,2) P by (simp add: tb_hit_def tb_phys_range_def Let_def n word_le_nat_alt not_le)
    also have "\<dots> \<longleftrightarrow> a < ?q" using r(3) by simp
    also have "\<dots> \<longleftrightarrow> (\<exists>i. a \<le> i \<and> i < c \<and> in_span b n i)"
      using r(3) by (auto simp: n in_span_def tb_span_def intro: exI [of _ a])
    finally show ?thesis .
  qed
qed

section \<open>Invalidating a range\<close>

text \<open>The blocks that no byte of the range belongs to.\<close>

definition untouched :: "TBContext \<Rightarrow> TBLists \<Rightarrow> nat set \<Rightarrow> nat set" where
  "untouched st A R = {t \<in> live A. code_bytes (tbs st t) \<inter> R = {}}"

text \<open>What a new block needs: a translator that keeps to the buffer, room in it, and guest
  code in RAM at the instruction that is executed again.\<close>

definition smc_env_ok :: "smc_env \<Rightarrow> TBContext \<Rightarrow> nat \<Rightarrow> bool" where
  "smc_env_ok E st room \<longleftrightarrow> \<not> snd (want_fl E) \<and> gen_ok (gen_of E) room \<and> room_ok st room \<and>
     (\<forall>tb e pc0 csb fl. restored E tb e = (pc0, csb, fl) \<longrightarrow>
        phys_ok (phys_of E) st pc0 \<and> phys_ok (phys_of E) st ((pc0 AND TARGET_PAGE_MASK) + TARGET_PAGE_SIZE))"

lemma untouched_page:
  assumes inv: "tb_inv st A" and pg: "pg < V_PAGES" and r: "unat s = 4096 * pg + a" "unat e = 4096 * pg + c" "a < c" "c \<le> 4096"
  shows "live A - {t. \<exists>n. (t, n) \<in> set (apage A pg) \<and> tb_hit s e (tbs st t) n} = untouched st A {unat s ..< unat e}"
proof -
  have "(\<exists>n. (t, n) \<in> set (apage A pg) \<and> tb_hit s e (tbs st t) n) \<longleftrightarrow> code_bytes (tbs st t) \<inter> {unat s ..< unat e} \<noteq> {}"
    if t: "t \<in> live A" for t
  proof -
    have b: "tb_block_ok (tbs st t)" using inv t by (simp add: tb_inv_def)
    have "tb_hit s e (tbs st t) n \<longleftrightarrow> (\<exists>i. a \<le> i \<and> i < c \<and> in_span (tbs st t) n i)"
      if "has_page (tbs st t) n" "tb_page (tbs st t) n = pg" for n
      by (rule tb_hit_span [OF b that(1)]) (use that(2) pg r in simp_all)
    then show ?thesis unfolding r(1,2) bytes_in_page [OF b r(4)] using tb_inv_chain(2) [OF inv pg, of t] t by blast
  qed
  then show ?thesis by (auto simp: untouched_def)
qed

lemma page_list_distinct:
  assumes inv: "tb_inv st A" and pg: "pg < V_PAGES" and one: "\<forall>t \<in> live A. page_addr (tbs st t) 0 \<noteq> page_addr (tbs st t) 1"
  shows "distinct (map fst (apage A pg))"
proof -
  have "distinct (apage A pg)" by (rule chain_distinct [OF tb_inv_chain(1) [OF inv pg]])
  moreover have "k = k'" if k: "k \<in> set (apage A pg)" "k' \<in> set (apage A pg)" and f: "fst k = fst k'" for k k'
  proof -
    obtain t n m where km: "k = (t, n)" "k' = (t, m)" using f by (cases k; cases k') auto
    have t: "t \<in> live A" "has_page (tbs st t) n" "tb_page (tbs st t) n = pg" "has_page (tbs st t) m" "tb_page (tbs st t) m = pg"
      using k tb_inv_chain(2) [OF inv pg] unfolding km by blast+
    have b: "tb_block_ok (tbs st t)" using inv t(1) by (simp add: tb_inv_def)
    have "unat (page_addr (tbs st t) n) = unat (page_addr (tbs st t) m)"
      using tb_page_unat [OF b t(2)] tb_page_unat [OF b t(4)] t(3,5) by simp
    then have "page_addr (tbs st t) n = page_addr (tbs st t) m" by (rule word_unat_eq_iff [THEN iffD2])
    then have "n = m" using one t(1,2,4) unfolding has_page_def by metis
    then show ?thesis by (simp add: km)
  qed
  then have "inj_on fst (set (apage A pg))" by (auto intro: inj_onI)
  ultimately show ?thesis by (simp add: distinct_map)
qed

lemma smc_env_frame:
  assumes "smc_env_ok E st room" and "ram_wf (ram st') = ram_wf (ram st)" "set (blocks (ram st')) = set (blocks (ram st))"
    and "code_gen_buffer_size st' = code_gen_buffer_size st" "code_gen_buffer_max_size st' = code_gen_buffer_max_size st"
    "code_gen_max_blocks st' = code_gen_max_blocks st"
  shows "smc_env_ok E st' room"
proof -
  have "ram_page st' a = ram_page st a" for a using assms(2,3) by (simp add: ram_page_def)
  then have "phys_ok p st' v = phys_ok p st v" for p v by (simp add: phys_ok_def)
  then show ?thesis using assms(1,4-6) by (simp add: smc_env_ok_def room_ok_def)
qed

lemma smc_resume_inv:
  assumes inv: "tb_inv st A" and v: "vars_ok E env st0 H v" and E: "smc_env_ok E st room" and i: "\<forall>i. env = Some i \<longrightarrow> i < length (cpus st)"
  obtains st' r A' where "smc_resume E env st v = Inr (st', r)" "tb_inv st' A'" "room_ok st' room"
    "\<not> r \<Longrightarrow> A' = A \<and> tbs st' = tbs st"
    "r \<Longrightarrow> \<exists>t. (live A' = insert t (live A) \<and> t \<notin> known A \<or> live A' = {t}) \<and> (\<forall>u \<in> live A'. u \<noteq> t \<longrightarrow> tbs st' u = tbs st u) \<and>
        restarts E env st0 H (pc (tbs st' t), cs_base (tbs st' t), tbflags (tbs st' t))"
proof (cases "modified v")
  case None
  then show ?thesis using inv E by (intro that [of st False A]) (simp_all add: smc_resume_def smc_env_ok_def)
next
  case (Some m)
  obtain pc0 csb fl where m: "m = (pc0, csb, fl)" by (cases m)
  have rs: "restarts E env st0 H (pc0, csb, fl)" using v Some m by (simp add: vars_ok_def)
  then obtain i tb e where env: "env = Some i" and re: "restored E tb e = (pc0, csb, fl)" by (auto simp: restarts_def)
  have il: "i < length (cpus st)" using i env by simp
  let ?st = "upd_cpu i (\<lambda>e. e\<lparr>current_tb := None\<rparr>) st"
  have inv1: "tb_inv ?st A" by (rule tb_inv_upd_cpu [OF inv]) simp
  have E1: "smc_env_ok E ?st room" by (rule smc_env_frame [OF E]) (simp_all add: upd_cpu_def)
  then have ok: "room_ok ?st room" "\<not> snd (want_fl E)" "gen_ok (gen_of E) room" "phys_ok (phys_of E) ?st pc0"
    "phys_ok (phys_of E) ?st ((pc0 AND TARGET_PAGE_MASK) + TARGET_PAGE_SIZE)"
    using re unfolding smc_env_ok_def by blast+
  obtain st2 t A2 where g: "tb_gen_code (phys_of E) (gen_of E) (want_fl E) ?st pc0 csb fl 1 = Inr (st2, t)" "tb_inv st2 A2"
    "t \<in> live A2" "tb_matches (phys_of E) (tbs st2 t) pc0 csb fl" "room_ok st2 room"
    "live A2 = insert t (live A) \<and> t \<notin> known A \<or> live A2 = {t}" "\<forall>u \<in> live A2. u \<noteq> t \<longrightarrow> tbs st2 u = tbs ?st u"
    by (rule tb_gen_code_inv [OF inv1 ok]) (rule that)
  let ?st3 = "upd_cpu i (\<lambda>e. e\<lparr>exception_index := - 1\<rparr>) st2"
  have run: "smc_resume E env st v = Inr (?st3, True)" by (simp add: smc_resume_def Some m env g(1))
  have inv3: "tb_inv ?st3 A2" by (rule tb_inv_upd_cpu [OF g(2)]) simp
  have r3: "room_ok ?st3 room" using g(5) by (simp add: room_ok_def upd_cpu_def)
  have "restarts E env st0 H (pc (tbs ?st3 t), cs_base (tbs ?st3 t), tbflags (tbs ?st3 t))"
    using g(4) rs by (simp add: tb_matches_def)
  with g(6,7) show ?thesis by (intro that [OF run inv3 r3]) auto
qed

text \<open>Without a CPU write the current block is not looked at.\<close>

lemma smc_loop_idle:
  "smc_loop f E env s e st v p = Inr (st', v') \<Longrightarrow> \<not> not_found v \<Longrightarrow> cur_tb v = None \<Longrightarrow> v' = v"
proof (induction f E env s e st v p rule: smc_loop.induct)
  case (2 f E env s e st v p)
  have drop: "v2 = v" if "smc_drop E env st v t = Inr (st2, v2)" for t st2 v2
    using that 2(3,4) by (auto simp: smc_drop_def smc_current_def Let_def split: option.splits if_splits)
  show ?case
  proof (cases p)
    case None
    with 2(2) show ?thesis by simp
  next
    case (Some k)
    obtain t n where k: "k = (t, n)" by fastforce
    from 2(2) obtain st2 v2 where d: "(if tb_hit s e (tbs st t) n then smc_drop E env st v t else Inr (st, v)) = Inr (st2, v2)"
      "smc_loop f E env s e st2 v2 (page_next (tbs st t) n) = Inr (st', v')" by (auto simp: Some k Let_def)
    have "v2 = v" using d(1) drop by (auto split: if_splits)
    with 2(1) [OF Some k [symmetric] refl d(2)] 2(3,4) show ?thesis by simp
  qed
qed simp

lemma smc_unprotect_inv:
  assumes inv: "tb_inv st A" and pg: "pg < V_PAGES" and d: "pd_get (l1_map st) (page_ptr pg) \<noteq> None" and w: "w \<longrightarrow> env \<noteq> None"
  obtains st' where "smc_unprotect env st (page_ptr pg) s w = Inr st'" "tb_inv st' A" "tbs st' = tbs st" "cpus st' = cpus st"
    "ram_wf (ram st') = ram_wf (ram st)" "set (blocks (ram st')) = set (blocks (ram st))"
    "code_gen_buffer_size st' = code_gen_buffer_size st" "code_gen_buffer_max_size st' = code_gen_buffer_max_size st"
    "code_gen_max_blocks st' = code_gen_max_blocks st"
proof -
  obtain d where d: "pd_get (l1_map st) (page_ptr pg) = Some d" using d by blast
  show ?thesis
  proof (cases "first_tb d")
    case (Some k)
    with d inv show ?thesis by (intro that [of st]) (simp_all add: smc_unprotect_def)
  next
    case None
    let ?st = "st\<lparr>l1_map := pd_put (l1_map st) (page_ptr pg) (invalidate_page_bitmap d)\<rparr>"
    have inv1: "tb_inv ?st A" by (rule tb_inv_page_put [OF inv pg d]) (simp_all add: invalidate_page_bitmap_def)
    have "tb_inv (?st\<lparr>ram := r\<rparr>) A" for r by (rule tb_inv_dead [OF inv1]) simp_all
    with None d w inv1 show ?thesis
      by (intro that [of "if w then ?st\<lparr>ram := tlb_unprotect_code_phys (ram ?st) s\<rparr> else ?st"])
        (auto simp: smc_unprotect_def tlb_unprotect_code_phys_def cpu_physical_memory_set_dirty_flags_def Let_def)
  qed
qed

lemma tb_inv_exact:
  assumes "tb_inv st A" "p < V_PAGES" "pd_get (l1_map st) (page_ptr p) = Some d"
  shows "chain (\<lambda>k. page_next (tbs st (fst k)) (snd k)) (first_tb d) (apage A p)" "length (apage A p) < list_fuel st"
    and "code_bitmap d = Some tab \<Longrightarrow> bitmap_exact (tbs st) tab (apage A p)"
proof -
  show "chain (\<lambda>k. page_next (tbs st (fst k)) (snd k)) (first_tb d) (apage A p)"
    using tb_inv_chain(1) [OF assms(1,2)] assms(3) by (simp add: page_first_def)
  have r: "page_rel st (apage A)" "pages_ok (tbs st) (live A) (apage A)" "tb_rel st A"
    using assms(1) by (simp_all add: tb_inv_def tb_rel_def)
  then have "length (apage A p) \<le> 2 * nb_tbs st" using page_list_length [of st "apage A" "live A" p] assms(2) live_less [of st A] by blast
  then show "length (apage A p) < list_fuel st" by (simp add: list_fuel_def)
  assume "code_bitmap d = Some tab"
  then have "page_bitmap (l1_map st) p = Some tab" using assms(3) by (simp add: page_bitmap_def)
  then show "bitmap_exact (tbs st) tab (apage A p)" using r(1) assms(2) unfolding page_rel_def by blast
qed

lemma range_inv:
  assumes inv: "tb_inv st A" and E: "smc_env_ok E st room" and env: "env_ok env st A" and w: "w \<longrightarrow> env \<noteq> None"
    and one: "\<forall>t \<in> live A. page_addr (tbs st t) 0 \<noteq> page_addr (tbs st t) 1"
    and pg: "pg < V_PAGES" and r: "unat s = 4096 * pg + a" "unat e = 4096 * pg + c" "a < c" "c \<le> 4096"
  obtains st' x A' where "tb_invalidate_phys_page_range E env st s e w = Inr (st', x)" "tb_inv st' A'" "room_ok st' room"
    "\<not> w \<Longrightarrow> \<not> x" "\<not> x \<Longrightarrow> live A' = untouched st A {unat s ..< unat e} \<and> (\<forall>u. tb_core (tbs st' u) = tb_core (tbs st u))"
    "x \<Longrightarrow> \<exists>t. (live A' = insert t (untouched st A {unat s ..< unat e}) \<and> t \<notin> live A \<and>
           (\<forall>u \<in> untouched st A {unat s ..< unat e}. tb_core (tbs st' u) = tb_core (tbs st u)) \<or> live A' = {t}) \<and>
        restarts E env st (live A - untouched st A {unat s ..< unat e})
          (pc (tbs st' t), cs_base (tbs st' t), tbflags (tbs st' t))"
proof -
  let ?R = "{unat s ..< unat e}" and ?H = "live A - untouched st A {unat s ..< unat e}"
  have wf: "wf_map V_SPACE (l1_map st)" using inv by (simp add: tb_inv_def tb_rel_def page_rel_def)
  have idx: "unat (drop_bit TARGET_PAGE_BITS s) = pg" using r by (simp add: unat_drop12)
  note unt = untouched_page [OF inv pg r]
  show ?thesis
  proof (cases "pd_get (l1_map st) (page_ptr pg)")
    case None
    then have "apage A pg = []" using tb_inv_chain(1) [OF inv pg] by (cases "apage A pg") (simp_all add: page_first_def)
    then have "live A = untouched st A ?R" using unt by simp
    moreover have "tb_invalidate_phys_page_range E env st s e w = Inr (st, False)"
      using None page_find_eq [OF wf pg] by (simp add: tb_invalidate_phys_page_range_def idx)
    ultimately show ?thesis using inv E by (intro that [of st False A]) (simp_all add: smc_env_ok_def)
  next
    case (Some d)
    let ?v = "\<lparr>not_found = w, cur_tb = None, modified = None\<rparr>"
    note D = tb_inv_exact [OF inv pg Some]
    obtain d1 where d1: "count_write (list_fuel st) (tbs st) w d = Inr d1" "first_tb d1 = first_tb d"
      "\<And>tab. code_bitmap d1 = Some tab \<Longrightarrow> bitmap_exact (tbs st) tab (apage A pg)"
      by (rule count_write_ok [OF D]) (assumption, rule that)
    define st1 where "st1 = st\<lparr>l1_map := pd_put (l1_map st) (page_ptr pg) d1\<rparr>"
    have inv1: "tb_inv st1 A" unfolding st1_def by (rule tb_inv_page_put [OF inv pg Some d1(2)]) (rule d1(3))
    have pd1: "pd_get (l1_map st1) (page_ptr pg) \<noteq> None" using vp.put_get [OF wf pg pg, of d1] Some by (simp add: st1_def)
    have l1: "length (apage A pg) < list_fuel st1" using D(2) by (simp add: st1_def list_fuel_def)
    have v: "vars_ok E env st1 ?H ?v" using w by (auto simp: vars_ok_def)
    have hitH: "\<forall>k \<in> set (apage A pg). tb_hit s e (tbs st1 (fst k)) (snd k) \<longrightarrow> fst k \<in> ?H"
    proof (intro ballI impI)
      fix k assume k: "k \<in> set (apage A pg)" "tb_hit s e (tbs st1 (fst k)) (snd k)"
      obtain t n where tn: "k = (t, n)" by fastforce
      have "t \<in> live A" using tb_inv_chain(2) [OF inv pg, of t n] k(1) by (simp add: tn)
      then show "fst k \<in> ?H" using unt k by (auto simp: tn st1_def)
    qed
    have e1: "env_ok env st1 A" using env by (simp add: env_ok_def cur_ok_def st1_def)
    have ch1: "chain (\<lambda>k. page_next (tbs st1 (fst k)) (snd k)) (first_tb d1) (apage A pg)" using D(1) d1(2) by (simp add: st1_def)
    have ds: "distinct (map fst ([] @ apage A pg))" using page_list_distinct [OF inv pg one] by simp
    have kp: "apage A pg = [] @ apage A pg" by simp
    from smc_loop_inv [OF inv1 pg kp ds l1 v e1 ch1 drop_frame_refl hitH] obtain st2 v2 A2 where
      lp: "smc_loop (list_fuel st1) E env s e st1 ?v (first_tb d1) = Inr (st2, v2)" "tb_inv st2 A2"
        "live A2 = live A - {t. \<exists>n. (t, n) \<in> set (apage A pg) \<and> tb_hit s e (tbs st1 t) n}"
        "drop_frame st1 st2" "vars_ok E env st1 ?H v2" "env_ok env st2 A2" "known A2 = known A" by blast
    have L2: "live A2 = untouched st A ?R" using lp(3) unt by (simp add: st1_def)
    have pd2: "pd_get (l1_map st2) (page_ptr pg) \<noteq> None" using lp(4) pd1 pg unfolding drop_frame_def by blast
    obtain st3 where u: "smc_unprotect env st2 (page_ptr pg) s w = Inr st3" "tb_inv st3 A2" "tbs st3 = tbs st2" "cpus st3 = cpus st2"
      "ram_wf (ram st3) = ram_wf (ram st2)" "set (blocks (ram st3)) = set (blocks (ram st2))"
      "code_gen_buffer_size st3 = code_gen_buffer_size st2" "code_gen_buffer_max_size st3 = code_gen_buffer_max_size st2"
      "code_gen_max_blocks st3 = code_gen_max_blocks st2"
      by (rule smc_unprotect_inv [OF lp(2) pg pd2 w]) (rule that)
    have E3: "smc_env_ok E st3 room"
      by (rule smc_env_frame [OF E]) (use lp(4) u in \<open>simp_all add: drop_frame_def buf_frame_def st1_def\<close>)
    have i3: "\<forall>i. env = Some i \<longrightarrow> i < length (cpus st3)" using lp(6) u(4) by (simp add: env_ok_def cur_ok_def)
    obtain st' x A' where rs: "smc_resume E env st3 v2 = Inr (st', x)" "tb_inv st' A'" "room_ok st' room"
      "\<not> x \<Longrightarrow> A' = A2 \<and> tbs st' = tbs st3"
      "x \<Longrightarrow> \<exists>t. (live A' = insert t (live A2) \<and> t \<notin> known A2 \<or> live A' = {t}) \<and> (\<forall>u \<in> live A'. u \<noteq> t \<longrightarrow> tbs st' u = tbs st3 u) \<and>
        restarts E env st1 ?H (pc (tbs st' t), cs_base (tbs st' t), tbflags (tbs st' t))"
      by (rule smc_resume_inv [OF u(2) lp(5) E3 i3]) (rule that)
    have run: "tb_invalidate_phys_page_range E env st s e w = Inr (st', x)"
      unfolding tb_invalidate_phys_page_range_def idx page_find_eq [OF wf pg]
      by (simp add: Some d1(1) st1_def [symmetric] lp(1) u(1) rs(1))
    have "\<not> x" if "\<not> w"
    proof -
      have "v2 = ?v" using smc_loop_idle [OF lp(1)] that by simp
      with rs(1) show ?thesis by (auto simp: smc_resume_def)
    qed
    moreover have core: "tb_core (tbs st3 u) = tb_core (tbs st u)" for u
      using lp(4) u(3) by (simp add: drop_frame_def st1_def)
    have rst: "restarts E env st1 ?H k = restarts E env st ?H k" for k
      by (simp add: restarts_def running_tb_def tb_find_pc_def st1_def)
    have "\<exists>t. (live A' = insert t (untouched st A ?R) \<and> t \<notin> live A \<and>
           (\<forall>u \<in> untouched st A ?R. tb_core (tbs st' u) = tb_core (tbs st u)) \<or> live A' = {t}) \<and>
        restarts E env st ?H (pc (tbs st' t), cs_base (tbs st' t), tbflags (tbs st' t))" if x: x
    proof -
      obtain t where t: "live A' = insert t (live A2) \<and> t \<notin> known A2 \<or> live A' = {t}"
        "\<forall>u \<in> live A'. u \<noteq> t \<longrightarrow> tbs st' u = tbs st3 u"
        "restarts E env st1 ?H (pc (tbs st' t), cs_base (tbs st' t), tbflags (tbs st' t))" using rs(5) [OF x] by blast
      have "t \<notin> live A \<and> (\<forall>u \<in> live A2. tb_core (tbs st' u) = tb_core (tbs st u))"
        if n: "live A' = insert t (live A2)" "t \<notin> known A2"
      proof -
        have "t \<notin> live A" using n(2) lp(7) live_known by blast
        moreover have "tbs st' u = tbs st3 u" if u: "u \<in> live A2" for u
        proof -
          have "u \<noteq> t" "u \<in> live A'" using n u live_known by auto
          then show ?thesis using t(2) by blast
        qed
        ultimately show ?thesis using core by simp
      qed
      with t(1,3) show ?thesis unfolding L2 rst by (intro exI [of _ t]) blast
    qed
    ultimately show ?thesis using rs(4) L2 core by (intro that [OF run rs(2,3)]) simp_all
  qed
qed

section \<open>The bitmap test\<close>

lemma aligned_in_byte:
  fixes a len :: nat
  assumes "len \<in> {1, 2, 4, 8}" "len dvd a"
  shows "a mod 8 + len \<le> 8"
proof -
  have "len dvd 8" using assms(1) by auto
  then have "len dvd a mod 8" using assms(2) by (simp add: dvd_mod_iff)
  then obtain k where k: "a mod 8 = len * k" by blast
  have "a mod 8 < 8" by simp
  then show ?thesis using assms(1) k by (cases k) auto
qed

lemma fast_bits:
  fixes tab :: "u8 list"
  assumes "a mod 8 + len \<le> 8"
  shows "drop_bit (a mod 8) (ucast (tab ! (a div 8)) :: u32) AND (push_bit len 1 - 1) \<noteq> 0 \<longleftrightarrow>
     (\<exists>i. a \<le> i \<and> i < a + len \<and> page_bit tab i)"
proof -
  let ?w = "drop_bit (a mod 8) (ucast (tab ! (a div 8)) :: u32) AND (push_bit len 1 - 1)"
  have m: "(push_bit len 1 - 1 :: u32) = mask len" by (simp add: mask_eq_exp_minus_1 push_bit_eq_mult)
  have b: "bit ?w j \<longleftrightarrow> j < len \<and> bit (tab ! (a div 8)) (a mod 8 + j)" for j
    using assms unfolding m by (auto simp: bit_simps dest: bit_imp_le_length)
  have div: "(a + j) div 8 = a div 8" "(a + j) mod 8 = a mod 8 + j" if "j < len" for j
  proof -
    have "a + j = 8 * (a div 8) + (a mod 8 + j)" "a mod 8 + j < 8" using assms that by simp_all
    then show "(a + j) div 8 = a div 8" "(a + j) mod 8 = a mod 8 + j"
      by (metis div_mult_self4 div_less add.right_neutral zero_neq_numeral add_0, metis mod_mult_self4 mod_less)
  qed
  have "?w \<noteq> 0 \<longleftrightarrow> (\<exists>j. bit ?w j)" by (metis bit_0_eq bit_eq_iff bot_apply bot_bool_def)
  also have "\<dots> \<longleftrightarrow> (\<exists>j < len. page_bit tab (a + j))" unfolding b by (auto simp: page_bit_def div)
  also have "\<dots> \<longleftrightarrow> (\<exists>i. a \<le> i \<and> i < a + len \<and> page_bit tab i)"
  proof
    assume "\<exists>i. a \<le> i \<and> i < a + len \<and> page_bit tab i"
    then obtain i where "a \<le> i" "i < a + len" "page_bit tab i" by blast
    then show "\<exists>j < len. page_bit tab (a + j)" by (intro exI [of _ "i - a"]) auto
  qed (metis le_add1 nat_add_left_cancel_less)
  finally show ?thesis .
qed

lemma fast_cases:
  assumes inv: "tb_inv st A" and pg: "pg < V_PAGES" and r: "unat s = 4096 * pg + a" "a < 4096"
    and len: "len \<in> {1, 2, 4, 8}" "len dvd unat s"
  shows "tb_invalidate_phys_page_fast E env st s len = tb_invalidate_phys_page_range E env st s (s + of_nat len) True \<or>
     tb_invalidate_phys_page_fast E env st s len = Inr (st, False) \<and> untouched st A {unat s ..< unat s + len} = live A"
proof -
  have wf: "wf_map V_SPACE (l1_map st)" using inv by (simp add: tb_inv_def tb_rel_def page_rel_def)
  have idx: "unat (drop_bit TARGET_PAGE_BITS s) = pg" and off: "unat (s AND 0xFFF) = a"
    using r by (simp_all add: unat_drop12 unat_and_FFF)
  have in8: "a mod 8 + len \<le> 8"
  proof (rule aligned_in_byte [OF len(1)])
    have "len dvd 4096 * pg" using len(1) by auto
    with len(2) show "len dvd a" unfolding r(1) by (simp add: dvd_add_right_iff)
  qed
  have al: "a + len \<le> 4096"
  proof -
    have "a div 8 < 512" using r(2) by (simp add: less_mult_imp_div_less)
    moreover have "a = 8 * (a div 8) + a mod 8" by simp
    ultimately show ?thesis using in8 by linarith
  qed
  show ?thesis
  proof (cases "pd_get (l1_map st) (page_ptr pg)")
    case None
    then have "apage A pg = []" using tb_inv_chain(1) [OF inv pg] by (cases "apage A pg") (simp_all add: page_first_def)
    then have no: "\<not> (has_page (tbs st t) n \<and> tb_page (tbs st t) n = pg)" if "t \<in> live A" for t n
      using tb_inv_chain(2) [OF inv pg, of t n] that by simp
    have "code_bytes (tbs st t) \<inter> {unat s ..< unat s + len} = {}" if t: "t \<in> live A" for t
    proof -
      have "tb_block_ok (tbs st t)" using inv t by (simp add: tb_inv_def)
      from bytes_in_page [OF this al, of pg a] no [OF t] show ?thesis unfolding r(1) add.assoc by blast
    qed
    then have "untouched st A {unat s ..< unat s + len} = live A" by (auto simp: untouched_def)
    moreover have "tb_invalidate_phys_page_fast E env st s len = Inr (st, False)"
      using None page_find_eq [OF wf pg] by (simp add: tb_invalidate_phys_page_fast_def idx)
    ultimately show ?thesis by blast
  next
    case (Some d)
    show ?thesis
    proof (cases "code_bitmap d")
      case None
      then show ?thesis using Some page_find_eq [OF wf pg] by (simp add: tb_invalidate_phys_page_fast_def idx)
    next
      case tab: (Some tab)
      let ?b = "drop_bit (a mod 8) (ucast (tab ! (a div 8)) :: u32) AND (push_bit len 1 - 1)"
      have run: "tb_invalidate_phys_page_fast E env st s len =
          (if ?b \<noteq> 0 then tb_invalidate_phys_page_range E env st s (s + of_nat len) True else Inr (st, False))"
        using Some page_find_eq [OF wf pg] tab by (simp add: tb_invalidate_phys_page_fast_def idx off Let_def)
      show ?thesis
      proof (cases "?b = 0")
        case False
        with run show ?thesis by simp
      next
        case True
        have "page_bitmap (l1_map st) pg = Some tab" using Some tab by (simp add: page_bitmap_def)
        moreover have "page_rel st (apage A)" using inv by (simp add: tb_inv_def tb_rel_def)
        ultimately have ex: "bitmap_exact (tbs st) tab (apage A pg)" using pg unfolding page_rel_def by blast
        have none: "\<not> in_span (tbs st t) n i" if "(t, n) \<in> set (apage A pg)" "a \<le> i" "i < a + len" for t n i
        proof
          assume "in_span (tbs st t) n i"
          moreover have "i < 4096" using that(3) al by simp
          ultimately have "page_bit tab i" using ex that(1) unfolding bitmap_exact_def by force
          with fast_bits [OF in8, of tab] True that(2,3) show False by blast
        qed
        have "code_bytes (tbs st t) \<inter> {unat s ..< unat s + len} = {}" if t: "t \<in> live A" for t
        proof -
          have b: "tb_block_ok (tbs st t)" using inv t by (simp add: tb_inv_def)
          have "\<not> (\<exists>n. has_page (tbs st t) n \<and> tb_page (tbs st t) n = pg \<and> (\<exists>i. a \<le> i \<and> i < a + len \<and> in_span (tbs st t) n i))"
            using none tb_inv_chain(2) [OF inv pg, of t] t by blast
          then show ?thesis using bytes_in_page [OF b al, of pg a] unfolding r(1) add.assoc by blast
        qed
        then have "untouched st A {unat s ..< unat s + len} = live A" by (auto simp: untouched_def)
        with run True show ?thesis by simp
      qed
    qed
  qed
qed

section \<open>A block that is no longer in the cache\<close>

lemma tb_remove_miss:
  assumes "chain (\<lambda>t. phys_hash_next (ts t)) (hash_slot (hp, ts) c) xs" and "t \<notin> set xs" and "length xs < n"
  shows "tb_remove n (hp, ts) c t = Inl NullDeref"
  using assms
proof (induction xs arbitrary: c n)
  case Nil
  then obtain m where "n = Suc m" by (cases n) auto
  with Nil show ?case by simp
next
  case (Cons x xs)
  then obtain m where n: "n = Suc m" by (cases n) auto
  have "tb_remove m (hp, ts) (Some x) t = Inl NullDeref"
    by (rule Cons.IH) (use Cons.prems n in \<open>auto simp: hash_slot_def\<close>)
  with Cons.prems show ?case by (auto simp: n)
qed

lemma invalidate_dead:
  assumes rel: "tb_rel st A" and t: "t \<notin> live A"
  shows "tb_phys_invalidate st t pg = Inl NullDeref"
proof -
  let ?h = "tb_hash_index (tbs st t)"
  have hr: "hash_rel st (ahash A)" using rel by (simp add: tb_rel_def)
  then have ch: "chain (\<lambda>t. phys_hash_next (tbs st t)) (hash_slot (tb_phys_hash st ?h, tbs st) None) (ahash A ?h)"
    by (simp add: hash_rel_def hash_slot_def)
  have "length (ahash A ?h) \<le> nb_tbs st"
    by (rule distinct_nats_length [OF chain_distinct [OF ch]]) (use hr in \<open>auto simp: hash_rel_def\<close>)
  then have "tb_remove (list_fuel st) (tb_phys_hash st ?h, tbs st) None t = Inl NullDeref"
    by (intro tb_remove_miss [OF ch]) (use t in \<open>auto simp: live_def list_fuel_def\<close>)
  then show ?thesis by (simp add: tb_phys_invalidate_def Let_def)
qed

text \<open>Dropping a block a second time, with or without a running CPU.\<close>

lemma smc_drop_dead:
  assumes inv: "tb_inv st A" and t: "t \<notin> live A"
  shows "smc_drop E env st v t = Inl NullDeref"
proof (cases env)
  case None
  have "tb_rel st A" using inv by (simp add: tb_inv_def)
  from invalidate_dead [OF this t] None show ?thesis by (simp add: smc_drop_def)
next
  case (Some i)
  have "tb_inv (upd_cpu i (\<lambda>e. e\<lparr>current_tb := None\<rparr>) st) A" by (rule tb_inv_upd_cpu [OF inv]) simp
  then have "tb_rel (upd_cpu i (\<lambda>e. e\<lparr>current_tb := None\<rparr>) st) A" by (simp add: tb_inv_def)
  from invalidate_dead [OF this t] Some show ?thesis by (simp add: smc_drop_def Let_def)
qed

text \<open>The walk reaches two neighbouring entries of one block, both of them hit.\<close>

lemma smc_loop_twice:
  assumes "tb_inv st A" "pg < V_PAGES" "apage A pg = kept @ pre @ (t, m) # (t, n) # post" "distinct (map fst pre)" "t \<notin> fst ` set pre"
    "\<forall>k \<in> set pre. fst k \<notin> fst ` set (kept @ (t, m) # (t, n) # post)"
    "length pre < f" "vars_ok E env st0 UNIV v" "env_ok env st A"
    "chain (\<lambda>k. page_next (tbs st (fst k)) (snd k)) p (pre @ (t, m) # (t, n) # post)" "drop_frame st0 st"
    "tb_hit s e (tbs st t) m" "tb_hit s e (tbs st t) n"
  shows "smc_loop (Suc f) E env s e st v p = Inl NullDeref"
  using assms
proof (induction pre arbitrary: f st A kept v p)
  case Nil
  have p: "p = Some (t, m)" "page_next (tbs st t) m = Some (t, n)" using Nil.prems(10) by simp_all
  have tl: "t \<in> live A" using tb_inv_chain(2) [OF Nil.prems(1,2), of t m] Nil.prems(3) by simp
  obtain st1 v1 A1 where d: "smc_drop E env st v t = Inr (st1, v1)" "tb_inv st1 A1" "live A1 = live A - {t}" "drop_frame st st1"
    by (rule smc_drop_inv [OF Nil.prems(1) tl Nil.prems(8,9) UNIV_I Nil.prems(11)]) (rule that)
  have "tb_core (tbs st1 t) = tb_core (tbs st t)" using d(4) by (simp add: drop_frame_def)
  then have h: "tb_hit s e (tbs st1 t) n" using Nil.prems(13) tb_hit_core [of "tbs st1 t" "tbs st t"] by simp
  have "smc_drop E env st1 v1 t = Inl NullDeref" by (rule smc_drop_dead [OF d(2)]) (simp add: d(3))
  moreover obtain g where "f = Suc g" using Nil.prems(7) by (cases f) auto
  ultimately show ?case using Nil.prems(12) d(1) h p by simp
next
  case (Cons k pre)
  obtain u l where k: "k = (u, l)" by fastforce
  obtain g where f: "f = Suc g" using Cons.prems(7) by (cases f) auto
  have p: "p = Some (u, l)" and ch: "chain (\<lambda>k. page_next (tbs st (fst k)) (snd k)) (page_next (tbs st u) l) (pre @ (t, m) # (t, n) # post)"
    using Cons.prems(10) by (simp_all add: k)
  show ?case
  proof (cases "tb_hit s e (tbs st u) l")
    case False
    have "smc_loop (Suc g) E env s e st v (page_next (tbs st u) l) = Inl NullDeref"
      by (rule Cons.IH [of _ A "kept @ [k]"]) (use Cons.prems ch f in \<open>auto simp: k\<close>)
    then show ?thesis using False by (simp add: f p)
  next
    case True
    have ul: "u \<in> live A" using tb_inv_chain(2) [OF Cons.prems(1,2), of u l] Cons.prems(3) by (simp add: k)
    obtain st1 v1 A1 where d: "smc_drop E env st v u = Inr (st1, v1)" "tb_inv st1 A1"
      "apage A1 = (\<lambda>p. filter (\<lambda>k. fst k \<noteq> u) (apage A p))" "drop_frame st st1" "vars_ok E env st0 UNIV v1" "env_ok env st1 A1"
      by (rule smc_drop_inv [OF Cons.prems(1) ul Cons.prems(8,9) UNIV_I Cons.prems(11)]) (rule that)
    have nu: "\<forall>x \<in> set (kept @ pre @ (t, m) # (t, n) # post). fst x \<noteq> u" using Cons.prems(4-6) by (force simp: k)
    have ap: "apage A1 pg = kept @ pre @ (t, m) # (t, n) # post"
    proof -
      have "filter (\<lambda>k. fst k \<noteq> u) (kept @ pre @ (t, m) # (t, n) # post) = kept @ pre @ (t, m) # (t, n) # post"
        using nu by (simp only: filter_id_conv)
      then show ?thesis using Cons.prems(3) by (simp add: d(3) k)
    qed
    have core: "tb_core (tbs st1 w) = tb_core (tbs st w)" for w using d(4) by (simp add: drop_frame_def)
    have "chain (\<lambda>k. page_next (tbs st1 (fst k)) (snd k)) (page_first st1 pg) (kept @ pre @ (t, m) # (t, n) # post)"
      unfolding ap [symmetric] by (rule tb_inv_chain(1) [OF d(2) Cons.prems(2)])
    then obtain r where r: "chain (\<lambda>k. page_next (tbs st1 (fst k)) (snd k)) r (pre @ (t, m) # (t, n) # post)" by (auto simp: lseg_append)
    have "r = page_next (tbs st u) l" using r ch by (cases pre) auto
    with r have ch1: "chain (\<lambda>k. page_next (tbs st1 (fst k)) (snd k)) (page_next (tbs st u) l) (pre @ (t, m) # (t, n) # post)" by simp
    have "smc_loop (Suc g) E env s e st1 v1 (page_next (tbs st u) l) = Inl NullDeref"
      by (rule Cons.IH [OF d(2) Cons.prems(2) ap _ _ _ _ d(5,6) ch1 drop_frame_trans [OF Cons.prems(11) d(4)]])
        (use Cons.prems f in \<open>auto simp: k tb_hit_core [OF core]\<close>)
    then show ?thesis using True d(1) by (simp add: f p)
  qed
qed

section \<open>Properties\<close>

text \<open>
  C25: build_page_bitmap, for the descriptor of any page of a consistent cache, ends within the
  bound on its loop, stays inside its 512 bytes and marks exactly the bytes of the page that
  some block in the cache was translated from: bit i is set if and only if the byte at physical
  address 4096 * page + i is a byte of the guest code of a block in the cache, be it in the
  first or in the second page of that block.
\<close>
theorem build_page_bitmap_correct:
  assumes "tb_inv st A" and "pg < V_PAGES" and "pd_get (l1_map st) (page_ptr pg) = Some d"
  shows "\<exists>tab. build_page_bitmap (list_fuel st) (tbs st) d = Inr (d\<lparr>code_bitmap := Some tab\<rparr>) \<and> length tab = 512 \<and>
     (\<forall>i < 4096. bit (tab ! (i div 8)) (i mod 8) \<longleftrightarrow> (\<exists>t \<in> live A. 4096 * pg + i \<in> code_bytes (tbs st t)))"
proof -
  note D = tb_inv_exact [OF assms]
  obtain tab where tab: "build_page_bitmap (list_fuel st) (tbs st) d = Inr (d\<lparr>code_bitmap := Some tab\<rparr>)"
    "bitmap_exact (tbs st) tab (apage A pg)" by (rule build_page_bitmap_exact [OF D(1,2)])
  have "(\<exists>k \<in> set (apage A pg). in_span (tbs st (fst k)) (snd k) i) \<longleftrightarrow> (\<exists>t \<in> live A. 4096 * pg + i \<in> code_bytes (tbs st t))"
    if i: "i < 4096" for i
  proof -
    have "4096 * pg + i \<in> code_bytes (tbs st t) \<longleftrightarrow> (\<exists>n. (t, n) \<in> set (apage A pg) \<and> in_span (tbs st t) n i)"
      if t: "t \<in> live A" for t
    proof -
      have b: "tb_block_ok (tbs st t)" using assms(1) t by (simp add: tb_inv_def)
      have "tb_page (tbs st t) n = pg \<and> j = i" if "in_span (tbs st t) n j" "4096 * pg + i = 4096 * tb_page (tbs st t) n + j" for n j
        using page_offset_unique [OF that(2) i in_span_less [OF that(1)]] by simp
      note uniq = this
      have el: "(t, n) \<in> set (apage A pg) \<longleftrightarrow> has_page (tbs st t) n \<and> tb_page (tbs st t) n = pg" for n
        using tb_inv_chain(2) [OF assms(1,2), of t n] t by blast
      show ?thesis
      proof
        assume "4096 * pg + i \<in> code_bytes (tbs st t)"
        then obtain n j where nj: "has_page (tbs st t) n" "in_span (tbs st t) n j" "4096 * pg + i = 4096 * tb_page (tbs st t) n + j"
          using code_bytes_spans [OF b] by blast
        with uniq [OF nj(2,3)] el show "\<exists>n. (t, n) \<in> set (apage A pg) \<and> in_span (tbs st t) n i" by auto
      next
        assume "\<exists>n. (t, n) \<in> set (apage A pg) \<and> in_span (tbs st t) n i"
        then obtain n where n: "(t, n) \<in> set (apage A pg)" "in_span (tbs st t) n i" by blast
        then show "4096 * pg + i \<in> code_bytes (tbs st t)"
          unfolding code_bytes_spans [OF b] using el by (intro exI [of _ n] exI [of _ i]) simp
      qed
    qed
    moreover have "t \<in> live A" if "(t, n) \<in> set (apage A pg)" for t n
      using tb_inv_chain(2) [OF assms(1,2), of t n] that by blast
    ultimately show ?thesis by (metis fst_conv snd_conv prod.collapse)
  qed
  with tab show ?thesis by (intro exI [of _ tab]) (simp add: bitmap_exact_def page_bit_def)
qed




text \<open>Examples: one block in the cache, at address 0x100 or across the end of the page.\<close>

definition ex_smc :: smc_env where
  "ex_smc = \<lparr>is_self = True, icount_on = False, can_io = True, phys_of = ex_phys, gen_of = ex_gen,
     want_fl = (False, False), restored = (\<lambda>_ _. (0x100, 0, 0))\<rparr>"

lemma ex_smc_ok:
  assumes "room_ok st 16" "ram_wf (ram st) = ram_wf (ram ex_st)" "set (blocks (ram st)) = set (blocks (ram ex_st))"
  shows "smc_env_ok ex_smc st 16"
  using assms ex_gen_ok ex_phys_ok [OF assms(2,3)] by (simp add: smc_env_ok_def ex_smc_def)

lemma ex_one_block:
  obtains st A where "tb_inv st A" "live A = {0}" "smc_env_ok ex_smc st 16" "env_ok (Some 0) st A"
    "page_addr (tbs st 0) 0 \<noteq> page_addr (tbs st 0) 1" "code_bytes (tbs st 0) = {0x100 ..< 0x104}" "apage A 0 \<noteq> []"
proof -
  obtain st page2 where g: "tb_inv st (abs_link 0 (ex_phys 0x100) page2 no_lists)" "tb_matches ex_phys (tbs st 0) 0x100 0 0"
    "page_addr (tbs st 0) 1 = page2" "tbsize (tbs st 0) = 4" "room_ok st 16" "length (cpus st) = 1"
    "ram_wf (ram st) = ram_wf (ram ex_st)" "set (blocks (ram st)) = set (blocks (ram ex_st))" by (rule ex_block) (rule that)
  let ?A = "abs_link 0 (ex_phys 0x100) page2 no_lists" and ?st = "upd_cpu 0 (\<lambda>e. e\<lparr>current_tb := None\<rparr>) st"
  have inv: "tb_inv ?st ?A" by (rule tb_inv_upd_cpu [OF g(1)]) simp
  have L: "live ?A = {0}" by (simp add: live_abs_link)
  have "tb_block_ok (tbs st 0)" using g(1) L by (simp add: tb_inv_def)
  moreover have a: "page_addr (tbs st 0) 0 = 0" "pc (tbs st 0) = 0x100" using g(2) by (simp_all add: tb_matches_def ex_phys_def)
  ultimately have p: "page_addr (tbs st 0) 1 = NO_PAGE" using g(4) by (simp add: tb_block_ok_def)
  have "code_bytes (tbs st 0) = (\<lambda>j. 0x100 + j) ` {..<4}"
    using a g(4) unfolding code_bytes_def by (intro image_cong) (simp_all add: code_byte_def)
  also have "\<dots> = {0x100 ..< 0x104}" by (auto simp: image_def) (metis add_diff_inverse_nat add_less_cancel_left leD numeral_plus_numeral lessThan_iff add_num_simps)
  finally have cb: "code_bytes (tbs st 0) = {0x100 ..< 0x104}" .
  have E: "smc_env_ok ex_smc ?st 16" by (rule smc_env_frame [OF ex_smc_ok [OF g(5,7,8)]]) (simp_all add: upd_cpu_def)
  have "apage ?A 0 \<noteq> []" by (simp add: abs_link_def Let_def ex_phys_def)
  moreover have "env_ok (Some 0) ?st ?A" using g(6) by (simp add: env_ok_def cur_ok_def)
  ultimately show ?thesis using inv L E p a cb by (intro that [of ?st ?A]) simp_all
qed

theorem build_page_bitmap_correct_witness:
  "\<exists>st A d tab. tb_inv st A \<and> pd_get (l1_map st) (page_ptr 0) = Some d \<and>
     build_page_bitmap (list_fuel st) (tbs st) d = Inr (d\<lparr>code_bitmap := Some tab\<rparr>) \<and>
     bit (tab ! 32) 0 \<and> bit (tab ! 32) 3 \<and> \<not> bit (tab ! 32) 4 \<and> \<not> bit (tab ! 31) 7"
proof -
  obtain st A where w: "tb_inv st A" "live A = {0}" "code_bytes (tbs st 0) = {0x100 ..< 0x104}" "apage A 0 \<noteq> []"
    by (rule ex_one_block) (rule that)
  have "page_first st 0 \<noteq> None" using tb_inv_chain(1) [OF w(1), of 0] w(4) by (cases "apage A 0") auto
  then obtain d where d: "pd_get (l1_map st) (page_ptr 0) = Some d" by (auto simp: page_first_def split: option.splits)
  from build_page_bitmap_correct [OF w(1) _ d] obtain tab where
    t: "build_page_bitmap (list_fuel st) (tbs st) d = Inr (d\<lparr>code_bitmap := Some tab\<rparr>)"
      "\<forall>i < 4096. bit (tab ! (i div 8)) (i mod 8) \<longleftrightarrow> i \<in> {0x100 ..< 0x104}" using w(2,3) by auto
  have "bit (tab ! 32) 0" "bit (tab ! 32) 3" "\<not> bit (tab ! 32) 4" "\<not> bit (tab ! 31) 7"
    using t(2) [rule_format, of 256] t(2) [rule_format, of 259] t(2) [rule_format, of 260] t(2) [rule_format, of 255] by simp_all
  with w(1) d t(1) show ?thesis by blast
qed




end
