(* ===== verification/Float_Macros.thy ===== *)
theory Float_Macros
  imports HQ_Prelude
begin

text \<open>
  The multi-word integer primitives of the software floating point unit (fpu/softfloat-macros.h):
  shifts that keep track of the bits shifted off, addition, subtraction and multiplication of
  128-bit, 192-bit and 256-bit values held in 64-bit pieces, the estimated quotient, the count of
  leading zeros and the comparisons. A function with result pointers returns the tuple of the
  results. A shift count is a natural number: the callers pass the difference of two exponents
  that they have ordered.
\<close>

section \<open>Model\<close>

text \<open>\<open>(- count) AND 31\<close> and \<open>(- count) AND 63\<close>.\<close>

definition neg_count :: "nat \<Rightarrow> nat \<Rightarrow> nat" where
  "neg_count w count = (w - count mod w) mod w"

definition shift32RightJamming :: "u32 \<Rightarrow> nat \<Rightarrow> u32" where
  "shift32RightJamming a count =
     (if count = 0 then a
      else if count < 32 then drop_bit count a OR of_bool (push_bit (neg_count 32 count) a \<noteq> 0)
      else of_bool (a \<noteq> 0))"

definition shift64RightJamming :: "u64 \<Rightarrow> nat \<Rightarrow> u64" where
  "shift64RightJamming a count =
     (if count = 0 then a
      else if count < 64 then drop_bit count a OR of_bool (push_bit (neg_count 64 count) a \<noteq> 0)
      else of_bool (a \<noteq> 0))"

definition shift64ExtraRightJamming :: "u64 \<Rightarrow> u64 \<Rightarrow> nat \<Rightarrow> u64 \<times> u64" where
  "shift64ExtraRightJamming a0 a1 count =
     (let negCount = neg_count 64 count
      in if count = 0 then (a0, a1)
         else if count < 64 then (drop_bit count a0, push_bit negCount a0 OR of_bool (a1 \<noteq> 0))
         else if count = 64 then (0, a0 OR of_bool (a1 \<noteq> 0))
         else (0, of_bool (a0 OR a1 \<noteq> 0)))"

definition shift128Right :: "u64 \<Rightarrow> u64 \<Rightarrow> nat \<Rightarrow> u64 \<times> u64" where
  "shift128Right a0 a1 count =
     (let negCount = neg_count 64 count
      in if count = 0 then (a0, a1)
         else if count < 64 then (drop_bit count a0, push_bit negCount a0 OR drop_bit count a1)
         else (0, if count < 64 then drop_bit (count mod 64) a0 else 0))"

definition shift128RightJamming :: "u64 \<Rightarrow> u64 \<Rightarrow> nat \<Rightarrow> u64 \<times> u64" where
  "shift128RightJamming a0 a1 count =
     (let negCount = neg_count 64 count
      in if count = 0 then (a0, a1)
         else if count < 64 then
           (drop_bit count a0,
            push_bit negCount a0 OR drop_bit count a1 OR of_bool (push_bit negCount a1 \<noteq> 0))
         else if count = 64 then (0, a0 OR of_bool (a1 \<noteq> 0))
         else if count < 128 then
           (0, drop_bit (count mod 64) a0 OR of_bool (push_bit negCount a0 OR a1 \<noteq> 0))
         else (0, of_bool (a0 OR a1 \<noteq> 0)))"

definition shift128ExtraRightJamming :: "u64 \<Rightarrow> u64 \<Rightarrow> u64 \<Rightarrow> nat \<Rightarrow> u64 \<times> u64 \<times> u64" where
  "shift128ExtraRightJamming a0 a1 a2 count =
     (let negCount = neg_count 64 count
      in if count = 0 then (a0, a1, a2)
         else
           let (z0, z1, z2, a2) =
             (if count < 64 then
                (drop_bit count a0, push_bit negCount a0 OR drop_bit count a1, push_bit negCount a1, a2)
              else if count = 64 then (0, a0, a1, a2)
              else
                let a2 = a2 OR a1
                in if count < 128 then (0, drop_bit (count mod 64) a0, push_bit negCount a0, a2)
                   else (0, 0, if count = 128 then a0 else of_bool (a0 \<noteq> 0), a2))
           in (z0, z1, z2 OR of_bool (a2 \<noteq> 0)))"

definition shortShift128Left :: "u64 \<Rightarrow> u64 \<Rightarrow> nat \<Rightarrow> u64 \<times> u64" where
  "shortShift128Left a0 a1 count =
     (if count = 0 then a0 else push_bit count a0 OR drop_bit (neg_count 64 count) a1, push_bit count a1)"

definition shortShift192Left :: "u64 \<Rightarrow> u64 \<Rightarrow> u64 \<Rightarrow> nat \<Rightarrow> u64 \<times> u64 \<times> u64" where
  "shortShift192Left a0 a1 a2 count =
     (let z2 = push_bit count a2; z1 = push_bit count a1; z0 = push_bit count a0
      in if 0 < count then
           let negCount = neg_count 64 count
           in (z0 OR drop_bit negCount a1, z1 OR drop_bit negCount a2, z2)
         else (z0, z1, z2))"

definition add128 :: "u64 \<Rightarrow> u64 \<Rightarrow> u64 \<Rightarrow> u64 \<Rightarrow> u64 \<times> u64" where
  "add128 a0 a1 b0 b1 = (let z1 = a1 + b1 in (a0 + b0 + of_bool (z1 < a1), z1))"

definition add192 :: "u64 \<Rightarrow> u64 \<Rightarrow> u64 \<Rightarrow> u64 \<Rightarrow> u64 \<Rightarrow> u64 \<Rightarrow> u64 \<times> u64 \<times> u64" where
  "add192 a0 a1 a2 b0 b1 b2 =
     (let z2 = a2 + b2;
          carry1 = of_bool (z2 < a2) :: u64;
          z1 = a1 + b1;
          carry0 = of_bool (z1 < a1);
          z0 = a0 + b0;
          z1 = z1 + carry1;
          z0 = z0 + of_bool (z1 < carry1);
          z0 = z0 + carry0
      in (z0, z1, z2))"

definition sub128 :: "u64 \<Rightarrow> u64 \<Rightarrow> u64 \<Rightarrow> u64 \<Rightarrow> u64 \<times> u64" where
  "sub128 a0 a1 b0 b1 = (a0 - b0 - of_bool (a1 < b1), a1 - b1)"

definition sub192 :: "u64 \<Rightarrow> u64 \<Rightarrow> u64 \<Rightarrow> u64 \<Rightarrow> u64 \<Rightarrow> u64 \<Rightarrow> u64 \<times> u64 \<times> u64" where
  "sub192 a0 a1 a2 b0 b1 b2 =
     (let z2 = a2 - b2;
          borrow1 = of_bool (a2 < b2) :: u64;
          z1 = a1 - b1;
          borrow0 = of_bool (a1 < b1);
          z0 = a0 - b0;
          z0 = z0 - of_bool (z1 < borrow1);
          z1 = z1 - borrow1;
          z0 = z0 - borrow0
      in (z0, z1, z2))"

definition mul64To128 :: "u64 \<Rightarrow> u64 \<Rightarrow> u64 \<times> u64" where
  "mul64To128 a b =
     (let aLow = ucast a :: u32;
          aHigh = ucast (drop_bit 32 a) :: u32;
          bLow = ucast b :: u32;
          bHigh = ucast (drop_bit 32 b) :: u32;
          z1 = ucast aLow * ucast bLow;
          zMiddleA = ucast aLow * ucast bHigh;
          zMiddleB = ucast aHigh * ucast bLow;
          z0 = ucast aHigh * ucast bHigh;
          zMiddleA = zMiddleA + zMiddleB;
          z0 = z0 + (push_bit 32 (of_bool (zMiddleA < zMiddleB)) + drop_bit 32 zMiddleA);
          zMiddleA = push_bit 32 zMiddleA;
          z1 = z1 + zMiddleA;
          z0 = z0 + of_bool (z1 < zMiddleA)
      in (z0, z1))"

definition mul128By64To192 :: "u64 \<Rightarrow> u64 \<Rightarrow> u64 \<Rightarrow> u64 \<times> u64 \<times> u64" where
  "mul128By64To192 a0 a1 b =
     (let (z1, z2) = mul64To128 a1 b;
          (z0, more1) = mul64To128 a0 b;
          (z0, z1) = add128 z0 more1 0 z1
      in (z0, z1, z2))"

definition mul128To256 :: "u64 \<Rightarrow> u64 \<Rightarrow> u64 \<Rightarrow> u64 \<Rightarrow> u64 \<times> u64 \<times> u64 \<times> u64" where
  "mul128To256 a0 a1 b0 b1 =
     (let (z2, z3) = mul64To128 a1 b1;
          (z1, more2) = mul64To128 a1 b0;
          (z1, z2) = add128 z1 more2 0 z2;
          (z0, more1) = mul64To128 a0 b0;
          (z0, z1) = add128 z0 more1 0 z1;
          (more1, more2) = mul64To128 a0 b1;
          (more1, z2) = add128 more1 more2 0 z2;
          (z0, z1) = add128 z0 z1 0 more1
      in (z0, z1, z2, z3))"

text \<open>The loop of estimateDiv128To64; the first argument bounds its rounds.\<close>

fun div_correct :: "nat \<Rightarrow> u64 \<Rightarrow> u64 \<Rightarrow> u64 \<Rightarrow> u64 \<Rightarrow> u64 \<Rightarrow> (u64 \<times> u64 \<times> u64) result" where
  "div_correct 0 b b0 z rem0 rem1 = Inl NoFuel"
| "div_correct (Suc f) b b0 z rem0 rem1 =
     (if sint rem0 < 0 then
        let z = z - 0x100000000;
            b1 = push_bit 32 b;
            (rem0, rem1) = add128 rem0 rem1 b0 b1
        in div_correct f b b0 z rem0 rem1
      else Inr (z, rem0, rem1))"

definition estimateDiv128To64 :: "u64 \<Rightarrow> u64 \<Rightarrow> u64 \<Rightarrow> u64 result" where
  "estimateDiv128To64 a0 a1 b =
     (if b \<le> a0 then Inr 0xFFFFFFFFFFFFFFFF
      else
        let b0 = drop_bit 32 b;
            z = (if push_bit 32 b0 \<le> a0 then 0xFFFFFFFF00000000 else push_bit 32 (a0 div b0));
            (term0, term1) = mul64To128 b z;
            (rem0, rem1) = sub128 a0 a1 term0 term1
        in andthen (div_correct 4 b b0 z rem0 rem1) (\<lambda>(z, rem0, rem1).
           let rem0 = push_bit 32 rem0 OR drop_bit 32 rem1
           in Inr (z OR (if push_bit 32 b0 \<le> rem0 then 0xFFFFFFFF else rem0 div b0))))"

definition countLeadingZerosHigh :: "nat list" where
  "countLeadingZerosHigh =
     [8, 7] @ replicate 2 6 @ replicate 4 5 @ replicate 8 4 @ replicate 16 3 @ replicate 32 2 @
     replicate 64 1 @ replicate 128 0"

definition countLeadingZeros32 :: "u32 \<Rightarrow> nat" where
  "countLeadingZeros32 a =
     (let shiftCount = 0;
          (shiftCount, a) = (if a < 0x10000 then (shiftCount + 16, push_bit 16 a) else (shiftCount, a));
          (shiftCount, a) = (if a < 0x1000000 then (shiftCount + 8, push_bit 8 a) else (shiftCount, a))
      in shiftCount + countLeadingZerosHigh ! unat (drop_bit 24 a))"

definition countLeadingZeros64 :: "u64 \<Rightarrow> nat" where
  "countLeadingZeros64 a =
     (let (shiftCount, a) = (if a < push_bit 32 1 then (32, a) else (0, drop_bit 32 a))
      in shiftCount + countLeadingZeros32 (ucast a))"

definition eq128 :: "u64 \<Rightarrow> u64 \<Rightarrow> u64 \<Rightarrow> u64 \<Rightarrow> bool" where
  "eq128 a0 a1 b0 b1 \<longleftrightarrow> a0 = b0 \<and> a1 = b1"

definition le128 :: "u64 \<Rightarrow> u64 \<Rightarrow> u64 \<Rightarrow> u64 \<Rightarrow> bool" where
  "le128 a0 a1 b0 b1 \<longleftrightarrow> a0 < b0 \<or> a0 = b0 \<and> a1 \<le> b1"

definition lt128 :: "u64 \<Rightarrow> u64 \<Rightarrow> u64 \<Rightarrow> u64 \<Rightarrow> bool" where
  "lt128 a0 a1 b0 b1 \<longleftrightarrow> a0 < b0 \<or> a0 = b0 \<and> a1 < b1"

definition ne128 :: "u64 \<Rightarrow> u64 \<Rightarrow> u64 \<Rightarrow> u64 \<Rightarrow> bool" where
  "ne128 a0 a1 b0 b1 \<longleftrightarrow> a0 \<noteq> b0 \<or> a1 \<noteq> b1"

section \<open>Arithmetic of the primitives\<close>

lemma neg_count_lt: "0 < c \<Longrightarrow> c < w \<Longrightarrow> neg_count w c = w - c"
  by (simp add: neg_count_def)

lemma neg_count_hi: "w < c \<Longrightarrow> c < 2 * w \<Longrightarrow> neg_count w c = 2 * w - c"
  by (auto simp: neg_count_def le_mod_geq)

lemma unat_push_bit_eq:
  "unat (push_bit n (a :: 'a::len word)) = unat a * 2 ^ n mod 2 ^ LENGTH('a)"
  by (simp only: unsigned_push_bit_eq) (simp add: push_bit_eq_mult take_bit_eq_mod)

lemma push_bit_low:
  assumes "c \<le> LENGTH('a)"
  shows "unat (push_bit (LENGTH('a) - c) (a :: 'a::len word)) = unat a mod 2 ^ c * 2 ^ (LENGTH('a) - c)"
proof -
  have "(2::nat) ^ LENGTH('a) = 2 ^ c * 2 ^ (LENGTH('a) - c)"
    using assms by (simp flip: power_add)
  then show ?thesis by (simp add: unat_push_bit_eq mult_mod_left)
qed

lemma push_bit_low_eq_0:
  assumes "c \<le> LENGTH('a)"
  shows "push_bit (LENGTH('a) - c) (a :: 'a::len word) = 0 \<longleftrightarrow> unat a mod 2 ^ c = 0"
  using push_bit_low [OF assms, of a] by (metis mult_eq_0_iff power_not_zero unat_eq_0 zero_neq_numeral)

lemma or_shifted: "y < 2 ^ k \<Longrightarrow> (x * 2 ^ k) OR y = x * 2 ^ k + (y :: nat)"
proof -
  assume "y < 2 ^ k"
  then have y: "take_bit k y = y" by (simp add: take_bit_nat_eq_self)
  have "push_bit k x AND take_bit k y = 0"
    by (rule bit_eqI) (auto simp: bit_simps)
  then have "push_bit k x + take_bit k y = push_bit k x OR take_bit k y"
    by (rule disjunctive_add_eq_or)
  then show ?thesis by (simp add: y push_bit_eq_mult)
qed

lemma unat_or_drop:
  assumes "c \<le> LENGTH('a)"
  shows "unat (push_bit (LENGTH('a) - c) (a :: 'a::len word) OR drop_bit c b)
    = unat a mod 2 ^ c * 2 ^ (LENGTH('a) - c) + unat b div 2 ^ c"
proof -
  have "unat b < 2 ^ (LENGTH('a) - c) * 2 ^ c"
    using assms unsigned_less [of b] by (simp flip: power_add)
  then have "unat b div 2 ^ c < 2 ^ (LENGTH('a) - c)" by (rule less_mult_imp_div_less)
  then show ?thesis
    by (simp only: unsigned_or_eq push_bit_low [OF assms] unat_drop_bit or_shifted)
qed

lemma unat_or_of_bool: "unat (a OR of_bool b) = (if b then unat a OR 1 else unat (a :: 'a::len word))"
  by (simp add: unsigned_or_eq)

lemma unat_or_1: "unat (a OR 1) = unat (a :: 'a::len word) OR Suc 0"
  by (simp add: unsigned_or_eq)

text \<open>The values the pieces stand for.\<close>

definition val128 :: "u64 \<times> u64 \<Rightarrow> nat" where
  "val128 z = unat (fst z) * 2 ^ 64 + unat (snd z)"

definition val192 :: "u64 \<times> u64 \<times> u64 \<Rightarrow> nat" where
  "val192 z = unat (fst z) * 2 ^ 128 + val128 (snd z)"

definition val256 :: "u64 \<times> u64 \<times> u64 \<times> u64 \<Rightarrow> nat" where
  "val256 z = unat (fst z) * 2 ^ 192 + val192 (snd z)"

lemma unat64_lt: "unat (a :: u64) < 2 ^ 64"
  using unsigned_less [of a] by simp

lemma unat32_lt: "unat (a :: u32) < 2 ^ 32"
  using unsigned_less [of a] by simp

lemma val128_lt: "val128 z < 2 ^ 128"
  using unat64_lt [of "fst z"] unat64_lt [of "snd z"] by (simp add: val128_def)

lemma join_div_lo:
  assumes "c \<le> n"
  shows "(x * 2 ^ n + y) div 2 ^ c = x div 2 ^ c * 2 ^ n + (x mod 2 ^ c * 2 ^ (n - c) + y div (2::nat) ^ c)"
proof -
  have n: "(2::nat) ^ n = 2 ^ (n - c) * 2 ^ c" using assms by (simp flip: power_add)
  have "(x * 2 ^ n + y) div 2 ^ c = (x * 2 ^ (n - c) * 2 ^ c + y) div 2 ^ c" by (simp add: n mult.assoc)
  also have "\<dots> = x * 2 ^ (n - c) + y div 2 ^ c" by simp
  also have "x * 2 ^ (n - c) = (x div 2 ^ c * 2 ^ c + x mod 2 ^ c) * 2 ^ (n - c)" by (simp only: div_mult_mod_eq)
  also have "\<dots> = x div 2 ^ c * 2 ^ n + x mod 2 ^ c * 2 ^ (n - c)" by (simp only: n distrib_left distrib_right ac_simps)
  finally show ?thesis by simp
qed

lemma join_mod_lo:
  assumes "c \<le> n"
  shows "(x * 2 ^ n + y) mod 2 ^ c = y mod (2::nat) ^ c"
proof -
  have n: "(2::nat) ^ n = 2 ^ (n - c) * 2 ^ c" using assms by (simp flip: power_add)
  have "(x * 2 ^ n + y) mod 2 ^ c = (y + x * 2 ^ (n - c) * 2 ^ c) mod 2 ^ c"
    by (simp only: n) (simp add: algebra_simps)
  then show ?thesis by (simp only: mod_mult_self1)
qed

lemma join_div_hi:
  assumes "n \<le> c" "y < 2 ^ n"
  shows "(x * 2 ^ n + y) div 2 ^ c = x div (2::nat) ^ (c - n)"
proof -
  have "(2::nat) ^ c = 2 ^ n * 2 ^ (c - n)" using assms by (simp flip: power_add)
  then show ?thesis using assms by (simp add: div_mult2_eq)
qed

lemma join_mod_hi:
  assumes "n \<le> c" "y < 2 ^ n"
  shows "(x * 2 ^ n + y) mod 2 ^ c = x mod (2::nat) ^ (c - n) * 2 ^ n + y"
proof -
  have "(2::nat) ^ c = 2 ^ n * 2 ^ (c - n)" using assms by (simp flip: power_add)
  then show ?thesis using assms by (simp add: mod_mult2_eq)
qed

lemma pow_mono: "x < 2 ^ n \<Longrightarrow> n \<le> c \<Longrightarrow> x < (2::nat) ^ c"
  by (meson less_le_trans one_le_numeral power_increasing)

section \<open>Shifts\<close>

text \<open>Shifting right by c with the bits shifted off collected in the lowest bit.\<close>

definition jam :: "nat \<Rightarrow> nat \<Rightarrow> nat" where
  "jam x c = (if x mod 2 ^ c = 0 then x div 2 ^ c else x div 2 ^ c OR 1)"

lemma jam_big: "x < 2 ^ c \<Longrightarrow> jam x c = of_bool (x \<noteq> 0)"
  by (simp add: jam_def)

lemma jam_0: "jam x 0 = x"
  by (simp add: jam_def)

lemma shift32RightJamming_jam: "unat (shift32RightJamming a c) = jam (unat a) c"
proof -
  consider "c = 0" | "0 < c" "c < 32" | "32 \<le> c" by linarith
  then show ?thesis
  proof cases
    case 1
    then show ?thesis by (simp add: shift32RightJamming_def jam_0)
  next
    case 2
    then show ?thesis
      using push_bit_low_eq_0 [of c a]
      by (simp add: shift32RightJamming_def neg_count_lt unat_or_of_bool unat_drop_bit jam_def)
  next
    case 3
    then show ?thesis using pow_mono [OF unat32_lt 3, of a]
      by (simp add: jam_big shift32RightJamming_def unat_eq_0)
  qed
qed

lemma shift64RightJamming_jam: "unat (shift64RightJamming a c) = jam (unat a) c"
proof -
  consider "c = 0" | "0 < c" "c < 64" | "64 \<le> c" by linarith
  then show ?thesis
  proof cases
    case 1
    then show ?thesis by (simp add: shift64RightJamming_def jam_0)
  next
    case 2
    then show ?thesis
      using push_bit_low_eq_0 [of c a]
      by (simp add: shift64RightJamming_def neg_count_lt unat_or_of_bool unat_drop_bit jam_def)
  next
    case 3
    then show ?thesis using pow_mono [OF unat64_lt 3, of a]
      by (simp add: jam_big shift64RightJamming_def unat_eq_0)
  qed
qed

lemma val128_0: "val128 (0, a) = unat a"
  by (simp add: val128_def)

lemma val128_div: "64 \<le> c \<Longrightarrow> val128 (a0, a1) div 2 ^ c = unat a0 div 2 ^ (c - 64)"
  using join_div_hi [of 64 c "unat a1" "unat a0", OF _ unat64_lt] by (simp add: val128_def)

lemma val128_mod: "64 \<le> c \<Longrightarrow> val128 (a0, a1) mod 2 ^ c = unat a0 mod 2 ^ (c - 64) * 2 ^ 64 + unat a1"
  using join_mod_hi [of 64 c "unat a1" "unat a0", OF _ unat64_lt] by (simp add: val128_def)

lemma or_Suc_0_high: "x * 2 ^ 64 + (w OR Suc 0) = (x * 2 ^ 64 + w) OR Suc 0"
  by (simp add: or_Suc_0_eq)

lemma shift128RightJamming_jam: "val128 (shift128RightJamming a0 a1 c) = jam (val128 (a0, a1)) c"
proof -
  consider "c = 0" | "0 < c" "c < 64" | "c = 64" | "64 < c" "c < 128" | "128 \<le> c" by linarith
  then show ?thesis
  proof cases
    case 1
    then show ?thesis by (simp add: shift128RightJamming_def jam_0)
  next
    case 2
    then show ?thesis
      using push_bit_low_eq_0 [of c a1] unat_or_drop [of c a0 a1]
      by (simp add: shift128RightJamming_def neg_count_lt val128_def unat_or_of_bool unat_or_1 unat_drop_bit jam_def
          join_div_lo [of c 64, simplified] join_mod_lo [of c 64, simplified]
          or_Suc_0_high [simplified] or.assoc [symmetric])
  next
    case 3
    then show ?thesis using unat64_lt [of a1]
      by (simp add: shift128RightJamming_def val128_def jam_def unat_or_of_bool unat_or_1 unat_eq_0)
  next
    case 4
    have "c mod 64 = c - 64" using 4 by (simp add: mod_if)
    moreover have "push_bit (128 - c) a0 OR a1 = 0 \<longleftrightarrow> val128 (a0, a1) mod 2 ^ c = 0"
      using 4 push_bit_low_eq_0 [of "c - 64" a0]
      by (simp add: val128_mod or_eq_0_iff unat_eq_0)
    ultimately show ?thesis using 4
      by (simp add: shift128RightJamming_def neg_count_hi val128_0 unat_or_of_bool unat_drop_bit jam_def
          val128_div)
  next
    case 5
    then show ?thesis using pow_mono [OF val128_lt [of "(a0, a1)"] 5]
      by (auto simp: shift128RightJamming_def val128_def jam_big or_eq_0_iff unat_eq_0)
  qed
qed

text \<open>
  A fixed-point value x is shifted right by 64 + c: q is the integer part, and the extra piece e
  has the last bit shifted off as its top bit and other bits that are zero exactly when all the
  earlier bits shifted off were zero.
\<close>

definition extra_of :: "nat \<Rightarrow> nat \<Rightarrow> nat \<Rightarrow> u64 \<Rightarrow> bool" where
  "extra_of x c q e \<longleftrightarrow> q = x div 2 ^ (64 + c) \<and> unat e div 2 ^ 63 = x div 2 ^ (63 + c) mod 2 \<and>
     (unat e mod 2 ^ 63 = 0 \<longleftrightarrow> x mod 2 ^ (63 + c) = 0)"

lemma or_of_bool_div: "0 < k \<Longrightarrow> unat (w OR of_bool b) div 2 ^ k = unat (w :: u64) div 2 ^ k"
proof -
  assume "0 < k"
  then obtain j where k: "k = Suc j" by (cases k) auto
  have "(unat w OR Suc 0) div 2 = unat w div 2" by (simp add: or_Suc_0_eq)
  then show ?thesis by (simp add: unat_or_of_bool k div_mult2_eq)
qed

lemma or_of_bool_mod:
  assumes "0 < k"
  shows "unat (w OR of_bool b) mod 2 ^ k = 0 \<longleftrightarrow> unat (w :: u64) mod 2 ^ k = 0 \<and> \<not> b"
proof -
  have "odd (unat w OR Suc 0)" by (simp add: or_Suc_0_eq)
  then have "(unat w OR Suc 0) mod 2 ^ k \<noteq> 0"
    using assms by (metis dvd_eq_mod_eq_0 dvd_power dvd_trans)
  then show ?thesis by (simp add: unat_or_of_bool)
qed

lemma push_bit_top:
  assumes "0 < c" "c \<le> 64"
  shows "unat (push_bit (64 - c) (a :: u64)) div 2 ^ 63 = unat a div 2 ^ (c - 1) mod 2"
    and "unat (push_bit (64 - c) a) mod 2 ^ 63 = 0 \<longleftrightarrow> unat a mod 2 ^ (c - 1) = 0"
proof -
  have p: "unat (push_bit (64 - c) a) = unat a mod 2 ^ c * 2 ^ (64 - c)"
    using push_bit_low [of c a] assms by simp
  have 63: "(2::nat) ^ 63 = 2 ^ (c - 1) * 2 ^ (64 - c)" using assms by (simp flip: power_add)
  obtain d where c: "c = Suc d" using assms by (cases c) auto
  have "unat a mod 2 ^ c div 2 ^ d = unat a div 2 ^ d mod 2"
    using mod_mult2_eq [of "unat a" "2 ^ d" 2] by (simp add: c mult.commute)
  then show "unat (push_bit (64 - c) a) div 2 ^ 63 = unat a div 2 ^ (c - 1) mod 2"
    unfolding p 63 by (simp add: c)
  have "unat a mod 2 ^ c mod 2 ^ (c - 1) = unat a mod 2 ^ (c - 1)"
    by (simp add: mod_mod_cancel le_imp_power_dvd)
  then show "unat (push_bit (64 - c) a) mod 2 ^ 63 = 0 \<longleftrightarrow> unat a mod 2 ^ (c - 1) = 0"
    unfolding p 63 by (simp add: mod_mult_mult2)
qed

lemma join_top_bit:
  assumes "y < 2 ^ 64"
  shows "y div 2 ^ 63 = (x * 2 ^ 64 + y) div 2 ^ 63 mod (2::nat)"
proof -
  have "(x * 2 ^ 64 + y) div 2 ^ 63 = (y + x * 2 * 2 ^ 63) div 2 ^ 63" by simp
  also have "\<dots> = x * 2 + y div 2 ^ 63" by (rule div_mult_self1) simp
  finally show ?thesis using assms by simp
qed

lemma div_mod_2_low:
  assumes "d < n"
  shows "(h * 2 ^ n + w) div 2 ^ d mod 2 = w div 2 ^ d mod (2::nat)"
proof -
  have n: "(2::nat) ^ n = 2 ^ d * (2 * 2 ^ (n - d - 1))"
    using assms by (simp flip: power_add power_Suc)
  have "(h * 2 ^ n + w) div 2 ^ d = (w + (2 * (2 ^ (n - d - 1) * h)) * 2 ^ d) div 2 ^ d"
    by (simp only: n ac_simps)
  also have "\<dots> = 2 * (2 ^ (n - d - 1) * h) + w div 2 ^ d" by (rule div_mult_self1) simp
  finally show ?thesis by simp
qed

lemma extra_of_push:
  assumes x: "x = (h * 2 ^ 64 + unat w) * 2 ^ m + y" and y: "y < 2 ^ m" and b: "b \<longleftrightarrow> y \<noteq> 0"
    and d: "0 < d" "d \<le> 64" and c: "64 + c = m + d" and q: "q = x div 2 ^ (64 + c)"
  shows "extra_of x c q (push_bit (64 - d) w OR of_bool b)"
proof -
  have c': "63 + c = m + (d - 1)" using c d by simp
  have "unat (push_bit (64 - d) w OR of_bool b) div 2 ^ 63 = unat w div 2 ^ (d - 1) mod 2"
    by (simp only: or_of_bool_div zero_less_numeral push_bit_top(1) [OF d])
  also have "\<dots> = (h * 2 ^ 64 + unat w) div 2 ^ (d - 1) mod 2"
    by (rule div_mod_2_low [symmetric]) (use d in simp)
  also have "(h * 2 ^ 64 + unat w) div 2 ^ (d - 1) = x div 2 ^ (63 + c)"
    unfolding x c' by (subst join_div_hi [OF _ y]) simp_all
  finally have t: "unat (push_bit (64 - d) w OR of_bool b) div 2 ^ 63 = x div 2 ^ (63 + c) mod 2" .
  have "x mod 2 ^ (63 + c) = (h * 2 ^ 64 + unat w) mod 2 ^ (d - 1) * 2 ^ m + y"
    unfolding x c' by (subst join_mod_hi [OF _ y]) simp_all
  also have "(h * 2 ^ 64 + unat w) mod 2 ^ (d - 1) = unat w mod 2 ^ (d - 1)"
    by (rule join_mod_lo) (use d in simp)
  finally have m: "x mod 2 ^ (63 + c) = unat w mod 2 ^ (d - 1) * 2 ^ m + y" .
  have "unat (push_bit (64 - d) w OR of_bool b) mod 2 ^ 63 = 0 \<longleftrightarrow> x mod 2 ^ (63 + c) = 0"
    by (simp only: or_of_bool_mod zero_less_numeral push_bit_top(2) [OF d] m b) simp
  with q t show ?thesis unfolding extra_of_def by blast
qed

lemma extra_of_none:
  assumes "x < 2 ^ (63 + c)" "q = 0" "b \<longleftrightarrow> x \<noteq> 0"
  shows "extra_of x c q (of_bool b)"
proof -
  have "x < 2 ^ (64 + c)" using assms(1) by (rule pow_mono) simp
  moreover have "unat (of_bool b :: u64) div 2 ^ 63 = 0" by simp
  moreover have "unat (of_bool b :: u64) mod 2 ^ 63 = 0 \<longleftrightarrow> \<not> b" by simp
  ultimately show ?thesis using assms unfolding extra_of_def by (simp only: div_less mod_less) simp
qed

lemma extra_of_0:
  assumes "x = h * 2 ^ 64 + unat e" "q = h"
  shows "extra_of x 0 q e"
proof -
  have "unat e div 2 ^ 63 = x div 2 ^ 63 mod 2"
    unfolding assms(1) by (rule join_top_bit) (rule unat64_lt)
  moreover have "x mod 2 ^ 63 = unat e mod 2 ^ 63"
    unfolding assms(1) by (rule join_mod_lo) simp
  moreover have "x div 2 ^ 64 = q"
    unfolding assms using join_div_hi [of 64 64, OF _ unat64_lt, of h e] by simp
  ultimately show ?thesis unfolding extra_of_def add_0_right by (simp only:)
qed

lemma shift64ExtraRightJamming_extra:
  "extra_of (val128 (a0, a1)) c (unat (fst (shift64ExtraRightJamming a0 a1 c)))
     (snd (shift64ExtraRightJamming a0 a1 c))"
proof -
  consider "c = 0" | "0 < c" "c \<le> 64" | "64 < c" by linarith
  then show ?thesis
  proof cases
    case 1
    then show ?thesis
      by (auto simp: shift64ExtraRightJamming_def val128_def intro: extra_of_0)
  next
    case 2
    let ?q = "if c < 64 then drop_bit c a0 else 0"
    have s: "shift64ExtraRightJamming a0 a1 c = (?q, push_bit (64 - c) a0 OR of_bool (a1 \<noteq> 0))"
      using 2 by (auto simp: shift64ExtraRightJamming_def neg_count_lt)
    have q: "unat ?q = unat a0 div 2 ^ c"
      using 2 unat64_lt [of a0] by (auto simp: unat_drop_bit)
    show ?thesis unfolding s fst_conv snd_conv
    proof (rule extra_of_push [of _ 0 _ 64 "unat a1"])
      show "unat ?q = val128 (a0, a1) div 2 ^ (64 + c)"
        unfolding q by (subst val128_div) simp_all
    qed (use 2 unat64_lt [of a1] in \<open>simp_all add: val128_def unat_eq_0\<close>)
  next
    case 3
    then have s: "shift64ExtraRightJamming a0 a1 c = (0, of_bool (a0 OR a1 \<noteq> 0))"
      by (simp add: shift64ExtraRightJamming_def)
    have "val128 (a0, a1) < 2 ^ (63 + c)" using val128_lt by (rule pow_mono) (use 3 in simp)
    then show ?thesis unfolding s fst_conv snd_conv
      by (rule extra_of_none) (auto simp: or_eq_0_iff val128_def unat_eq_0)
  qed
qed

lemma val192_lt: "val192 z < 2 ^ 192"
  using unat64_lt [of "fst z"] val128_lt [of "snd z"] by (simp add: val192_def)

lemma val192_low: "val192 (a0, a1, a2) = (unat a0 * 2 ^ 64 + unat a1) * 2 ^ 64 + unat a2"
  by (simp add: val192_def val128_def)

lemma shift128ExtraRightJamming_extra:
  "extra_of (val192 (a0, a1, a2)) c
     (val128 (fst (shift128ExtraRightJamming a0 a1 a2 c), fst (snd (shift128ExtraRightJamming a0 a1 a2 c))))
     (snd (snd (shift128ExtraRightJamming a0 a1 a2 c)))"
proof -
  consider "c = 0" | "0 < c" "c < 64" | "c = 64" | "64 < c" "c \<le> 128" | "128 < c" by linarith
  then show ?thesis
  proof cases
    case 1
    then have s: "shift128ExtraRightJamming a0 a1 a2 c = (a0, a1, a2)"
      by (simp add: shift128ExtraRightJamming_def)
    show ?thesis unfolding s fst_conv snd_conv unfolding 1
      by (rule extra_of_0 [OF val192_low]) (simp only: val128_def fst_conv snd_conv)
  next
    case 2
    have s: "shift128ExtraRightJamming a0 a1 a2 c =
        (drop_bit c a0, push_bit (64 - c) a0 OR drop_bit c a1, push_bit (64 - c) a1 OR of_bool (a2 \<noteq> 0))"
      using 2 by (simp add: shift128ExtraRightJamming_def neg_count_lt Let_def)
    have "(unat a0 * 2 ^ 64 + unat a1) div 2 ^ c =
        unat a0 div 2 ^ c * 2 ^ 64 + unat (push_bit (64 - c) a0 OR drop_bit c a1)"
      using 2 unat_or_drop [of c a0 a1] join_div_lo [of c 64 "unat a0" "unat a1"] by simp
    moreover have "val192 (a0, a1, a2) div 2 ^ (64 + c) = (unat a0 * 2 ^ 64 + unat a1) div 2 ^ c"
      unfolding val192_low by (subst join_div_hi [OF _ unat64_lt]) simp_all
    ultimately have q: "val128 (drop_bit c a0, push_bit (64 - c) a0 OR drop_bit c a1)
        = val192 (a0, a1, a2) div 2 ^ (64 + c)"
      by (simp only: val128_def fst_conv snd_conv unat_drop_bit)
    show ?thesis unfolding s fst_conv snd_conv
      by (rule extra_of_push [of _ "unat a0" _ 64 "unat a2"])
        (use 2 q unat64_lt [of a2] in \<open>simp_all only: val192_low unat_eq_0 le_add_same_cancel1 less_imp_le add.commute\<close>)
  next
    case 3
    then have s: "shift128ExtraRightJamming a0 a1 a2 c = (0, a0, push_bit (64 - c) a1 OR of_bool (a2 \<noteq> 0))"
      by (simp add: shift128ExtraRightJamming_def)
    have "val192 (a0, a1, a2) div 2 ^ (64 + c) = (unat a0 * 2 ^ 64 + unat a1) div 2 ^ c"
      unfolding val192_low by (subst join_div_hi [OF _ unat64_lt]) simp_all
    also have "\<dots> = unat a0" using 3 join_div_hi [of 64 64 "unat a1" "unat a0", OF _ unat64_lt] by simp
    finally have q: "val128 (0, a0) = val192 (a0, a1, a2) div 2 ^ (64 + c)" by (simp only: val128_0)
    show ?thesis unfolding s fst_conv snd_conv
      by (rule extra_of_push [of _ "unat a0" _ 64 "unat a2"])
        (use 3 q unat64_lt [of a2] in \<open>simp_all only: val192_low unat_eq_0 le_refl zero_less_numeral\<close>)
  next
    case 4
    let ?d = "c - 64" and ?z1 = "if c < 128 then drop_bit (c - 64) a0 else 0"
    have s: "shift128ExtraRightJamming a0 a1 a2 c = (0, ?z1, push_bit (64 - ?d) a0 OR of_bool (a2 OR a1 \<noteq> 0))"
      using 4 by (auto simp: shift128ExtraRightJamming_def neg_count_hi le_mod_geq Let_def)
    have "val192 (a0, a1, a2) div 2 ^ (64 + c) = unat a0 div 2 ^ ?d"
      using 4 unfolding val192_def fst_conv snd_conv
      by (subst join_div_hi [OF _ val128_lt]) (simp_all add: algebra_simps)
    also have "\<dots> = unat ?z1" using 4 unat64_lt [of a0] by (auto simp: unat_drop_bit)
    finally have q: "val128 (0, ?z1) = val192 (a0, a1, a2) div 2 ^ (64 + c)" by (simp only: val128_0)
    show ?thesis unfolding s fst_conv snd_conv
    proof (rule extra_of_push [OF _ val128_lt [of "(a1, a2)"], of _ 0])
      show "(a2 OR a1 \<noteq> 0) \<longleftrightarrow> val128 (a1, a2) \<noteq> 0"
        by (auto simp: or_eq_0_iff val128_def unat_eq_0)
    qed (use 4 q in \<open>simp_all add: val192_def\<close>)
  next
    case 5
    then have s: "shift128ExtraRightJamming a0 a1 a2 c = (0, 0, of_bool (val192 (a0, a1, a2) \<noteq> 0))"
      by (auto simp: shift128ExtraRightJamming_def or_eq_0_iff val192_low unat_eq_0)
    have "val192 (a0, a1, a2) < 2 ^ (63 + c)" using val192_lt by (rule pow_mono) (use 5 in simp)
    then show ?thesis unfolding s fst_conv snd_conv
      by (rule extra_of_none) (simp_all add: val128_0)
  qed
qed

text \<open>The right shift without jamming loses the upper piece from a count of 64 on.\<close>

lemma shift128Right_val:
  "val128 (shift128Right a0 a1 c) = (if c < 64 then val128 (a0, a1) div 2 ^ c else 0)"
proof -
  consider "c = 0" | "0 < c" "c < 64" | "64 \<le> c" by linarith
  then show ?thesis
  proof cases
    case 2
    then have "val128 (shift128Right a0 a1 c) =
        unat a0 div 2 ^ c * 2 ^ 64 + unat (push_bit (64 - c) a0 OR drop_bit c a1)"
      by (simp add: shift128Right_def neg_count_lt val128_def unat_drop_bit)
    also have "\<dots> = (unat a0 * 2 ^ 64 + unat a1) div 2 ^ c"
      using 2 unat_or_drop [of c a0 a1] join_div_lo [of c 64 "unat a0" "unat a1"] by simp
    finally show ?thesis using 2 by (simp add: val128_def)
  qed (simp_all add: shift128Right_def val128_0)
qed

lemma join_shift:
  assumes "c \<le> n"
  shows "(x * 2 ^ n + y) * 2 ^ c mod (2 ^ m * 2 ^ n)
    = (x * 2 ^ c + y div 2 ^ (n - c)) mod 2 ^ m * 2 ^ n + y * 2 ^ c mod (2::nat) ^ n"
proof -
  have n: "(2::nat) ^ n = 2 ^ (n - c) * 2 ^ c" using assms by (simp flip: power_add)
  have y: "y * 2 ^ c = y div 2 ^ (n - c) * 2 ^ n + y * 2 ^ c mod 2 ^ n"
    by (metis div_mult_mult2 div_mult_mod_eq n power_eq_0_iff zero_neq_numeral)
  have "(x * 2 ^ n + y) * 2 ^ c = (x * 2 ^ c + y div 2 ^ (n - c)) * 2 ^ n + y * 2 ^ c mod 2 ^ n"
    using y by (simp add: algebra_simps)
  moreover have "(a * 2 ^ n + y * 2 ^ c mod 2 ^ n) mod (2 ^ m * 2 ^ n)
      = a mod 2 ^ m * 2 ^ n + y * 2 ^ c mod 2 ^ n" for a
    using mod_mult2_eq [of "a * 2 ^ n + y * 2 ^ c mod 2 ^ n" "2 ^ n" "2 ^ m"]
    by (simp add: mult.commute)
  ultimately show ?thesis by simp
qed

lemma unat_push_or_drop:
  assumes "0 < c" "c < 64"
  shows "unat (push_bit c a OR drop_bit (64 - c) (b :: u64)) = (unat a * 2 ^ c + unat b div 2 ^ (64 - c)) mod 2 ^ 64"
proof -
  have l: "unat (push_bit c a OR drop_bit (64 - c) b) = unat a mod 2 ^ (64 - c) * 2 ^ c + unat b div 2 ^ (64 - c)"
    using unat_or_drop [of "64 - c" a b] assms by simp
  have p: "(2::nat) ^ 64 = 2 ^ (64 - c) * 2 ^ c" using assms by (simp flip: power_add)
  have "unat a * 2 ^ c = (unat a div 2 ^ (64 - c) * 2 ^ (64 - c) + unat a mod 2 ^ (64 - c)) * 2 ^ c"
    by (simp only: div_mult_mod_eq)
  also have "\<dots> = unat a div 2 ^ (64 - c) * 2 ^ 64 + unat a mod 2 ^ (64 - c) * 2 ^ c"
    unfolding p by (simp only: distrib_right mult.assoc)
  finally have "unat a * 2 ^ c + unat b div 2 ^ (64 - c)
      = unat (push_bit c a OR drop_bit (64 - c) b) + unat a div 2 ^ (64 - c) * 2 ^ 64"
    by (simp only: l ac_simps)
  then show ?thesis
    by (simp only: mod_mult_self1 mod_less [OF unat64_lt])
qed

lemma shortShift128Left_val:
  assumes "c < 64"
  shows "val128 (shortShift128Left a0 a1 c) = val128 (a0, a1) * 2 ^ c mod 2 ^ 128"
proof (cases "c = 0")
  case True
  then show ?thesis using val128_lt [of "(a0, a1)"] by (simp add: shortShift128Left_def)
next
  case False
  have "val128 (a0, a1) * 2 ^ c mod (2 ^ 64 * 2 ^ 64) =
      (unat a0 * 2 ^ c + unat a1 div 2 ^ (64 - c)) mod 2 ^ 64 * 2 ^ 64 + unat a1 * 2 ^ c mod 2 ^ 64"
    unfolding val128_def fst_conv snd_conv by (rule join_shift) (use assms in simp)
  also have "\<dots> = val128 (shortShift128Left a0 a1 c)"
    using False assms unat_push_bit_eq [of c a1] unat_push_or_drop [of c a0 a1]
    by (simp add: shortShift128Left_def val128_def neg_count_lt)
  finally show ?thesis by simp
qed

lemma shortShift192Left_low: "snd (shortShift192Left a0 a1 a2 c) = shortShift128Left a1 a2 c"
  by (simp add: shortShift192Left_def shortShift128Left_def Let_def)

lemma shortShift192Left_val:
  assumes "c < 64"
  shows "val192 (shortShift192Left a0 a1 a2 c) = val192 (a0, a1, a2) * 2 ^ c mod 2 ^ 192"
proof (cases "c = 0")
  case True
  then show ?thesis using val192_lt [of "(a0, a1, a2)"] by (simp add: shortShift192Left_def)
next
  case False
  have h: "unat (fst (shortShift192Left a0 a1 a2 c)) = (unat a0 * 2 ^ c + unat a1 div 2 ^ (64 - c)) mod 2 ^ 64"
    using False assms unat_push_or_drop [of c a0 a1] by (simp add: shortShift192Left_def neg_count_lt Let_def)
  have d: "val128 (a1, a2) div 2 ^ (128 - c) = unat a1 div 2 ^ (64 - c)"
    using val128_div [of "128 - c" a1 a2] assms by simp
  have "val192 (a0, a1, a2) * 2 ^ c mod (2 ^ 64 * 2 ^ 128) =
      (unat a0 * 2 ^ c + val128 (a1, a2) div 2 ^ (128 - c)) mod 2 ^ 64 * 2 ^ 128 + val128 (a1, a2) * 2 ^ c mod 2 ^ 128"
    unfolding val192_def fst_conv snd_conv by (rule join_shift) (use assms in simp)
  also have "\<dots> = val192 (shortShift192Left a0 a1 a2 c)"
    unfolding d val192_def h shortShift192Left_low shortShift128Left_val [OF assms] ..
  finally show ?thesis by simp
qed

section \<open>Addition, subtraction, multiplication\<close>

lemma add_carry: "unat a + unat b = of_bool (a + b < a) * 2 ^ 64 + unat (a + b :: u64)"
proof (cases "unat a + unat b < 2 ^ 64")
  case True
  then have "unat (a + b) = unat a + unat b" by (simp add: unat_word_ariths)
  then show ?thesis by (simp add: word_less_nat_alt)
next
  case False
  then have "unat (a + b) = unat a + unat b - 2 ^ 64"
    using unat64_lt [of a] unat64_lt [of b] by (simp add: unat_word_ariths le_mod_geq)
  then show ?thesis using False unat64_lt [of b] by (simp add: word_less_nat_alt)
qed

lemma sub_borrow: "unat a + of_bool (a < b) * 2 ^ 64 = unat (a - b :: u64) + unat b"
proof (cases "b \<le> a")
  case True
  then show ?thesis by (simp add: unat_sub word_le_nat_alt word_less_nat_alt)
next
  case False
  then have "unat (a - b) = unat a + 2 ^ 64 - unat b"
    using unat64_lt [of a] unat64_lt [of b] by (simp add: unat_sub_if_size word_size word_le_nat_alt)
  then show ?thesis using False unat64_lt [of b] by (simp add: word_le_nat_alt word_less_nat_alt)
qed

lemma add_carry_swap: "a + b < b \<longleftrightarrow> a + b < (a :: u64)"
proof -
  have "unat a + unat b = of_bool (a + b < b) * 2 ^ 64 + unat (a + b)"
    using add_carry [of b a] by (simp add: ac_simps)
  then show ?thesis using add_carry [of a b] by (cases "a + b < a"; cases "a + b < b") simp_all
qed

lemma unat_modE:
  assumes "unat (w :: u64) = n mod 2 ^ 64"
  obtains k where "n = k * 2 ^ 64 + unat w"
  using assms div_mult_mod_eq [of n "2 ^ 64"] by (intro that [of "n div 2 ^ 64"]) simp

lemma mod_valI: "n = v + k * m \<Longrightarrow> v < m \<Longrightarrow> v = n mod (m :: nat)"
  by simp

lemma add128_val: "val128 (add128 a0 a1 b0 b1) = (val128 (a0, a1) + val128 (b0, b1)) mod 2 ^ 128"
proof -
  have "unat (a0 + b0 + of_bool (a1 + b1 < a1)) = (unat a0 + unat b0 + of_bool (a1 + b1 < a1)) mod 2 ^ 64"
    by (simp add: unat_word_ariths mod_simps)
  then obtain k where "unat a0 + unat b0 + of_bool (a1 + b1 < a1)
      = k * 2 ^ 64 + unat (a0 + b0 + of_bool (a1 + b1 < a1))"
    by (rule unat_modE)
  then have "val128 (a0, a1) + val128 (b0, b1) = val128 (add128 a0 a1 b0 b1) + k * 2 ^ 128"
    using add_carry [of a1 b1] by (simp add: add128_def val128_def Let_def)
  then show ?thesis by (rule mod_valI) (rule val128_lt)
qed

lemma unat_of_bool: "unat (of_bool b :: u64) = of_bool b"
  by simp

lemma carry_sum192:
  fixes x0 :: nat
  assumes "x2 + y2 = c1 * 2 ^ 64 + z2" "x1 + y1 = c0 * 2 ^ 64 + w1" "w1 + c1 = c0' * 2 ^ 64 + z1"
    "x0 + y0 + c0' + c0 = k * 2 ^ 64 + z0"
  shows "(x0 * 2 ^ 64 + x1) * 2 ^ 64 + x2 + ((y0 * 2 ^ 64 + y1) * 2 ^ 64 + y2)
    = (z0 * 2 ^ 64 + z1) * 2 ^ 64 + z2 + k * 2 ^ 192"
  using assms by simp

lemma add192_val:
  "val192 (add192 a0 a1 a2 b0 b1 b2) = (val192 (a0, a1, a2) + val192 (b0, b1, b2)) mod 2 ^ 192"
proof -
  let ?c1 = "of_bool (a2 + b2 < a2) :: u64" and ?c0 = "of_bool (a1 + b1 < a1) :: u64"
  let ?o = "of_bool (a1 + b1 + ?c1 < ?c1) :: u64"
  have z: "add192 a0 a1 a2 b0 b1 b2 = (a0 + b0 + ?o + ?c0, a1 + b1 + ?c1, a2 + b2)"
    by (simp only: add192_def Let_def)
  have "unat (a0 + b0 + ?o + ?c0) = (unat a0 + unat b0 + unat ?o + unat ?c0) mod 2 ^ 64"
    by (simp only: unat_word_ariths mod_simps) simp
  then obtain k where k: "unat a0 + unat b0 + unat ?o + unat ?c0 = k * 2 ^ 64 + unat (a0 + b0 + ?o + ?c0)"
    by (rule unat_modE)
  have o: "unat (a1 + b1) + unat ?c1 = unat ?o * 2 ^ 64 + unat (a1 + b1 + ?c1)"
    using add_carry [of "a1 + b1" ?c1] by (simp only: add_carry_swap unat_of_bool)
  show ?thesis unfolding z val192_low
    by (rule mod_valI [OF carry_sum192 [OF _ _ o k]])
      (simp_all only: add_carry [of a2 b2] add_carry [of a1 b1] unat_of_bool val192_lt flip: val192_low)
qed

lemma borrow_sum192:
  fixes x0 :: nat
  assumes "x2 + c1 * 2 ^ 64 = z2 + y2" "x1 + c0 * 2 ^ 64 = w1 + y1" "w1 + c0' * 2 ^ 64 = z1 + c1"
    "z0 + c0' + c0 + y0 = k * 2 ^ 64 + x0"
  shows "(z0 * 2 ^ 64 + z1) * 2 ^ 64 + z2 + ((y0 * 2 ^ 64 + y1) * 2 ^ 64 + y2)
    = (x0 * 2 ^ 64 + x1) * 2 ^ 64 + x2 + k * 2 ^ 192"
  using assms by simp

text \<open>Subtraction is stated through addition: the result plus the subtrahend is the minuend.\<close>

lemma sub128_add: "(val128 (sub128 a0 a1 b0 b1) + val128 (b0, b1)) mod 2 ^ 128 = val128 (a0, a1)"
proof -
  let ?o = "of_bool (a1 < b1) :: u64"
  have "(unat (a0 - b0 - ?o) + unat ?o + unat b0) mod 2 ^ 64 = unat (a0 - b0 - ?o + ?o + b0)"
    by (simp only: unat_word_ariths mod_simps) simp
  also have "\<dots> = unat a0" by (simp only: diff_add_cancel)
  finally obtain k where "unat (a0 - b0 - ?o) + unat ?o + unat b0 = k * 2 ^ 64 + unat a0"
    by (rule unat_modE [OF sym])
  then have "val128 (sub128 a0 a1 b0 b1) + val128 (b0, b1) = val128 (a0, a1) + k * 2 ^ 128"
    using sub_borrow [of a1 b1] unfolding sub128_def val128_def fst_conv snd_conv unat_of_bool by simp
  then show ?thesis by (rule mod_valI [symmetric]) (rule val128_lt)
qed

lemma sub192_add:
  "(val192 (sub192 a0 a1 a2 b0 b1 b2) + val192 (b0, b1, b2)) mod 2 ^ 192 = val192 (a0, a1, a2)"
proof -
  let ?c1 = "of_bool (a2 < b2) :: u64" and ?c0 = "of_bool (a1 < b1) :: u64"
  let ?o = "of_bool (a1 - b1 < ?c1) :: u64"
  have z: "sub192 a0 a1 a2 b0 b1 b2 = (a0 - b0 - ?o - ?c0, a1 - b1 - ?c1, a2 - b2)"
    by (simp only: sub192_def Let_def)
  have "(unat (a0 - b0 - ?o - ?c0) + unat ?o + unat ?c0 + unat b0) mod 2 ^ 64
      = unat (a0 - b0 - ?o - ?c0 + ?o + ?c0 + b0)"
    by (simp only: unat_word_ariths mod_simps) simp
  also have "\<dots> = unat a0" by (simp only: algebra_simps diff_add_cancel) simp
  finally obtain k where k: "unat (a0 - b0 - ?o - ?c0) + unat ?o + unat ?c0 + unat b0 = k * 2 ^ 64 + unat a0"
    by (rule unat_modE [OF sym])
  have o: "unat (a1 - b1) + unat ?o * 2 ^ 64 = unat (a1 - b1 - ?c1) + unat ?c1"
    using sub_borrow [of "a1 - b1" ?c1] by (simp only: unat_of_bool)
  show ?thesis unfolding z val192_low
    by (rule mod_valI [OF borrow_sum192 [OF _ _ o k], symmetric])
      (simp_all only: sub_borrow [of a2 b2] sub_borrow [of a1 b1] unat_of_bool val192_lt flip: val192_low)
qed

lemma product_sum:
  fixes aH :: nat
  assumes "q + r = k * 2 ^ 64 + m" "m = mh * 2 ^ 32 + ml" "p + ml * 2 ^ 32 = k2 * 2 ^ 64 + z1"
    "p = aL * bL" "q = aL * bH" "r = aH * bL" "s = aH * bH"
  shows "(aH * 2 ^ 32 + aL) * (bH * 2 ^ 32 + bL) = (s + k * 2 ^ 32 + mh + k2) * 2 ^ 64 + z1"
proof -
  have "(aH * 2 ^ 32 + aL) * (bH * 2 ^ 32 + bL) = s * 2 ^ 64 + (q + r) * 2 ^ 32 + p"
    unfolding assms by (simp add: algebra_simps)
  also have "\<dots> = s * 2 ^ 64 + (k * 2 ^ 64 + mh * 2 ^ 32 + ml) * 2 ^ 32 + p" using assms(1,2) by simp
  also have "\<dots> = (s + k * 2 ^ 32 + mh) * 2 ^ 64 + (p + ml * 2 ^ 32)" by simp
  also have "\<dots> = (s + k * 2 ^ 32 + mh + k2) * 2 ^ 64 + z1" by (simp only: assms(3) distrib_right add.assoc)
  finally show ?thesis .
qed

lemma unat_mult32:
  assumes "unat (a :: u64) < 2 ^ 32" "unat (b :: u64) < 2 ^ 32"
  shows "unat (a * b) = unat a * unat b"
proof -
  have "unat a * unat b < 2 ^ 32 * 2 ^ 32" using assms by (intro mult_strict_mono) simp_all
  then show ?thesis by (simp add: unat_word_ariths)
qed

lemma unat_add4:
  "unat w + unat x + unat y + unat z < 2 ^ 64 \<Longrightarrow>
   unat (w + (x + y) + z :: u64) = unat w + unat x + unat y + unat z"
  by (simp add: unat_word_ariths mod_simps)

lemma mul64To128_val: "val128 (mul64To128 a b) = unat a * unat b"
proof -
  let ?l = "\<lambda>x :: u64. ucast (ucast x :: u32) :: u64" and ?h = "\<lambda>x :: u64. ucast (ucast (drop_bit 32 x) :: u32) :: u64"
  have l: "unat (?l x) = unat x mod 2 ^ 32" for x
    by (simp add: unsigned_ucast_eq take_bit_eq_mod unat_mod_distrib)
  have h: "unat (?h x) = unat x div 2 ^ 32" for x
    using unat64_lt [of x] by (simp add: unsigned_ucast_eq take_bit_eq_mod unat_mod_distrib unat_drop_bit)
  have h32: "unat (?h x) < 2 ^ 32" for x unfolding h using unat64_lt [of x] by simp
  have l32: "unat (?l x) < 2 ^ 32" for x unfolding l by simp
  define m where "m = ?l a * ?h b + ?h a * ?l b"
  define z1 where "z1 = ?l a * ?l b + push_bit 32 m"
  let ?k = "of_bool (m < ?h a * ?l b) :: u64" and ?k2 = "of_bool (z1 < push_bit 32 m) :: u64"
  have z: "mul64To128 a b = (?h a * ?h b + (push_bit 32 ?k + drop_bit 32 m) + ?k2, z1)"
    by (simp only: mul64To128_def Let_def m_def z1_def)
  have "unat (?l a * ?h b) + unat (?h a * ?l b) = unat ?k * 2 ^ 64 + unat m"
    unfolding m_def unat_of_bool using add_carry [of "?l a * ?h b" "?h a * ?l b"] by (simp only: add_carry_swap)
  moreover have "unat (?l a * ?l b) + unat m mod 2 ^ 32 * 2 ^ 32 = unat ?k2 * 2 ^ 64 + unat z1"
    using add_carry [of "?l a * ?l b" "push_bit 32 m"] push_bit_low [of 32 m]
    unfolding z1_def unat_of_bool by (simp add: add_carry_swap)
  ultimately have p: "(unat (?h a) * 2 ^ 32 + unat (?l a)) * (unat (?h b) * 2 ^ 32 + unat (?l b))
      = (unat (?h a * ?h b) + unat ?k * 2 ^ 32 + unat m div 2 ^ 32 + unat ?k2) * 2 ^ 64 + unat z1"
    by (rule product_sum [OF _ div_mult_mod_eq [symmetric]])
      (simp_all only: unat_mult32 l32 h32)
  have ab: "unat x = unat (?h x) * 2 ^ 32 + unat (?l x)" for x
    unfolding h unfolding l by (simp only: div_mult_mod_eq)
  have "unat a * unat b < 2 ^ 64 * 2 ^ 64" by (intro mult_strict_mono unat64_lt) simp_all
  then have "unat (?h a * ?h b) + unat ?k * 2 ^ 32 + unat m div 2 ^ 32 + unat ?k2 < 2 ^ 64"
    using p ab [of a] ab [of b] by simp
  moreover have k: "unat (push_bit 32 ?k) = unat ?k * 2 ^ 32" by simp
  ultimately have "unat (?h a * ?h b + (push_bit 32 ?k + drop_bit 32 m) + ?k2)
      = unat (?h a * ?h b) + unat ?k * 2 ^ 32 + unat m div 2 ^ 32 + unat ?k2"
    by (subst unat_add4) (simp_all only: k unat_drop_bit)
  then show ?thesis
    using p ab [of a] ab [of b] unfolding z val128_def fst_conv snd_conv by (simp only:)
qed

lemma add128_low:
  assumes "val128 z + unat x < 2 ^ 128"
  shows "val128 (add128 (fst z) (snd z) 0 x) = val128 z + unat x"
  using assms by (simp add: add128_val val128_0)

lemma mul_add_lt: "unat (a :: u64) * unat (b :: u64) + unat (c :: u64) < 2 ^ 128"
proof -
  have "unat a * unat b \<le> (2 ^ 64 - 1) * (2 ^ 64 - 1)"
    using unat64_lt [of a] unat64_lt [of b] by (intro mult_mono) simp_all
  then show ?thesis using unat64_lt [of c] by simp
qed

lemma mul_add_val:
  "val128 (add128 (fst (mul64To128 a b)) (snd (mul64To128 a b)) 0 x) = unat a * unat b + unat x"
  using mul_add_lt [of a b x] by (subst add128_low) (simp_all add: mul64To128_val)

lemma mul128By64To192_val: "val192 (mul128By64To192 a0 a1 b) = val128 (a0, a1) * unat b"
proof -
  let ?p = "mul64To128 a1 b" and ?q = "mul64To128 a0 b"
  let ?s = "add128 (fst ?q) (snd ?q) 0 (fst ?p)"
  have "mul128By64To192 a0 a1 b = (fst ?s, snd ?s, snd ?p)"
    by (simp add: mul128By64To192_def case_prod_beta)
  then have "val192 (mul128By64To192 a0 a1 b) = val128 ?s * 2 ^ 64 + unat (snd ?p)"
    by (simp only: val192_low val128_def)
  also have "\<dots> = (unat a0 * unat b + unat (fst ?p)) * 2 ^ 64 + unat (snd ?p)"
    by (simp only: mul_add_val)
  also have "\<dots> = unat a0 * unat b * 2 ^ 64 + val128 ?p"
    by (simp only: val128_def distrib_right add.assoc)
  also have "\<dots> = val128 (a0, a1) * unat b"
    unfolding mul64To128_val by (simp add: val128_def algebra_simps)
  finally show ?thesis .
qed

lemma product_sum256:
  fixes a0 :: nat
  assumes "a1 * b1 = z2 * 2 ^ 64 + z3" "a1 * b0 + z2 = z1 * 2 ^ 64 + z2'" "a0 * b1 + z2' = m * 2 ^ 64 + z2''"
  shows "(a0 * 2 ^ 64 + a1) * (b0 * 2 ^ 64 + b1) = (a0 * b0 + z1 + m) * 2 ^ 128 + z2'' * 2 ^ 64 + z3"
proof -
  have "(a0 * 2 ^ 64 + a1) * (b0 * 2 ^ 64 + b1)
      = a0 * b0 * 2 ^ 128 + (a0 * b1 + a1 * b0) * 2 ^ 64 + a1 * b1" by (simp add: algebra_simps)
  also have "\<dots> = a0 * b0 * 2 ^ 128 + (a0 * b1 + (a1 * b0 + z2)) * 2 ^ 64 + z3" unfolding assms(1) by simp
  also have "\<dots> = a0 * b0 * 2 ^ 128 + (a0 * b1 + z2' + z1 * 2 ^ 64) * 2 ^ 64 + z3" unfolding assms(2) by simp
  also have "\<dots> = a0 * b0 * 2 ^ 128 + (m * 2 ^ 64 + z2'' + z1 * 2 ^ 64) * 2 ^ 64 + z3" by (simp only: assms(3))
  finally show ?thesis by simp
qed

lemma mul128To256_val: "val256 (mul128To256 a0 a1 b0 b1) = val128 (a0, a1) * val128 (b0, b1)"
proof -
  define p11 where "p11 = mul64To128 a1 b1"
  define p10 where "p10 = mul64To128 a1 b0"
  define s10 where "s10 = add128 (fst p10) (snd p10) 0 (fst p11)"
  define p00 where "p00 = mul64To128 a0 b0"
  define s00 where "s00 = add128 (fst p00) (snd p00) 0 (fst s10)"
  define p01 where "p01 = mul64To128 a0 b1"
  define s01 where "s01 = add128 (fst p01) (snd p01) 0 (snd s10)"
  define h where "h = add128 (fst s00) (snd s00) 0 (fst s01)"
  have z: "mul128To256 a0 a1 b0 b1 = (fst h, snd h, snd s01, snd p11)"
    unfolding h_def s01_def p01_def s00_def p00_def s10_def p10_def p11_def
    by (simp only: mul128To256_def case_prod_beta Let_def)
  have p11: "unat a1 * unat b1 = unat (fst p11) * 2 ^ 64 + unat (snd p11)"
    using mul64To128_val [of a1 b1] by (simp only: p11_def val128_def)
  have s10: "unat a1 * unat b0 + unat (fst p11) = unat (fst s10) * 2 ^ 64 + unat (snd s10)"
    unfolding s10_def p10_def using mul_add_val [of a1 b0 "fst p11"] by (simp only: val128_def)
  have s01: "unat a0 * unat b1 + unat (snd s10) = unat (fst s01) * 2 ^ 64 + unat (snd s01)"
    unfolding s01_def p01_def using mul_add_val [of a0 b1 "snd s10"] by (simp only: val128_def)
  have s00: "val128 s00 = unat a0 * unat b0 + unat (fst s10)"
    unfolding s00_def p00_def by (rule mul_add_val)
  have prod: "val128 (a0, a1) * val128 (b0, b1)
      = (val128 s00 + unat (fst s01)) * 2 ^ 128 + unat (snd s01) * 2 ^ 64 + unat (snd p11)"
    unfolding val128_def [of "(a0, a1)"] val128_def [of "(b0, b1)"] fst_conv snd_conv s00
    by (rule product_sum256 [OF p11 s10 s01])
  have "val128 (a0, a1) * val128 (b0, b1) < 2 ^ 128 * 2 ^ 128"
    by (intro mult_strict_mono val128_lt) simp_all
  with prod have "(val128 s00 + unat (fst s01)) * 2 ^ 128 < 2 ^ 128 * 2 ^ 128" by linarith
  then have "val128 s00 + unat (fst s01) < 2 ^ 128" by simp
  then have "val128 h = val128 s00 + unat (fst s01)" unfolding h_def by (rule add128_low)
  then show ?thesis unfolding prod z
    by (simp add: val256_def val192_low [simplified] val128_def)
qed

section \<open>The estimated quotient\<close>

text \<open>One digit of the division: r * 2^32 + l by b, from the upper half b0 of the divisor.\<close>

lemma digit_estimate:
  fixes r :: nat
  assumes r: "r < b" and l: "l < 2 ^ 32" and b: "b0 = b div 2 ^ 32" "2 ^ 63 \<le> b"
    and z: "z = (if b0 * 2 ^ 32 \<le> r then 2 ^ 32 - 1 else r div b0)"
  shows "(r * 2 ^ 32 + l) div b \<le> z" "z \<le> (r * 2 ^ 32 + l) div b + 2" "z < 2 ^ 32"
proof -
  define q where "q = (r * 2 ^ 32 + l) div b"
  obtain bl where bl: "b = b0 * 2 ^ 32 + bl" "bl < 2 ^ 32"
    by (rule that [of "b mod 2 ^ 32"]) (simp_all add: b(1))
  have b0: "2 ^ 31 \<le> b0" using bl b(2) by simp
  have "r * 2 ^ 32 + l < 2 ^ 32 * b" using r l by simp
  then have q32: "q < 2 ^ 32" unfolding q_def by (simp add: less_mult_imp_div_less)
  have qb: "q * b \<le> r * 2 ^ 32 + l" unfolding q_def by simp
  have qb': "r * 2 ^ 32 + l < (q + 1) * b"
    unfolding q_def using b(2) dividend_less_div_times [of b "r * 2 ^ 32 + l"] by simp
  have "q * b0 * 2 ^ 32 \<le> q * b" unfolding bl(1) by simp
  also note qb
  also have "r * 2 ^ 32 + l < (r + 1) * 2 ^ 32" using l by simp
  finally have "q * b0 * 2 ^ 32 < (r + 1) * 2 ^ 32" .
  then have "q * b0 < r + 1" by simp
  then have "q * b0 \<le> r" by simp
  then have "q \<le> r div b0" using b0 by (simp add: less_eq_div_iff_mult_less_eq)
  then show "q \<le> z" using q32 unfolding z by simp
  show z32: "z < 2 ^ 32"
    unfolding z using b0 by (auto simp: not_le less_mult_imp_div_less mult.commute)
  have zb: "z * b0 \<le> r"
    unfolding z by (auto simp: algebra_simps)
  show "z \<le> q + 2"
  proof (rule ccontr)
    assume "\<not> z \<le> q + 2"
    then have qz: "q + 3 \<le> z" by simp
    then have "(q + 3) * b0 \<le> z * b0" by (rule mult_le_mono1)
    also note zb
    finally have "(q + 3) * b0 * 2 ^ 32 \<le> r * 2 ^ 32" by (rule mult_le_mono1)
    also have "\<dots> < (q + 1) * b" using qb' by simp
    finally have "(q + 3) * b0 * 2 ^ 32 < (q + 1) * b" .
    moreover have "(q + 1) * b = (q + 1) * b0 * 2 ^ 32 + (q + 1) * bl" unfolding bl(1) by (simp add: algebra_simps)
    moreover have "(q + 1) * bl \<le> 2 ^ 32 * 2 ^ 32" using qz z32 bl(2) by (intro mult_mono) simp_all
    ultimately have "2 * b0 * 2 ^ 32 < 2 ^ 32 * 2 ^ 32" by (simp add: algebra_simps)
    then show False using b0 by simp
  qed
qed

text \<open>
  The state of the correction loop: A is the dividend, B the divisor, zh the upper digit of the
  quotient tried so far and r the remainder modulo 2^128.
\<close>

lemma wrapped_remainder:
  fixes r :: nat
  assumes r: "r + (q + b + d) = A + k * M" and A: "q \<le> A" "A < q + b" and d: "d \<le> b" "2 * b \<le> N" "2 * N \<le> M"
  shows "N \<le> r"
proof -
  have "k \<noteq> 0" using r A by (intro notI) simp
  then have "M \<le> k * M" by simp
  with r A d show ?thesis by linarith
qed

lemma remainder_sign:
  fixes A B r zh :: nat
  assumes k: "r + B * (zh * 2 ^ 32) = A + k * 2 ^ 128" and r: "r < 2 ^ 128" and B: "B < 2 ^ 64"
    and qh: "qh = A div (B * 2 ^ 32)" "0 < B" and zh: "qh \<le> zh" "zh \<le> qh + 2"
  shows "2 ^ 127 \<le> r \<longleftrightarrow> qh < zh" "qh = zh \<Longrightarrow> r = A - B * (qh * 2 ^ 32) \<and> r < B * 2 ^ 32"
proof -
  have le: "B * (qh * 2 ^ 32) \<le> A"
    using div_times_less_eq_dividend [of A "B * 2 ^ 32"] unfolding qh(1) by (simp only: ac_simps)
  have lt: "A < B * (qh * 2 ^ 32) + B * 2 ^ 32"
    using dividend_less_div_times [of "B * 2 ^ 32" A] qh(2) unfolding qh(1) by (simp add: ac_simps)
  have eq: "r = A - B * (qh * 2 ^ 32) \<and> r < B * 2 ^ 32" if "qh = zh"
  proof -
    have "k = 0" using k le r unfolding that [symmetric] by (cases k) simp_all
    then show ?thesis using k le lt unfolding that [symmetric] by simp
  qed
  then show "qh = zh \<Longrightarrow> r = A - B * (qh * 2 ^ 32) \<and> r < B * 2 ^ 32" .
  show "2 ^ 127 \<le> r \<longleftrightarrow> qh < zh"
  proof (cases "qh = zh")
    case True
    with eq B show ?thesis by simp
  next
    case False
    then obtain d where d: "zh = qh + Suc d" "d \<le> 1"
      using zh by (metis add_Suc_right add_le_cancel_left le_neq_implies_less less_iff_Suc_add numeral_2_eq_2 not_less_eq_eq One_nat_def)
    have z: "B * (zh * 2 ^ 32) = B * (qh * 2 ^ 32) + B * 2 ^ 32 + d * (B * 2 ^ 32)"
      unfolding d(1) by (simp add: algebra_simps)
    have "d * (B * 2 ^ 32) \<le> B * 2 ^ 32" using d(2) by simp
    moreover have "r + (B * (qh * 2 ^ 32) + B * 2 ^ 32 + d * (B * 2 ^ 32)) = A + k * 2 ^ 128" using k z by simp
    ultimately have "2 ^ 127 \<le> r"
      using wrapped_remainder [of r _ _ _ A k "2 ^ 128", OF _ le lt] B by simp
    then show ?thesis using False zh by simp
  qed
qed

lemma sint_neg: "sint (w :: 'a::len word) < 0 \<longleftrightarrow> 2 ^ (LENGTH('a) - 1) \<le> unat w"
proof -
  let ?n = "LENGTH('a) - 1"
  have "unat w < 2 ^ LENGTH('a)" by (rule unsigned_less)
  also have "(2::nat) ^ LENGTH('a) = 2 * 2 ^ ?n" by (simp flip: power_Suc)
  finally have lt: "unat w div 2 ^ ?n < 2" by (simp add: less_mult_imp_div_less)
  have "sint w < 0 \<longleftrightarrow> bit (unat w) ?n"
    by (simp add: sint_uint signed_take_bit_negative_iff bit_unsigned_iff)
  also have "\<dots> \<longleftrightarrow> odd (unat w div 2 ^ ?n)" by (simp add: bit_iff_odd)
  also have "\<dots> \<longleftrightarrow> unat w div 2 ^ ?n \<noteq> 0"
    using lt by (cases "unat w div 2 ^ ?n = 0") (auto simp: less_Suc_eq numeral_2_eq_2)
  also have "\<dots> \<longleftrightarrow> 2 ^ ?n \<le> unat w" by (simp add: div_eq_0_iff not_less)
  finally show ?thesis .
qed

lemma sign_bit64: "sint (w :: u64) < 0 \<longleftrightarrow> 2 ^ 63 \<le> unat w"
  using sint_neg [of w] by simp

lemma val128_top: "2 ^ 127 \<le> val128 (r0, r1) \<longleftrightarrow> 2 ^ 63 \<le> unat r0"
  using unat64_lt [of r1] by (simp add: val128_def) arith

lemma val128_shl32: "val128 (drop_bit 32 b, push_bit 32 b) = unat b * 2 ^ 32"
proof -
  have "unat (push_bit 32 b) = unat b mod 2 ^ 32 * 2 ^ 32" using push_bit_low [of 32 b] by simp
  then have "val128 (drop_bit 32 b, push_bit 32 b) = (unat b div 2 ^ 32 * 2 ^ 32 + unat b mod 2 ^ 32) * 2 ^ 32"
    by (simp only: val128_def fst_conv snd_conv unat_drop_bit distrib_right mult.assoc) simp
  then show ?thesis by (simp only: div_mult_mod_eq)
qed

lemma same_mod:
  assumes "j * M + x = A + k * M" "A < (M :: nat)"
  obtains k' where "x = A + k' * M"
proof -
  have "(j * M + x) mod M = (A + k * M) mod M" using assms(1) by simp
  then have "x mod M = A" using assms(2) by simp
  then have "x = A + x div M * M" using div_mult_mod_eq [of x M] by simp
  then show thesis by (rule that)
qed

lemma div_correct_ok:
  fixes b z r0 r1 :: u64
  assumes "val128 (r0, r1) + unat b * (zh * 2 ^ 32) = A + k * 2 ^ 128" "0 < b"
    "unat z = zh * 2 ^ 32" "A div (unat b * 2 ^ 32) \<le> zh" "zh \<le> A div (unat b * 2 ^ 32) + n" "n \<le> 2" "n < f" "A < 2 ^ 128"
  shows "\<exists>z' r0' r1'. div_correct f b (drop_bit 32 b) z r0 r1 = Inr (z', r0', r1') \<and>
    unat z' = A div (unat b * 2 ^ 32) * 2 ^ 32 \<and>
    val128 (r0', r1') = A - unat b * (A div (unat b * 2 ^ 32) * 2 ^ 32) \<and>
    val128 (r0', r1') < unat b * 2 ^ 32"
  using assms
proof (induction f arbitrary: n zh z r0 r1 k)
  case 0
  then show ?case by simp
next
  case (Suc f)
  let ?q = "A div (unat b * 2 ^ 32)"
  have b: "0 < unat b" using Suc.prems(2) by (simp add: word_less_nat_alt)
  have zh2: "zh \<le> ?q + 2" using Suc.prems(5,6) by linarith
  note s = remainder_sign [OF Suc.prems(1) val128_lt unat64_lt refl b Suc.prems(4) zh2]
  have sg: "sint r0 < 0 \<longleftrightarrow> ?q < zh" unfolding sign_bit64 by (simp only: s(1) flip: val128_top [of r0 r1])
  show ?case
  proof (cases "?q < zh")
    case False
    then have "?q = zh" using Suc.prems(4) by simp
    then show ?thesis using s(2) Suc.prems(3) sg False by simp
  next
    case True
    define z' where "z' = z - 0x100000000"
    obtain r0' r1' where r': "add128 r0 r1 (drop_bit 32 b) (push_bit 32 b) = (r0', r1')" by force
    have st: "div_correct (Suc f) b (drop_bit 32 b) z r0 r1 = div_correct f b (drop_bit 32 b) z' r0' r1'"
      using sg True r' by (simp add: z'_def)
    obtain y where y: "zh = Suc y" using True by (cases zh) auto
    have "0x100000000 \<le> z" using Suc.prems(3) y by (simp add: word_le_nat_alt)
    then have z': "unat z' = y * 2 ^ 32" using Suc.prems(3) y by (simp add: z'_def unat_sub)
    have "val128 (r0', r1') = (val128 (r0, r1) + unat b * 2 ^ 32) mod 2 ^ 128"
      using add128_val [of r0 r1 "drop_bit 32 b" "push_bit 32 b"] r' val128_shl32 [of b] by simp
    then obtain j where j: "val128 (r0, r1) + unat b * 2 ^ 32 = j * 2 ^ 128 + val128 (r0', r1')"
      by (metis div_mult_mod_eq)
    have z: "unat b * (zh * 2 ^ 32) = unat b * (y * 2 ^ 32) + unat b * 2 ^ 32"
      unfolding y by (simp add: algebra_simps)
    have "j * 2 ^ 128 + (val128 (r0', r1') + unat b * (y * 2 ^ 32)) = A + k * 2 ^ 128"
      using j Suc.prems(1) z by linarith
    then obtain k' where k': "val128 (r0', r1') + unat b * (y * 2 ^ 32) = A + k' * 2 ^ 128"
      by (rule same_mod [OF _ \<open>A < 2 ^ 128\<close>])
    obtain m where "n = Suc m" using True Suc.prems(5) by (cases n) auto
    then show ?thesis unfolding st
      using True y Suc.prems Suc.IH [OF k' Suc.prems(2) z', of m] by simp
  qed
qed

lemma push32_hi: "unat (push_bit 32 (drop_bit 32 b :: u64)) = unat b div 2 ^ 32 * 2 ^ 32"
  using unat64_lt [of b] by (simp add: unat_push_bit_eq unat_drop_bit)

lemma digit_word:
  fixes b r :: u64
  shows "unat (if push_bit 32 (drop_bit 32 b) \<le> r then 0xFFFFFFFF else r div drop_bit 32 b) =
    (if unat b div 2 ^ 32 * 2 ^ 32 \<le> unat r then 2 ^ 32 - 1 else unat r div (unat b div 2 ^ 32))"
  by (simp only: word_le_nat_alt push32_hi unat_div_distrib unat_drop_bit if_distrib [of unat]) simp

lemma shl32_digit: "unat (w :: u64) < 2 ^ 32 \<Longrightarrow> unat (push_bit 32 w) = unat w * 2 ^ 32"
  by (simp add: unat_push_bit_eq)

lemma join_word:
  assumes "val128 (r0, r1) < unat (b :: u64) * 2 ^ 32"
  shows "unat (push_bit 32 r0 OR drop_bit 32 r1) = val128 (r0, r1) div 2 ^ 32" "val128 (r0, r1) div 2 ^ 32 < unat b"
proof -
  show lt: "val128 (r0, r1) div 2 ^ 32 < unat b"
    using assms by (rule less_mult_imp_div_less)
  have "val128 (r0, r1) = (unat r0 * 2 ^ 32) * 2 ^ 32 + unat r1" by (simp add: val128_def)
  also have "\<dots> div 2 ^ 32 = unat r0 * 2 ^ 32 + unat r1 div 2 ^ 32" by simp
  finally have "val128 (r0, r1) div 2 ^ 32 = unat r0 * 2 ^ 32 + unat r1 div 2 ^ 32" .
  then show "unat (push_bit 32 r0 OR drop_bit 32 r1) = val128 (r0, r1) div 2 ^ 32"
    using unat_push_or_drop [of 32 r0 r1] lt unat64_lt [of b] by simp
qed

lemma quotient_split:
  fixes A :: nat
  assumes "0 < B"
  shows "A div B = A div (B * 2 ^ 32) * 2 ^ 32 + (A - B * (A div (B * 2 ^ 32) * 2 ^ 32)) div B"
proof -
  let ?q = "A div (B * 2 ^ 32) * 2 ^ 32"
  have "B * ?q \<le> A"
    using div_times_less_eq_dividend [of A "B * 2 ^ 32"] by (simp only: ac_simps)
  then have "A = (A - B * ?q) + ?q * B" by (simp only: mult.commute [of _ B] le_add_diff_inverse2)
  then have "A div B = ((A - B * ?q) + ?q * B) div B" by (rule arg_cong)
  also have "\<dots> = ?q + (A - B * ?q) div B" by (rule div_mult_self1) (use assms in simp)
  finally show ?thesis .
qed

lemma estimateDiv128To64_bounds:
  assumes b: "2 ^ 63 \<le> unat b" and a0: "a0 < b"
  shows "\<exists>z. estimateDiv128To64 a0 a1 b = Inr z \<and>
    val128 (a0, a1) div unat b \<le> unat z \<and> unat z \<le> val128 (a0, a1) div unat b + 2"
proof -
  let ?A = "val128 (a0, a1)" and ?B = "unat b" and ?b0 = "drop_bit 32 b"
  let ?q = "?A div (?B * 2 ^ 32)"
  let ?d = "\<lambda>r. if push_bit 32 ?b0 \<le> r then 0xFFFFFFFF else r div ?b0"
  have bpos: "0 < b" "0 < ?B" using b by (simp_all add: word_less_nat_alt)
  have a0n: "unat a0 < ?B" using a0 by (simp add: word_less_nat_alt)
  have A32: "?A div 2 ^ 32 = unat a0 * 2 ^ 32 + unat a1 div 2 ^ 32"
  proof -
    have "?A = (unat a0 * 2 ^ 32) * 2 ^ 32 + unat a1" by (simp add: val128_def)
    also have "\<dots> div 2 ^ 32 = unat a0 * 2 ^ 32 + unat a1 div 2 ^ 32" by simp
    finally show ?thesis .
  qed
  have "unat a1 div 2 ^ 32 < 2 ^ 32" using unat64_lt [of a1] by simp
  note hi = digit_estimate [OF a0n this refl b digit_word]
  have q: "(unat a0 * 2 ^ 32 + unat a1 div 2 ^ 32) div ?B = ?q"
    by (simp only: A32 [symmetric] div_mult2_eq [symmetric] mult.commute)
  define z where "z = (if push_bit 32 ?b0 \<le> a0 then 0xFFFFFFFF00000000 else push_bit 32 (a0 div ?b0))"
  have "z = push_bit 32 (?d a0)" by (simp add: z_def)
  then have z: "unat z = unat (?d a0) * 2 ^ 32" using shl32_digit [OF hi(3)] by simp
  obtain t0 t1 where t: "mul64To128 b z = (t0, t1)" by force
  obtain r0 r1 where r: "sub128 a0 a1 t0 t1 = (r0, r1)" by force
  have "(val128 (r0, r1) + ?B * (unat (?d a0) * 2 ^ 32)) mod 2 ^ 128 = ?A"
    using sub128_add [of a0 a1 t0 t1] mul64To128_val [of b z] by (simp only: t r z)
  then obtain k where k: "val128 (r0, r1) + ?B * (unat (?d a0) * 2 ^ 32) = ?A + k * 2 ^ 128"
    by (metis add.commute div_mult_mod_eq)
  obtain z' r0' r1' where loop: "div_correct 4 b ?b0 z r0 r1 = Inr (z', r0', r1')"
    and z': "unat z' = ?q * 2 ^ 32" and R: "val128 (r0', r1') = ?A - ?B * (?q * 2 ^ 32)"
    and lt: "val128 (r0', r1') < ?B * 2 ^ 32"
    using div_correct_ok [OF k bpos(1) z hi(1) [unfolded q] hi(2) [unfolded q] _ _ val128_lt, of 4] by auto
  define w where "w = push_bit 32 r0' OR drop_bit 32 r1'"
  note wv = join_word [OF lt, folded w_def]
  have "val128 (r0', r1') mod 2 ^ 32 < 2 ^ 32" by simp
  note lo = digit_estimate [OF wv(2) [folded wv(1)] this refl b digit_word]
  have "(unat w * 2 ^ 32 + val128 (r0', r1') mod 2 ^ 32) div ?B = (?A - ?B * (?q * 2 ^ 32)) div ?B"
    unfolding wv(1) div_mult_mod_eq R ..
  note lo = lo [unfolded this]
  have res: "estimateDiv128To64 a0 a1 b = Inr (z' OR ?d w)"
    unfolding estimateDiv128To64_def using a0 loop
    by (simp add: Let_def t r not_le [symmetric] flip: z_def w_def)
  have "unat (z' OR ?d w) = ?q * 2 ^ 32 + unat (?d w)"
    unfolding unsigned_or_eq z' by (rule or_shifted [OF lo(3)])
  then show ?thesis
    using lo(1,2) quotient_split [OF bpos(2), of ?A] res by (intro exI [of _ "z' OR ?d w"]) linarith
qed

section \<open>Leading zeros and comparisons\<close>

text \<open>k is the number of leading zeros of the n-bit value x: shifted by k it has its top bit set.\<close>

definition leading_zeros :: "nat \<Rightarrow> nat \<Rightarrow> nat \<Rightarrow> bool" where
  "leading_zeros n x k \<longleftrightarrow> (if x = 0 then k = n else 2 ^ (n - 1) \<le> x * 2 ^ k \<and> x * 2 ^ k < 2 ^ n)"

lemma table_ok: "list_all (\<lambda>i. leading_zeros 8 i (countLeadingZerosHigh ! i)) [0..<256]"
  by code_simp

lemma table_entry: "i < 256 \<Longrightarrow> leading_zeros 8 i (countLeadingZerosHigh ! i)"
  using table_ok by (simp add: list_all_iff)

lemma leading_zeros_top:
  assumes "leading_zeros m (x div 2 ^ d) k" "2 ^ d \<le> x" "0 < m"
  shows "2 ^ (m - 1 + d) \<le> x * 2 ^ k \<and> x * 2 ^ k < 2 ^ (m + d)"
proof -
  let ?y = "x div 2 ^ d"
  have y: "?y \<noteq> 0" using assms(2) by (simp add: div_eq_0_iff)
  then have k: "2 ^ (m - 1) \<le> ?y * 2 ^ k" "?y * 2 ^ k < 2 ^ m" using assms(1) by (simp_all add: leading_zeros_def)
  have "1 * 2 ^ k \<le> ?y * 2 ^ k" using y by (intro mult_le_mono1) simp
  with k(2) have "(2::nat) ^ k < 2 ^ m" by linarith
  then have "k < m" by (rule power_less_imp_less_exp [rotated]) simp
  then have p: "(2::nat) ^ m = 2 ^ (m - k) * 2 ^ k" by (simp flip: power_add)
  then have "?y < 2 ^ (m - k)" using k(2) by simp
  then have "(?y + 1) * 2 ^ k \<le> 2 ^ m" unfolding p by (intro mult_le_mono1) simp
  then have "(?y + 1) * 2 ^ k * 2 ^ d \<le> 2 ^ (m + d)" by (simp only: power_add mult_le_mono1)
  moreover have "x * 2 ^ k < (?y + 1) * 2 ^ d * 2 ^ k"
    by (intro mult_strict_right_mono) (simp_all add: dividend_less_div_times)
  moreover have "?y * 2 ^ d * 2 ^ k \<le> x * 2 ^ k" by (intro mult_le_mono1) simp
  moreover have "2 ^ (m - 1 + d) \<le> ?y * 2 ^ k * 2 ^ d" using k(1) by (simp only: power_add mult_le_mono1)
  ultimately show ?thesis by (simp only: ac_simps) linarith
qed

lemma countLeadingZeros32_lz: "leading_zeros 32 (unat a) (countLeadingZeros32 a)"
proof (cases "a = 0")
  case True
  have "countLeadingZeros32 0 = 32" by code_simp
  then show ?thesis using True by (simp add: leading_zeros_def)
next
  case False
  define s1 where "s1 = (if a < 0x10000 then 16 else 0 :: nat)"
  define a1 where "a1 = (if a < 0x10000 then push_bit 16 a else a)"
  define s2 where "s2 = (if a1 < 0x1000000 then 8 else 0 :: nat)"
  define a2 where "a2 = (if a1 < 0x1000000 then push_bit 8 a1 else a1)"
  define t where "t = countLeadingZerosHigh ! unat (drop_bit 24 a2)"
  have c: "countLeadingZeros32 a = s1 + s2 + t"
    unfolding countLeadingZeros32_def t_def a2_def s2_def
    by (simp add: Let_def a1_def s1_def)
  have a: "0 < unat a" using False by (simp add: unat_gt_0)
  have a1: "unat a1 = unat a * 2 ^ s1" "2 ^ 16 \<le> unat a1"
    using a by (auto simp: a1_def s1_def unat_push_bit_eq word_less_nat_alt)
  have a2: "unat a2 = unat a1 * 2 ^ s2" "2 ^ 24 \<le> unat a2"
    using a1(2) by (auto simp: a2_def s2_def unat_push_bit_eq word_less_nat_alt)
  have "unat a2 div 2 ^ 24 < 256" using unat32_lt [of a2] by simp
  then have "leading_zeros 8 (unat a2 div 2 ^ 24) t"
    unfolding t_def by (simp add: table_entry unat_drop_bit)
  from leading_zeros_top [OF this a2(2)] show ?thesis
    using a unfolding c a2(1) a1(1) leading_zeros_def by (simp add: power_add ac_simps)
qed

lemma countLeadingZeros64_lz: "leading_zeros 64 (unat a) (countLeadingZeros64 a)"
proof (cases "unat a < 2 ^ 32")
  case True
  then have "unat (ucast a :: u32) = unat a" "countLeadingZeros64 a = 32 + countLeadingZeros32 (ucast a)"
    by (simp_all add: unsigned_ucast_eq take_bit_eq_mod countLeadingZeros64_def word_less_nat_alt)
  then show ?thesis using countLeadingZeros32_lz [of "ucast a"] True
    by (auto simp: leading_zeros_def power_add split: if_splits)
next
  case False
  let ?h = "unat a div 2 ^ 32" and ?k = "countLeadingZeros32 (ucast (drop_bit 32 a))"
  have h: "unat (ucast (drop_bit 32 a) :: u32) = ?h"
    using unat64_lt [of a] by (simp add: unsigned_ucast_eq take_bit_eq_mod unat_drop_bit)
  have "leading_zeros 32 ?h ?k"
    using countLeadingZeros32_lz [of "ucast (drop_bit 32 a)"] unfolding h .
  from leading_zeros_top [OF this] False show ?thesis
    by (auto simp: leading_zeros_def countLeadingZeros64_def word_less_nat_alt)
qed

lemma val128_less: "val128 (a0, a1) < val128 (b0, b1) \<longleftrightarrow> a0 < b0 \<or> a0 = b0 \<and> a1 < b1"
proof -
  have "val128 (a0, a1) < val128 (b0, b1)" if "a0 < b0"
    using that unat64_lt [of a1] by (simp add: val128_def word_less_nat_alt)
  moreover have "\<not> val128 (a0, a1) < val128 (b0, b1)" if "b0 < a0"
    using that unat64_lt [of b1] by (simp add: val128_def word_less_nat_alt)
  ultimately show ?thesis
    by (cases a0 b0 rule: linorder_cases) (auto simp: val128_def word_less_nat_alt)
qed

lemma val128_inj: "val128 (a0, a1) = val128 (b0, b1) \<longleftrightarrow> a0 = b0 \<and> a1 = b1"
  using val128_less [of a0 a1 b0 b1] val128_less [of b0 b1 a0 a1]
  by (cases a0 b0 rule: linorder_cases; cases a1 b1 rule: linorder_cases) auto

section \<open>Properties\<close>

text \<open>
  C30: The right shifts with jamming, on 32, 64 and 128 bits and for every count, are the shift of
  the value with the lowest bit set when a nonzero bit was shifted off. Those that return an extra
  piece return the integer part of the shifted value, and the extra piece has the last bit shifted
  off as its top bit and is otherwise zero exactly when all earlier bits shifted off were zero.
\<close>

theorem right_shifts_correct:
  "unat (shift32RightJamming a c) = jam (unat a) c \<and>
   unat (shift64RightJamming b c) = jam (unat b) c \<and>
   val128 (shift128RightJamming a0 a1 c) = jam (val128 (a0, a1)) c \<and>
   extra_of (val128 (a0, a1)) c (unat (fst (shift64ExtraRightJamming a0 a1 c)))
     (snd (shift64ExtraRightJamming a0 a1 c)) \<and>
   extra_of (val192 (a0, a1, a2)) c
     (val128 (fst (shift128ExtraRightJamming a0 a1 a2 c), fst (snd (shift128ExtraRightJamming a0 a1 a2 c))))
     (snd (snd (shift128ExtraRightJamming a0 a1 a2 c)))"
  by (intro conjI shift32RightJamming_jam shift64RightJamming_jam shift128RightJamming_jam
      shift64ExtraRightJamming_extra shift128ExtraRightJamming_extra)

text \<open>
  C33: The 128-bit right shift is the division by the power of two for counts below 64. For a count
  from 64 to 127 it returns zero and so loses the bits of the upper piece that the shift moves into
  the lower one: it differs from the division exactly when some of them is set.
\<close>

theorem shift128Right_drops_upper:
  "(c < 64 \<longrightarrow> val128 (shift128Right a0 a1 c) = val128 (a0, a1) div 2 ^ c) \<and>
   (64 \<le> c \<longrightarrow> val128 (shift128Right a0 a1 c) = 0 \<and>
     (val128 (shift128Right a0 a1 c) = val128 (a0, a1) div 2 ^ c \<longleftrightarrow> unat a0 < 2 ^ (c - 64)))"
  by (auto simp: shift128Right_val val128_div div_eq_0_iff eq_commute [of 0])

theorem shift128Right_drops_upper_witness:
  "val128 (shift128Right 16 0 65) = 0 \<and> val128 (16, 0) div 2 ^ 65 = 8 \<and>
   val128 (shift128Right 3 0 1) = val128 (3, 0) div 2 ^ 1"
  using shift128Right_drops_upper [of 65 16 0] shift128Right_drops_upper [of 1 3 0] by (simp add: val128_def)

text \<open>
  C31: Addition and subtraction of 128-bit and 192-bit values are exact modulo 2^128 and 2^192, the
  left shifts by less than 64 are multiplication by the power of two, and the comparisons compare
  the values.
\<close>

theorem wide_add_sub_shift_correct:
  "val128 (add128 a0 a1 b0 b1) = (val128 (a0, a1) + val128 (b0, b1)) mod 2 ^ 128 \<and>
   val192 (add192 a0 a1 a2 b0 b1 b2) = (val192 (a0, a1, a2) + val192 (b0, b1, b2)) mod 2 ^ 192 \<and>
   (val128 (sub128 a0 a1 b0 b1) + val128 (b0, b1)) mod 2 ^ 128 = val128 (a0, a1) \<and>
   (val192 (sub192 a0 a1 a2 b0 b1 b2) + val192 (b0, b1, b2)) mod 2 ^ 192 = val192 (a0, a1, a2) \<and>
   (c < 64 \<longrightarrow> val128 (shortShift128Left a0 a1 c) = val128 (a0, a1) * 2 ^ c mod 2 ^ 128 \<and>
     val192 (shortShift192Left a0 a1 a2 c) = val192 (a0, a1, a2) * 2 ^ c mod 2 ^ 192) \<and>
   (eq128 a0 a1 b0 b1 \<longleftrightarrow> val128 (a0, a1) = val128 (b0, b1)) \<and>
   (ne128 a0 a1 b0 b1 \<longleftrightarrow> val128 (a0, a1) \<noteq> val128 (b0, b1)) \<and>
   (le128 a0 a1 b0 b1 \<longleftrightarrow> val128 (a0, a1) \<le> val128 (b0, b1)) \<and>
   (lt128 a0 a1 b0 b1 \<longleftrightarrow> val128 (a0, a1) < val128 (b0, b1))"
  by (auto simp only: add128_val add192_val sub128_add sub192_add shortShift128Left_val shortShift192Left_val
      eq128_def ne128_def le128_def lt128_def val128_inj val128_less le_less)

theorem wide_add_sub_shift_correct_witness:
  "val128 (add128 1 2 3 4) = 4 * 2 ^ 64 + 6 \<and> val128 (shortShift128Left 1 2 4) = 16 * 2 ^ 64 + 32"
  using wide_add_sub_shift_correct [of 1 2 3 4 0 0 4] by (simp add: val128_def)

text \<open>
  C29: The products of 64-bit and 128-bit values into 128, 192 and 256 bits are exact.
\<close>

theorem wide_mul_correct:
  "val128 (mul64To128 a b) = unat a * unat b \<and>
   val192 (mul128By64To192 a0 a1 b) = val128 (a0, a1) * unat b \<and>
   val256 (mul128To256 a0 a1 b0 b1) = val128 (a0, a1) * val128 (b0, b1)"
  by (intro conjI mul64To128_val mul128By64To192_val mul128To256_val)

text \<open>
  C28: For a divisor of at least 2^63 the estimated quotient is returned, the correction loop ending
  within its bound. It is the maximal value when the quotient needs more than 64 bits, and otherwise
  it is at least the exact quotient and at most two above it.
\<close>

theorem estimateDiv128To64_correct:
  assumes "2 ^ 63 \<le> unat b"
  shows "\<exists>z. estimateDiv128To64 a0 a1 b = Inr z \<and>
    (if 2 ^ 64 \<le> val128 (a0, a1) div unat b then z = - 1
     else val128 (a0, a1) div unat b \<le> unat z \<and> unat z \<le> val128 (a0, a1) div unat b + 2)"
proof (cases "a0 < b")
  case True
  have "val128 (a0, a1) < 2 ^ 64 * unat b"
    using True unat64_lt [of a1] by (simp add: val128_def word_less_nat_alt)
  then have "val128 (a0, a1) div unat b < 2 ^ 64" by (rule less_mult_imp_div_less)
  then show ?thesis using estimateDiv128To64_bounds [OF assms True, of a1] by (simp add: not_le)
next
  case False
  then have "2 ^ 64 * unat b \<le> val128 (a0, a1)" by (simp add: val128_def word_less_nat_alt)
  then have "2 ^ 64 \<le> val128 (a0, a1) div unat b" using assms by (simp add: less_eq_div_iff_mult_less_eq)
  then show ?thesis using False by (simp add: estimateDiv128To64_def not_less)
qed

theorem estimateDiv128To64_correct_witness:
  "\<exists>z. estimateDiv128To64 1 0 0x8000000000000000 = Inr z \<and> 2 \<le> unat z \<and> unat z \<le> 4"
  using estimateDiv128To64_correct [of "0x8000000000000000" 1 0] by (simp add: val128_def)

text \<open>
  C32: The table-driven counts of leading zeros are the number of zero bits above the highest set
  bit, and the full width for zero.
\<close>

theorem countLeadingZeros_correct:
  "leading_zeros 32 (unat a) (countLeadingZeros32 a) \<and> leading_zeros 64 (unat b) (countLeadingZeros64 b)"
  by (intro conjI countLeadingZeros32_lz countLeadingZeros64_lz)

end
