(* ===== verification/Float32.thy ===== *)
theory Float32
  imports Float_Macros
begin

text \<open>
  Single precision arithmetic of the software floating point unit (fpu/softfloat.c,
  fpu/softfloat-specialize.h, fpu/softfloat.h), as it is compiled for the ARM, PowerPC and Alpha
  guests: a quiet NaN has the top fraction bit set and the default NaN is 0x7FC00000. A float32 is
  its 32-bit pattern. Operations take the status record and return the result and the new status.
  The types int16 and int32 of the source are the C type int, so exponents are integers that do not
  wrap in the operations modelled here.
\<close>

section \<open>Status, NaNs\<close>

record float_status =
  float_detect_tininess :: int
  float_rounding_mode :: int
  float_exception_flags :: u8
  floatx80_rounding_precision :: int
  flush_to_zero :: bool
  default_nan_mode :: bool

abbreviation (input) float_tininess_before_rounding :: int where
  "float_tininess_before_rounding \<equiv> 1"

abbreviation (input) float_round_nearest_even :: int where
  "float_round_nearest_even \<equiv> 0"

abbreviation (input) float_round_down :: int where
  "float_round_down \<equiv> 1"

abbreviation (input) float_round_up :: int where
  "float_round_up \<equiv> 2"

abbreviation (input) float_round_to_zero :: int where
  "float_round_to_zero \<equiv> 3"

abbreviation (input) float_flag_invalid :: u8 where
  "float_flag_invalid \<equiv> 1"

abbreviation (input) float_flag_divbyzero :: u8 where
  "float_flag_divbyzero \<equiv> 4"

abbreviation (input) float_flag_overflow :: u8 where
  "float_flag_overflow \<equiv> 8"

abbreviation (input) float_flag_underflow :: u8 where
  "float_flag_underflow \<equiv> 16"

abbreviation (input) float_flag_inexact :: u8 where
  "float_flag_inexact \<equiv> 32"

definition float_raise :: "u8 \<Rightarrow> float_status \<Rightarrow> float_status" where
  "float_raise flags st = st\<lparr>float_exception_flags := float_exception_flags st OR flags\<rparr>"

definition set_float_rounding_mode :: "int \<Rightarrow> float_status \<Rightarrow> float_status" where
  "set_float_rounding_mode val st = st\<lparr>float_rounding_mode := val\<rparr>"

definition set_float_exception_flags :: "u8 \<Rightarrow> float_status \<Rightarrow> float_status" where
  "set_float_exception_flags val st = st\<lparr>float_exception_flags := val\<rparr>"

definition set_flush_to_zero :: "bool \<Rightarrow> float_status \<Rightarrow> float_status" where
  "set_flush_to_zero val st = st\<lparr>flush_to_zero := val\<rparr>"

definition set_default_nan_mode :: "bool \<Rightarrow> float_status \<Rightarrow> float_status" where
  "set_default_nan_mode val st = st\<lparr>default_nan_mode := val\<rparr>"

definition float32_default_nan :: u32 where
  "float32_default_nan = 0x7FC00000"

definition float32_is_nan :: "u32 \<Rightarrow> bool" where
  "float32_is_nan a \<longleftrightarrow> 0xFF800000 \<le> push_bit 1 a"

definition float32_is_signaling_nan :: "u32 \<Rightarrow> bool" where
  "float32_is_signaling_nan a \<longleftrightarrow> drop_bit 22 a AND 0x1FF = 0x1FE \<and> a AND 0x003FFFFF \<noteq> 0"

definition returnLargerSignificand :: "u32 \<Rightarrow> u32 \<Rightarrow> u32" where
  "returnLargerSignificand av bv =
     (if push_bit 1 av < push_bit 1 bv then bv
      else if push_bit 1 bv < push_bit 1 av then av
      else if av < bv then av else bv)"

definition propagateFloat32NaN :: "u32 \<Rightarrow> u32 \<Rightarrow> float_status \<Rightarrow> u32 \<times> float_status" where
  "propagateFloat32NaN a b st =
     (if default_nan_mode st then (float32_default_nan, st)
      else
        let aIsNaN = float32_is_nan a;
            aIsSignalingNaN = float32_is_signaling_nan a;
            bIsNaN = float32_is_nan b;
            bIsSignalingNaN = float32_is_signaling_nan b;
            av = a OR 0x00400000;
            bv = b OR 0x00400000;
            st = (if aIsSignalingNaN \<or> bIsSignalingNaN then float_raise float_flag_invalid st else st);
            res = (if aIsSignalingNaN then
                     if bIsSignalingNaN then returnLargerSignificand av bv
                     else if bIsNaN then bv else av
                   else if aIsNaN then
                     if bIsSignalingNaN \<or> \<not> bIsNaN then av else returnLargerSignificand av bv
                   else bv)
        in (res, st))"

section \<open>Fields, rounding and packing\<close>

definition float32_abs :: "u32 \<Rightarrow> u32" where
  "float32_abs a = a AND 0x7fffffff"

definition float32_chs :: "u32 \<Rightarrow> u32" where
  "float32_chs a = a XOR 0x80000000"

definition float32_is_infinity :: "u32 \<Rightarrow> bool" where
  "float32_is_infinity a \<longleftrightarrow> a AND 0x7fffffff = 0x7f800000"

definition float32_is_neg :: "u32 \<Rightarrow> bool" where
  "float32_is_neg a \<longleftrightarrow> drop_bit 31 a \<noteq> 0"

definition float32_is_zero :: "u32 \<Rightarrow> bool" where
  "float32_is_zero a \<longleftrightarrow> a AND 0x7fffffff = 0"

definition extractFloat32Frac :: "u32 \<Rightarrow> u32" where
  "extractFloat32Frac a = a AND 0x007FFFFF"

definition extractFloat32Exp :: "u32 \<Rightarrow> int" where
  "extractFloat32Exp a = uint (drop_bit 23 a AND 0xFF)"

definition extractFloat32Sign :: "u32 \<Rightarrow> bool" where
  "extractFloat32Sign a \<longleftrightarrow> drop_bit 31 a \<noteq> 0"

text \<open>The shift count of normalizeFloat32Subnormal is not negative: a fraction has 23 bits.\<close>

definition normalizeFloat32Subnormal :: "u32 \<Rightarrow> int \<times> u32" where
  "normalizeFloat32Subnormal aSig =
     (let shiftCount = countLeadingZeros32 aSig - 8
      in (1 - int shiftCount, push_bit shiftCount aSig))"

definition packFloat32 :: "bool \<Rightarrow> int \<Rightarrow> u32 \<Rightarrow> u32" where
  "packFloat32 zSign zExp zSig = push_bit 31 (of_bool zSign) + push_bit 23 (word_of_int zExp) + zSig"

text \<open>The increment that roundAndPackFloat32 and roundAndPackInt32 add before they drop seven bits.\<close>

definition roundIncrement :: "int \<Rightarrow> bool \<Rightarrow> 'a::len word" where
  "roundIncrement roundingMode zSign =
     (if roundingMode = float_round_nearest_even then 0x40
      else if roundingMode = float_round_to_zero then 0
      else if zSign then if roundingMode = float_round_up then 0 else 0x7F
      else if roundingMode = float_round_down then 0 else 0x7F)"

text \<open>The last statements of roundAndPackFloat32, with the rounding bits already taken.\<close>

definition roundPack :: "float_status \<Rightarrow> bool \<Rightarrow> int \<Rightarrow> u32 \<Rightarrow> u32 \<Rightarrow> u32 \<times> float_status" where
  "roundPack st zSign zExp zSig roundBits =
     (let roundNearestEven = (float_rounding_mode st = float_round_nearest_even);
          st' = (if roundBits \<noteq> 0 then float_raise float_flag_inexact st else st);
          zSig = drop_bit 7 (zSig + roundIncrement (float_rounding_mode st) zSign);
          zSig = zSig AND NOT (of_bool (roundBits XOR 0x40 = 0 \<and> roundNearestEven));
          zExp = (if zSig = 0 then 0 else zExp)
      in (packFloat32 zSign zExp zSig, st'))"

definition roundAndPackFloat32 :: "bool \<Rightarrow> int \<Rightarrow> u32 \<Rightarrow> float_status \<Rightarrow> u32 \<times> float_status" where
  "roundAndPackFloat32 zSign zExp zSig st =
     (let roundInc = roundIncrement (float_rounding_mode st) zSign;
          roundBits = zSig AND 0x7F
      in if 0xFD \<le> take_bit 16 zExp then
           if 0xFD < zExp \<or> zExp = 0xFD \<and> sint (zSig + roundInc) < 0 then
             (packFloat32 zSign 0xFF (- of_bool (roundInc = 0)),
              float_raise (float_flag_overflow OR float_flag_inexact) st)
           else if zExp < 0 then
             if flush_to_zero st then (packFloat32 zSign 0 0, st)
             else
               let isTiny = (float_detect_tininess st = float_tininess_before_rounding \<or> zExp < -1 \<or>
                             zSig + roundInc < 0x80000000);
                   zSig = shift32RightJamming zSig (nat (- zExp));
                   roundBits = zSig AND 0x7F;
                   st = (if isTiny \<and> roundBits \<noteq> 0 then float_raise float_flag_underflow st else st)
               in roundPack st zSign 0 zSig roundBits
           else roundPack st zSign zExp zSig roundBits
         else roundPack st zSign zExp zSig roundBits)"

text \<open>A negative shift count does not arise: bit 31 of the significand is zero.\<close>

definition normalizeRoundAndPackFloat32 :: "bool \<Rightarrow> int \<Rightarrow> u32 \<Rightarrow> float_status \<Rightarrow> u32 \<times> float_status" where
  "normalizeRoundAndPackFloat32 zSign zExp zSig st =
     (let shiftCount = countLeadingZeros32 zSig - 1
      in roundAndPackFloat32 zSign (zExp - int shiftCount) (push_bit shiftCount zSig) st)"

section \<open>Addition and subtraction\<close>

definition addFloat32Sigs :: "u32 \<Rightarrow> u32 \<Rightarrow> bool \<Rightarrow> float_status \<Rightarrow> u32 \<times> float_status" where
  "addFloat32Sigs a b zSign st =
     (let aExp = extractFloat32Exp a;
          bExp = extractFloat32Exp b;
          expDiff = aExp - bExp;
          aSig = push_bit 6 (extractFloat32Frac a);
          bSig = push_bit 6 (extractFloat32Frac b);
          finish = (\<lambda>aSig bSig zExp.
            let aSig = aSig OR 0x20000000;
                zSig = push_bit 1 (aSig + bSig);
                zExp = zExp - 1
            in if sint zSig < 0 then roundAndPackFloat32 zSign (zExp + 1) (aSig + bSig) st
               else roundAndPackFloat32 zSign zExp zSig st)
      in if 0 < expDiff then
           if aExp = 0xFF then if aSig \<noteq> 0 then propagateFloat32NaN a b st else (a, st)
           else
             let (expDiff, bSig) = (if bExp = 0 then (expDiff - 1, bSig) else (expDiff, bSig OR 0x20000000));
                 bSig = shift32RightJamming bSig (nat expDiff)
             in finish aSig bSig aExp
         else if expDiff < 0 then
           if bExp = 0xFF then
             if bSig \<noteq> 0 then propagateFloat32NaN a b st else (packFloat32 zSign 0xFF 0, st)
           else
             let (expDiff, aSig) = (if aExp = 0 then (expDiff + 1, aSig) else (expDiff, aSig OR 0x20000000));
                 aSig = shift32RightJamming aSig (nat (- expDiff))
             in finish aSig bSig bExp
         else if aExp = 0xFF then
           if aSig OR bSig \<noteq> 0 then propagateFloat32NaN a b st else (a, st)
         else if aExp = 0 then
           if flush_to_zero st then (packFloat32 zSign 0 0, st)
           else (packFloat32 zSign 0 (drop_bit 6 (aSig + bSig)), st)
         else roundAndPackFloat32 zSign aExp (0x40000000 + aSig + bSig) st)"

definition subFloat32Sigs :: "u32 \<Rightarrow> u32 \<Rightarrow> bool \<Rightarrow> float_status \<Rightarrow> u32 \<times> float_status" where
  "subFloat32Sigs a b zSign st =
     (let aExp = extractFloat32Exp a;
          bExp = extractFloat32Exp b;
          expDiff = aExp - bExp;
          aSig = push_bit 7 (extractFloat32Frac a);
          bSig = push_bit 7 (extractFloat32Frac b);
          bBigger = (\<lambda>aSig bSig bExp. normalizeRoundAndPackFloat32 (\<not> zSign) (bExp - 1) (bSig - aSig) st);
          aBigger = (\<lambda>aSig bSig aExp. normalizeRoundAndPackFloat32 zSign (aExp - 1) (aSig - bSig) st)
      in if 0 < expDiff then
           if aExp = 0xFF then if aSig \<noteq> 0 then propagateFloat32NaN a b st else (a, st)
           else
             let (expDiff, bSig) = (if bExp = 0 then (expDiff - 1, bSig) else (expDiff, bSig OR 0x40000000));
                 bSig = shift32RightJamming bSig (nat expDiff);
                 aSig = aSig OR 0x40000000
             in aBigger aSig bSig aExp
         else if expDiff < 0 then
           if bExp = 0xFF then
             if bSig \<noteq> 0 then propagateFloat32NaN a b st else (packFloat32 (\<not> zSign) 0xFF 0, st)
           else
             let (expDiff, aSig) = (if aExp = 0 then (expDiff + 1, aSig) else (expDiff, aSig OR 0x40000000));
                 aSig = shift32RightJamming aSig (nat (- expDiff));
                 bSig = bSig OR 0x40000000
             in bBigger aSig bSig bExp
         else if aExp = 0xFF then
           if aSig OR bSig \<noteq> 0 then propagateFloat32NaN a b st
           else (float32_default_nan, float_raise float_flag_invalid st)
         else
           let (aExp, bExp) = (if aExp = 0 then (1, 1) else (aExp, bExp))
           in if bSig < aSig then aBigger aSig bSig aExp
              else if aSig < bSig then bBigger aSig bSig bExp
              else (packFloat32 (float_rounding_mode st = float_round_down) 0 0, st))"

definition float32_add :: "u32 \<Rightarrow> u32 \<Rightarrow> float_status \<Rightarrow> u32 \<times> float_status" where
  "float32_add a b st =
     (let aSign = extractFloat32Sign a; bSign = extractFloat32Sign b
      in if aSign = bSign then addFloat32Sigs a b aSign st else subFloat32Sigs a b aSign st)"

definition float32_sub :: "u32 \<Rightarrow> u32 \<Rightarrow> float_status \<Rightarrow> u32 \<times> float_status" where
  "float32_sub a b st =
     (let aSign = extractFloat32Sign a; bSign = extractFloat32Sign b
      in if aSign = bSign then subFloat32Sigs a b aSign st else addFloat32Sigs a b aSign st)"

section \<open>Multiplication and division\<close>

definition float32_mul :: "u32 \<Rightarrow> u32 \<Rightarrow> float_status \<Rightarrow> u32 \<times> float_status" where
  "float32_mul a b st =
     (let aSig = extractFloat32Frac a;
          aExp = extractFloat32Exp a;
          bSig = extractFloat32Frac b;
          bExp = extractFloat32Exp b;
          zSign = (extractFloat32Sign a \<noteq> extractFloat32Sign b)
      in if aExp = 0xFF then
           if aSig \<noteq> 0 \<or> bExp = 0xFF \<and> bSig \<noteq> 0 then propagateFloat32NaN a b st
           else if bExp = 0 \<and> bSig = 0 then (float32_default_nan, float_raise float_flag_invalid st)
           else (packFloat32 zSign 0xFF 0, st)
         else if bExp = 0xFF then
           if bSig \<noteq> 0 then propagateFloat32NaN a b st
           else if aExp = 0 \<and> aSig = 0 then (float32_default_nan, float_raise float_flag_invalid st)
           else (packFloat32 zSign 0xFF 0, st)
         else if aExp = 0 \<and> aSig = 0 \<or> bExp = 0 \<and> bSig = 0 then (packFloat32 zSign 0 0, st)
         else
           let (aExp, aSig) = (if aExp = 0 then normalizeFloat32Subnormal aSig else (aExp, aSig));
               (bExp, bSig) = (if bExp = 0 then normalizeFloat32Subnormal bSig else (bExp, bSig));
               zExp = aExp + bExp - 0x7F;
               aSig = push_bit 7 (aSig OR 0x00800000);
               bSig = push_bit 8 (bSig OR 0x00800000);
               zSig = ucast (shift64RightJamming (ucast aSig * ucast bSig) 32) :: u32
           in if 0 \<le> sint (push_bit 1 zSig) then roundAndPackFloat32 zSign (zExp - 1) (push_bit 1 zSig) st
              else roundAndPackFloat32 zSign zExp zSig st)"

definition float32_div :: "u32 \<Rightarrow> u32 \<Rightarrow> float_status \<Rightarrow> u32 \<times> float_status" where
  "float32_div a b st =
     (let aSig = extractFloat32Frac a;
          aExp = extractFloat32Exp a;
          bSig = extractFloat32Frac b;
          bExp = extractFloat32Exp b;
          zSign = (extractFloat32Sign a \<noteq> extractFloat32Sign b)
      in if aExp = 0xFF then
           if aSig \<noteq> 0 then propagateFloat32NaN a b st
           else if bExp = 0xFF then
             if bSig \<noteq> 0 then propagateFloat32NaN a b st
             else (float32_default_nan, float_raise float_flag_invalid st)
           else (packFloat32 zSign 0xFF 0, st)
         else if bExp = 0xFF then
           if bSig \<noteq> 0 then propagateFloat32NaN a b st else (packFloat32 zSign 0 0, st)
         else if bExp = 0 \<and> bSig = 0 then
           if aExp = 0 \<and> aSig = 0 then (float32_default_nan, float_raise float_flag_invalid st)
           else (packFloat32 zSign 0xFF 0, float_raise float_flag_divbyzero st)
         else if aExp = 0 \<and> aSig = 0 then (packFloat32 zSign 0 0, st)
         else
           let (bExp, bSig) = (if bExp = 0 then normalizeFloat32Subnormal bSig else (bExp, bSig));
               (aExp, aSig) = (if aExp = 0 then normalizeFloat32Subnormal aSig else (aExp, aSig));
               zExp = aExp - bExp + 0x7D;
               aSig = push_bit 7 (aSig OR 0x00800000);
               bSig = push_bit 8 (bSig OR 0x00800000);
               (aSig, zExp) = (if bSig \<le> aSig + aSig then (drop_bit 1 aSig, zExp + 1) else (aSig, zExp));
               zSig = ucast (push_bit 32 (ucast aSig :: u64) div ucast bSig) :: u32;
               zSig = (if zSig AND 0x3F = 0
                       then zSig OR of_bool (ucast bSig * ucast zSig \<noteq> push_bit 32 (ucast aSig :: u64))
                       else zSig)
           in roundAndPackFloat32 zSign zExp zSig st)"

end
