(* ===== verification/Float32_Round.thy ===== *)
theory Float32_Round
  imports Float32
begin

text \<open>
  What correct rounding of a single precision number means, and that roundAndPackFloat32 achieves it
  in the four rounding modes. Magnitudes are counted in units of 2^-149. A significand that carries
  a jammed bit is related to the exact quotient it stands for; the rounding bits of the source are
  shown to compute the rounding of that quotient.
\<close>

section \<open>Values\<close>

text \<open>
  The magnitude of a pattern in units of 2^-149, the smallest positive single precision number. The
  pattern of an infinity gets 2^277, above every finite magnitude.
\<close>

definition exp32 :: "u32 \<Rightarrow> nat" where
  "exp32 a = unat a div 2 ^ 23 mod 2 ^ 8"

definition frac32 :: "u32 \<Rightarrow> nat" where
  "frac32 a = unat a mod 2 ^ 23"

definition mag :: "u32 \<Rightarrow> nat" where
  "mag a = (if exp32 a = 0 then frac32 a else (2 ^ 23 + frac32 a) * 2 ^ (exp32 a - 1))"

definition finite32 :: "u32 \<Rightarrow> bool" where
  "finite32 a \<longleftrightarrow> exp32 a \<noteq> 255"

definition fval :: "u32 \<Rightarrow> int" where
  "fval a = (if extractFloat32Sign a then - int (mag a) else int (mag a))"

lemma frac32_lt: "frac32 a < 2 ^ 23"
  by (simp add: frac32_def)

lemma exp32_lt: "exp32 a < 256"
  by (simp add: exp32_def)

lemma unat_take_bit: "unat (take_bit n a) = unat (a :: 'a::len word) mod 2 ^ n"
  by (simp only: unsigned_take_bit_eq) (simp add: take_bit_eq_mod)

lemma extract_frac: "unat (extractFloat32Frac a) = frac32 a"
proof -
  have "extractFloat32Frac a = take_bit 23 a" by (simp add: extractFloat32Frac_def take_bit_eq_mask mask_numeral)
  then show ?thesis by (simp only: frac32_def unat_take_bit)
qed

lemma extract_exp: "extractFloat32Exp a = int (exp32 a)"
proof -
  have "extractFloat32Exp a = uint (take_bit 8 (drop_bit 23 a))"
    by (simp add: extractFloat32Exp_def take_bit_eq_mask mask_numeral)
  also have "\<dots> = int (unat (take_bit 8 (drop_bit 23 a)))" by simp
  also have "unat (take_bit 8 (drop_bit 23 a)) = exp32 a"
    by (simp only: unat_take_bit unat_drop_bit exp32_def)
  finally show ?thesis .
qed

lemma extract_sign: "extractFloat32Sign a \<longleftrightarrow> 2 ^ 31 \<le> unat a"
proof -
  have "drop_bit 31 a = 0 \<longleftrightarrow> unat (drop_bit 31 a) = 0" by (simp add: unat_eq_0)
  then show ?thesis by (simp add: extractFloat32Sign_def unat_drop_bit div_eq_0_iff not_less)
qed

lemma unat_split: "unat a = of_bool (extractFloat32Sign a) * 2 ^ 31 + exp32 a * 2 ^ 23 + frac32 a"
proof -
  have 1: "unat a = unat a div 2 ^ 23 * 2 ^ 23 + frac32 a" by (simp add: frac32_def)
  have "unat a div 2 ^ 23 = unat a div 2 ^ 23 div 2 ^ 8 * 2 ^ 8 + exp32 a" by (simp only: exp32_def div_mult_mod_eq)
  also have "unat a div 2 ^ 23 div 2 ^ 8 = unat a div 2 ^ 31" by (simp add: div_mult2_eq [symmetric])
  also have "unat a div 2 ^ 31 = of_bool (extractFloat32Sign a)"
    unfolding extract_sign using unat32_lt [of a] by (auto simp: div_eq_0_iff not_le intro: div_nat_eqI)
  finally show ?thesis using 1 by simp
qed

text \<open>Assembling a pattern.\<close>

lemma fields_of:
  assumes "unat a = of_bool s * 2 ^ 31 + e * 2 ^ 23 + f" "e < 256" "f < 2 ^ 23"
  shows "extractFloat32Sign a \<longleftrightarrow> s" "exp32 a = e" "frac32 a = f"
proof -
  have u: "unat a = (of_bool s * 2 ^ 8 + e) * 2 ^ 23 + f" using assms(1) by simp
  have d: "unat a div 2 ^ 23 = of_bool s * 2 ^ 8 + e"
    unfolding u by (rule div_nat_eqI) (use assms(3) in simp_all)
  have f: "unat a mod 2 ^ 23 = f" unfolding u using assms(3) by (simp only: mod_mult_self3 mod_less)
  show "frac32 a = f" unfolding frac32_def by (rule f)
  show "exp32 a = e" unfolding exp32_def d using assms(2) by (cases s) simp_all
  show "extractFloat32Sign a \<longleftrightarrow> s" using assms(2,3) unfolding extract_sign u by (cases s) simp_all
qed

lemma pack_unat:
  assumes "e * 2 ^ 23 + unat z < 2 ^ 31"
  shows "unat (packFloat32 s (int e) z) = of_bool s * 2 ^ 31 + (e * 2 ^ 23 + unat z)"
proof -
  have "unat (push_bit 23 (word_of_int (int e) :: u32)) = e * 2 ^ 23"
    using assms by (simp add: unat_push_bit_eq unat_of_nat)
  moreover have "unat (push_bit 31 (of_bool s) :: u32) = of_bool s * 2 ^ 31" by simp
  ultimately show ?thesis using assms
    unfolding packFloat32_def by (cases s) (simp_all add: unat_word_ariths)
qed

lemma pack_mag:
  assumes m: "unat z \<le> 2 ^ 24" "2 ^ 23 \<le> unat z \<or> e = 0" and e: "e \<le> 253" "e = 253 \<longrightarrow> unat z < 2 ^ 24"
  shows "extractFloat32Sign (packFloat32 s (int e) z) \<longleftrightarrow> s" "mag (packFloat32 s (int e) z) = unat z * 2 ^ e"
    "finite32 (packFloat32 s (int e) z)" "even (unat (packFloat32 s (int e) z)) \<longleftrightarrow> even (unat z)"
proof -
  have lt: "e * 2 ^ 23 + unat z < 2 ^ 31"
  proof (cases "e = 253")
    case False
    then have "e \<le> 252" using e by simp
    then show ?thesis using m by simp
  qed (use e in simp)
  note u = pack_unat [OF lt, of s]
  show "even (unat (packFloat32 s (int e) z)) \<longleftrightarrow> even (unat z)" unfolding u by (cases s) simp_all
  consider "unat z < 2 ^ 23" "e = 0" | "2 ^ 23 \<le> unat z" "unat z < 2 ^ 24" | "unat z = 2 ^ 24" "e \<le> 252"
    using m e by fastforce
  then have "(extractFloat32Sign (packFloat32 s (int e) z) \<longleftrightarrow> s) \<and> mag (packFloat32 s (int e) z) = unat z * 2 ^ e \<and>
    finite32 (packFloat32 s (int e) z)"
  proof cases
    case 1
    then have "unat (packFloat32 s (int e) z) = of_bool s * 2 ^ 31 + 0 * 2 ^ 23 + unat z" using u by simp
    from fields_of [OF this] 1 show ?thesis by (simp add: mag_def finite32_def)
  next
    case 2
    then have "unat (packFloat32 s (int e) z) = of_bool s * 2 ^ 31 + (e + 1) * 2 ^ 23 + (unat z - 2 ^ 23)" using u by simp
    from fields_of [OF this] 2 e show ?thesis by (simp add: mag_def finite32_def)
  next
    case 3
    then have "unat (packFloat32 s (int e) z) = of_bool s * 2 ^ 31 + (e + 2) * 2 ^ 23 + 0" using u by simp
    from fields_of [OF this] 3 show ?thesis by (simp add: mag_def finite32_def)
  qed
  then show "extractFloat32Sign (packFloat32 s (int e) z) \<longleftrightarrow> s" "mag (packFloat32 s (int e) z) = unat z * 2 ^ e"
    "finite32 (packFloat32 s (int e) z)" by simp_all
qed

section \<open>Rounding a quotient to an integer\<close>

text \<open>The rounding of the magnitude p / q of a number with sign s.\<close>

definition round_rat :: "int \<Rightarrow> bool \<Rightarrow> nat \<Rightarrow> nat \<Rightarrow> nat" where
  "round_rat mode s p q =
     (let d = p div q; r = p mod q
      in if mode = float_round_nearest_even then if 2 * r < q \<or> 2 * r = q \<and> even d then d else d + 1
         else if mode = float_round_to_zero then d
         else if s then if mode = float_round_up \<or> r = 0 then d else d + 1
         else if mode = float_round_down \<or> r = 0 then d else d + 1)"

text \<open>
  z stands for the quotient p / q up to the position 2^j: they are equal, or both lie strictly
  between the same two neighbouring multiples of 2^j.
\<close>

definition stands_for :: "nat \<Rightarrow> nat \<Rightarrow> nat \<Rightarrow> nat \<Rightarrow> bool" where
  "stands_for j z p q \<longleftrightarrow> 0 < q \<and> (z * q = p \<or>
     (\<exists>i. i * 2 ^ j < z \<and> z < (i + 1) * 2 ^ j \<and> i * 2 ^ j * q < p \<and> p < (i + 1) * 2 ^ j * q))"

lemma stands_exact: "0 < q \<Longrightarrow> stands_for j z (z * q) q"
  by (simp add: stands_for_def)

lemma stands_scale:
  assumes "stands_for j z p q"
  shows "stands_for (j + c) (z * 2 ^ c) (p * 2 ^ c) q"
proof (cases "z * q = p")
  case True
  have "z * 2 ^ c * q = z * q * 2 ^ c" by (simp only: ac_simps)
  also have "\<dots> = p * 2 ^ c" by (simp only: True)
  finally have "z * 2 ^ c * q = p * 2 ^ c" .
  then show ?thesis using assms by (simp add: stands_for_def)
next
  case False
  then obtain i where i: "i * 2 ^ j < z" "z < (i + 1) * 2 ^ j" "i * 2 ^ j * q < p" "p < (i + 1) * 2 ^ j * q"
    and q: "0 < q" using assms unfolding stands_for_def by blast
  have e: "i * 2 ^ (j + c) = i * 2 ^ j * 2 ^ c" "(i + 1) * 2 ^ (j + c) = (i + 1) * 2 ^ j * 2 ^ c"
    "i * 2 ^ (j + c) * q = i * 2 ^ j * q * 2 ^ c" "(i + 1) * 2 ^ (j + c) * q = (i + 1) * 2 ^ j * q * 2 ^ c"
    by (simp_all only: power_add ac_simps)
  have "i * 2 ^ (j + c) < z * 2 ^ c" "z * 2 ^ c < (i + 1) * 2 ^ (j + c)"
    unfolding e(1,2) using i by (intro mult_strict_right_mono; simp)+
  moreover have "i * 2 ^ (j + c) * q < p * 2 ^ c" "p * 2 ^ c < (i + 1) * 2 ^ (j + c) * q"
    unfolding e(3,4) using i by (intro mult_strict_right_mono; simp)+
  ultimately show ?thesis using q unfolding stands_for_def by blast
qed

lemma stands_mono:
  assumes "stands_for j z p q" "j \<le> k"
  shows "stands_for k z p q"
proof (cases "z * q = p")
  case False
  then obtain i where i: "i * 2 ^ j < z" "z < (i + 1) * 2 ^ j" "i * 2 ^ j * q < p" "p < (i + 1) * 2 ^ j * q"
    and q: "0 < q" using assms(1) unfolding stands_for_def by blast
  define c where "c = k - j"
  then have k: "(2::nat) ^ k = 2 ^ c * 2 ^ j" using assms(2) by (simp flip: power_add)
  define h where "h = i div 2 ^ c"
  have lo: "h * 2 ^ c \<le> i" unfolding h_def by simp
  have "i < (h + 1) * 2 ^ c" unfolding h_def using dividend_less_div_times [of "2 ^ c" i] by simp
  then have hi: "i + 1 \<le> (h + 1) * 2 ^ c" by simp
  have "h * 2 ^ k \<le> i * 2 ^ j" "(i + 1) * 2 ^ j \<le> (h + 1) * 2 ^ k"
    unfolding k using mult_le_mono1 [OF lo, of "2 ^ j"] mult_le_mono1 [OF hi, of "2 ^ j"] by (simp_all only: mult.assoc)
  moreover from this have "h * 2 ^ k * q \<le> i * 2 ^ j * q" "(i + 1) * 2 ^ j * q \<le> (h + 1) * 2 ^ k * q"
    by (simp_all only: mult_le_mono1)
  ultimately have "h * 2 ^ k < z" "z < (h + 1) * 2 ^ k" "h * 2 ^ k * q < p" "p < (h + 1) * 2 ^ k * q"
    using i by linarith+
  then show ?thesis using q unfolding stands_for_def by blast
qed (use assms in \<open>auto simp: stands_for_def\<close>)

lemma round_rat_scale: "0 < c \<Longrightarrow> round_rat mode s (p * c) (q * c) = round_rat mode s p q"
  by (simp add: round_rat_def mod_mult_mult2 Let_def mult.assoc [symmetric] del: mult_Suc_right)

text \<open>Rounding sees the quotient only through its floor and the place of the remainder.\<close>

lemma round_rat_cong:
  assumes "p div q = p' div q'" "p mod q = 0 \<longleftrightarrow> p' mod q' = 0"
    "2 * (p mod q) < q \<longleftrightarrow> 2 * (p' mod q') < q'" "2 * (p mod q) = q \<longleftrightarrow> 2 * (p' mod q') = q'"
  shows "round_rat mode s p q = round_rat mode s p' q'"
  using assms by (simp add: round_rat_def Let_def)

lemma stands_round:
  assumes st: "stands_for j z p q" and j: "j < k"
  shows "round_rat mode s z (2 ^ k) = round_rat mode s p (q * 2 ^ k)"
proof (cases "z * q = p")
  case True
  then show ?thesis
    using round_rat_scale [of q mode s z "2 ^ k"] st by (simp add: stands_for_def mult.commute)
next
  case False
  obtain l where l: "k = Suc l" using j by (cases k) auto
  define h :: nat where "h = 2 ^ l"
  have "stands_for l z p q" using stands_mono [OF st] j l by simp
  then obtain i where i: "i * h < z" "z < (i + 1) * h" "i * h * q < p" "p < (i + 1) * h * q"
    and q: "0 < q" using False unfolding stands_for_def h_def by blast
  have k: "2 ^ k = 2 * h" by (simp add: l h_def)
  have h: "0 < h" by (simp add: h_def)
  define t where "t = z - i * h"
  define u where "u = p - i * h * q"
  have z: "z = i * h + t" "0 < t" "t < h" using i by (simp_all add: t_def)
  have p: "p = i * h * q + u" "0 < u" "u < h * q" using i by (simp_all add: u_def distrib_right)
  define Q where "Q = q * (2 * h)"
  have Q: "Q = h * q + h * q" by (simp add: Q_def)
  obtain d where "i = 2 * d \<or> i = 2 * d + 1" by (metis oddE evenE)
  then show ?thesis
  proof
    assume d: "i = 2 * d"
    have zd: "z = t + d * (2 * h)" using z(1) by (simp add: d)
    have pd: "p = u + d * Q" using p(1) by (simp add: d Q_def)
    have "z div (2 * h) = d" "z mod (2 * h) = t"
      unfolding zd using z(2,3) by simp_all
    moreover have "u < Q" using p(3) Q by linarith
    then have "p div Q = d" "p mod Q = u" unfolding pd by simp_all
    ultimately show ?thesis unfolding k Q_def [symmetric] using z(2,3) p(2,3) Q
      by (intro round_rat_cong) linarith+
  next
    assume d: "i = 2 * d + 1"
    have zd: "z = (h + t) + d * (2 * h)" using z(1) by (simp add: d)
    have pd: "p = (h * q + u) + d * Q" using p(1) by (simp add: d Q_def algebra_simps)
    have "z div (2 * h) = d" "z mod (2 * h) = h + t"
      unfolding zd using z(2,3) by simp_all
    moreover have "h * q + u < Q" using p(3) Q by linarith
    then have "p div Q = d" "p mod Q = h * q + u" unfolding pd by simp_all
    ultimately show ?thesis unfolding k Q_def [symmetric] using z(2,3) p(2,3) Q
      by (intro round_rat_cong) linarith+
  qed
qed

lemma stands_exact_iff:
  assumes st: "stands_for j z p q" and j: "j \<le> k"
  shows "z mod 2 ^ k = 0 \<longleftrightarrow> p mod (q * 2 ^ k) = 0"
proof (cases "z * q = p")
  case True
  have "p mod (q * 2 ^ k) = q * (z mod 2 ^ k)"
    using True by (simp only: mult.commute [of z] mult_mod_right flip: True)
  then show ?thesis using st by (simp add: stands_for_def)
next
  case False
  obtain i where i: "i * 2 ^ k < z" "z < (i + 1) * 2 ^ k" "i * 2 ^ k * q < p" "p < (i + 1) * 2 ^ k * q"
    using stands_mono [OF st j] False unfolding stands_for_def by blast
  have no: "\<not> (m * w < a \<and> a < (m + 1) * w \<and> w dvd a)" for m w a :: nat
  proof
    assume a: "m * w < a \<and> a < (m + 1) * w \<and> w dvd a"
    then obtain x where "a = w * x" by blast
    with a have "m * w < x * w" "x * w < (m + 1) * w" by (simp_all add: mult.commute)
    then have "m < x" "x < m + 1" by (simp_all only: mult_less_cancel2)
    then show False by simp
  qed
  have "\<not> 2 ^ k dvd z" using no i(1,2) by blast
  moreover have "\<not> q * 2 ^ k dvd p" using no [of i "q * 2 ^ k" p] i(3,4) by (simp only: ac_simps) blast
  ultimately show ?thesis by (simp add: dvd_eq_mod_eq_0)
qed

lemma stands_add:
  assumes "stands_for j z p q" "2 ^ j dvd x"
  shows "stands_for j (x + z) (x * q + p) q"
proof (cases "z * q = p")
  case True
  then have "(x + z) * q = x * q + p" by (simp add: distrib_right)
  then show ?thesis using assms(1) by (simp add: stands_for_def)
next
  case False
  then obtain i where i: "i * 2 ^ j < z" "z < (i + 1) * 2 ^ j" "i * 2 ^ j * q < p" "p < (i + 1) * 2 ^ j * q"
    and q: "0 < q" using assms(1) unfolding stands_for_def by blast
  obtain y where y: "x = y * 2 ^ j" using assms(2) by (metis dvdE mult.commute)
  have "(y + i) * 2 ^ j < x + z" "x + z < (y + i + 1) * 2 ^ j"
    "(y + i) * 2 ^ j * q < x * q + p" "x * q + p < (y + i + 1) * 2 ^ j * q"
    using i unfolding y by (simp_all add: algebra_simps)
  then show ?thesis using q unfolding stands_for_def by blast
qed

lemma stands_sub:
  assumes "stands_for j z p q" "2 ^ j dvd x" "z \<le> x"
  shows "stands_for j (x - z) (x * q - p) q"
proof (cases "z * q = p")
  case True
  then have "(x - z) * q = x * q - p" by (simp add: diff_mult_distrib)
  then show ?thesis using assms(1) by (simp add: stands_for_def)
next
  case False
  then obtain i where i: "i * 2 ^ j < z" "z < (i + 1) * 2 ^ j" "i * 2 ^ j * q < p" "p < (i + 1) * 2 ^ j * q"
    and q: "0 < q" using assms(1) unfolding stands_for_def by blast
  obtain y where y: "x = y * 2 ^ j" using assms(2) by (metis dvdE mult.commute)
  have "i * 2 ^ j < y * 2 ^ j" using i(1) assms(3) unfolding y by (rule less_le_trans)
  then have "i < y" by simp
  then obtain n where n: "y = Suc (i + n)" by (auto simp: less_iff_Suc_add)
  have "n * 2 ^ j < x - z" "x - z < (n + 1) * 2 ^ j"
    "n * 2 ^ j * q < x * q - p" "x * q - p < (n + 1) * 2 ^ j * q"
    using i unfolding y n by (simp_all add: algebra_simps)
  then show ?thesis using q unfolding stands_for_def by blast
qed

lemma jam_stands: "stands_for 1 (jam x c) x (2 ^ c)"
proof (cases "x mod 2 ^ c = 0")
  case True
  then have "x div 2 ^ c * 2 ^ c = x" by (metis add.right_neutral div_mult_mod_eq)
  then show ?thesis using True by (simp add: stands_for_def jam_def)
next
  case False
  define d where "d = x div 2 ^ c"
  define i where "i = d div 2"
  have z: "jam x c = 2 * i + 1" using False by (simp add: jam_def i_def or_Suc_0_eq flip: d_def)
  have d: "2 * i \<le> d" "d + 1 \<le> 2 * i + 2" by (simp_all add: i_def)
  have x: "x = d * 2 ^ c + x mod 2 ^ c" by (simp only: d_def div_mult_mod_eq)
  have m: "0 < x mod 2 ^ c" "x mod 2 ^ c < 2 ^ c" using False by simp_all
  have "2 * i * 2 ^ c \<le> d * 2 ^ c" using d(1) by (rule mult_le_mono1)
  moreover have "d * 2 ^ c + 2 ^ c \<le> 2 * i * 2 ^ c + 2 * 2 ^ c"
    using mult_le_mono1 [OF d(2), of "2 ^ c"] by (simp only: distrib_right mult_1)
  moreover have "i * 2 * 2 ^ c = 2 * i * 2 ^ c" "(i + 1) * 2 * 2 ^ c = 2 * i * 2 ^ c + 2 * 2 ^ c"
    by simp_all
  ultimately have "i * 2 * 2 ^ c < x" "x < (i + 1) * 2 * 2 ^ c"
    using x m by linarith+
  then show ?thesis unfolding stands_for_def z power_one_right
    by (intro conjI disjI2 exI [of _ i]) simp_all
qed

section \<open>Correct rounding\<close>

text \<open>
  r is the correctly rounded single precision number for the exact value n / d, in units of 2^-149:
  among all finite numbers it is a nearest one, with an even significand when there are two, or the
  largest not above, the smallest not below, or the largest one not above in magnitude.
\<close>

definition rounded :: "int \<Rightarrow> int \<Rightarrow> int \<Rightarrow> u32 \<Rightarrow> bool" where
  "rounded mode n d r \<longleftrightarrow> finite32 r \<and>
     (if mode = float_round_nearest_even then
        \<forall>c. finite32 c \<longrightarrow> \<bar>fval r * d - n\<bar> \<le> \<bar>fval c * d - n\<bar> \<and>
          (\<bar>fval c * d - n\<bar> = \<bar>fval r * d - n\<bar> \<and> fval c \<noteq> fval r \<longrightarrow> even (unat r))
      else if mode = float_round_down then
        fval r * d \<le> n \<and> (\<forall>c. finite32 c \<and> fval c * d \<le> n \<longrightarrow> fval c \<le> fval r)
      else if mode = float_round_up then
        n \<le> fval r * d \<and> (\<forall>c. finite32 c \<and> n \<le> fval c * d \<longrightarrow> fval r \<le> fval c)
      else
        \<bar>fval r\<bar> * d \<le> \<bar>n\<bar> \<and> 0 \<le> fval r * n \<and> (\<forall>c. finite32 c \<and> \<bar>fval c\<bar> * d \<le> \<bar>n\<bar> \<longrightarrow> \<bar>fval c\<bar> \<le> \<bar>fval r\<bar>))"

lemma float_grid: "2 ^ e dvd mag c \<or> mag c < 2 ^ (23 + e)"
proof (cases "exp32 c = 0")
  case True
  have "frac32 c < 2 ^ 23" by (rule frac32_lt)
  also have "\<dots> \<le> 2 ^ (23 + e)" by (rule power_increasing) simp_all
  finally show ?thesis using True by (simp add: mag_def)
next
  case False
  define k where "k = exp32 c - 1"
  have m: "mag c = (2 ^ 23 + frac32 c) * 2 ^ k" using False by (simp add: mag_def k_def)
  show ?thesis
  proof (cases "e \<le> k")
    case True
    then have "(2::nat) ^ e dvd 2 ^ k" by (rule le_imp_power_dvd)
    then show ?thesis unfolding m by simp
  next
    case False
    have "mag c < 2 ^ 24 * 2 ^ k" unfolding m using frac32_lt [of c] by (intro mult_strict_right_mono) simp_all
    also have "\<dots> = 2 ^ (24 + k)" by (simp only: power_add)
    also have "\<dots> \<le> 2 ^ (23 + e)" using False by (intro power_increasing) simp_all
    finally show ?thesis ..
  qed
qed

lemma round_nearest_opt:
  fixes j :: int
  assumes Q: "0 < Q" and m: "m = round_rat 0 s p Q"
  shows "\<bar>int m * int Q - int p\<bar> \<le> \<bar>j * int Q - int p\<bar> \<and>
    (\<bar>j * int Q - int p\<bar> = \<bar>int m * int Q - int p\<bar> \<and> j \<noteq> int m \<longrightarrow> even m)"
proof -
  define d where "d = p div Q"
  define r where "r = p mod Q"
  have p: "int p = int d * int Q + int r"
    unfolding d_def r_def by (metis div_mult_mod_eq of_nat_add of_nat_mult)
  have r: "r < Q" unfolding r_def using Q by simp
  have m': "m = (if 2 * r < Q \<or> 2 * r = Q \<and> even d then d else d + 1)"
    unfolding m round_rat_def by (simp add: d_def r_def Let_def)
  have mQ: "\<bar>int m * int Q - int p\<bar> = (if m = d then int r else int Q - int r)"
    using r unfolding m' p by (auto simp: distrib_right)
  consider "j = int d" | "j = int d + 1" | "j \<le> int d - 1" | "int d + 2 \<le> j" by linarith
  then show ?thesis
  proof cases
    case 1
    then show ?thesis unfolding mQ using m' r p by (auto simp: algebra_simps)
  next
    case 2
    then have "\<bar>j * int Q - int p\<bar> = int Q - int r" using r p by (simp add: distrib_right)
    then show ?thesis unfolding mQ using 2 m' r by (auto split: if_splits)
  next
    case 3
    then have "j * int Q \<le> (int d - 1) * int Q" by (rule mult_right_mono) simp
    then have "j * int Q \<le> int d * int Q - int Q" by (simp add: left_diff_distrib)
    then have "int r + int Q \<le> \<bar>j * int Q - int p\<bar>" using p by simp
    then show ?thesis unfolding mQ using r m' Q by (auto split: if_splits)
  next
    case 4
    then have "(int d + 2) * int Q \<le> j * int Q" by (intro mult_right_mono) simp_all
    then have "int d * int Q + 2 * int Q \<le> j * int Q" by (simp add: distrib_right)
    then have "2 * int Q - int r \<le> \<bar>j * int Q - int p\<bar>" using p by simp
    then show ?thesis unfolding mQ using r by (auto split: if_splits)
  qed
qed

lemma round_dir_opt:
  fixes j :: int
  assumes Q: "0 < Q"
  shows "int (p div Q) * int Q \<le> int p" "j * int Q \<le> int p \<Longrightarrow> j \<le> int (p div Q)"
    "int p \<le> int (if p mod Q = 0 then p div Q else p div Q + 1) * int Q"
    "int p \<le> j * int Q \<Longrightarrow> int (if p mod Q = 0 then p div Q else p div Q + 1) \<le> j"
proof -
  define d where "d = p div Q"
  define r where "r = p mod Q"
  have p: "int p = int d * int Q + int r"
    unfolding d_def r_def by (metis div_mult_mod_eq of_nat_add of_nat_mult)
  have r: "r < Q" unfolding r_def using Q by simp
  show "int (p div Q) * int Q \<le> int p" using p by (simp flip: d_def)
  show "j \<le> int (p div Q)" if "j * int Q \<le> int p"
  proof -
    have "j * int Q < (int d + 1) * int Q" using that p r by (simp add: distrib_right)
    then show ?thesis using Q by (simp flip: d_def)
  qed
  show "int p \<le> int (if p mod Q = 0 then p div Q else p div Q + 1) * int Q"
    using p r by (simp add: distrib_right flip: d_def r_def)
  show "int (if p mod Q = 0 then p div Q else p div Q + 1) \<le> j" if "int p \<le> j * int Q"
  proof (cases "r = 0")
    case True
    then have "int d * int Q \<le> j * int Q" using that p by simp
    then show ?thesis using Q True by (simp flip: d_def r_def)
  next
    case False
    then have "int d * int Q < j * int Q" using that p by simp
    then show ?thesis using Q False by (simp flip: d_def r_def)
  qed
qed

text \<open>
  The grid of spacing 2^e around the quotient p / q, and a candidate y: not positive, on the grid,
  or below the binade of the quotient.
\<close>

definition on_grid :: "nat \<Rightarrow> int \<Rightarrow> bool" where
  "on_grid e y \<longleftrightarrow> y \<le> 0 \<or> (\<exists>j. y = j * 2 ^ e) \<or> y < 2 ^ (23 + e)"

lemma fval_on_grid: "on_grid e (fval c)" "on_grid e (- fval c)" "on_grid e \<bar>fval c\<bar>"
proof -
  have "(\<exists>j. int (mag c) = j * 2 ^ e) \<or> int (mag c) < 2 ^ (23 + e)"
  proof (cases "2 ^ e dvd mag c")
    case True
    then obtain k where "mag c = 2 ^ e * k" by blast
    then have "int (mag c) = int k * 2 ^ e" by simp
    then show ?thesis by blast
  next
    case False
    then have "mag c < 2 ^ (23 + e)" using float_grid [of e c] by blast
    then have "int (mag c) < int (2 ^ (23 + e))" by (simp only: of_nat_less_iff)
    then show ?thesis by simp
  qed
  then show "on_grid e (fval c)" "on_grid e (- fval c)" "on_grid e \<bar>fval c\<bar>"
    unfolding on_grid_def fval_def by auto
qed

lemma on_grid_cases:
  assumes "on_grid e y"
  obtains (grid) j where "y = j * 2 ^ e" | (neg) "y < 0" | (small) "e \<noteq> 0" "0 < y" "y < 2 ^ (23 + e)"
proof -
  consider "y < 0" | "y = 0 * 2 ^ e" | "e = 0" "y = y * 2 ^ e" | "e \<noteq> 0" "0 < y" by force
  then show thesis
  proof cases
    case 4
    then show thesis using assms grid small unfolding on_grid_def by fastforce
  qed (rule neg grid; assumption)+
qed

lemma grid_int: "j * int (q * 2 ^ e) = j * 2 ^ e * int q"
  by simp

lemma grid_nearest:
  assumes q: "0 < q" and bin: "e = 0 \<or> q * 2 ^ (23 + e) \<le> p" and m: "m = round_rat 0 s p (q * 2 ^ e)"
    and y: "on_grid e y"
  shows "\<bar>int m * 2 ^ e * int q - int p\<bar> \<le> \<bar>y * int q - int p\<bar> \<and>
    (\<bar>y * int q - int p\<bar> = \<bar>int m * 2 ^ e * int q - int p\<bar> \<and> y \<noteq> int m * 2 ^ e \<longrightarrow> even m)"
proof -
  have Q: "0 < q * 2 ^ e" using q by simp
  have opt: "\<bar>int m * 2 ^ e * int q - int p\<bar> \<le> \<bar>j * 2 ^ e * int q - int p\<bar> \<and>
      (\<bar>j * 2 ^ e * int q - int p\<bar> = \<bar>int m * 2 ^ e * int q - int p\<bar> \<and> j \<noteq> int m \<longrightarrow> even m)" for j
    using round_nearest_opt [OF Q m, of j] unfolding grid_int .
  from y show ?thesis
  proof (cases rule: on_grid_cases)
    case (grid j)
    then show ?thesis using opt [of j] by auto
  next
    case neg
    then have "y * int q < 0" using q by (simp add: mult_neg_pos)
    then have "int p < \<bar>y * int q - int p\<bar>" by simp
    moreover have "\<bar>int m * 2 ^ e * int q - int p\<bar> \<le> int p" using opt [of 0] by simp
    ultimately show ?thesis by linarith
  next
    case small
    have "y * int q < 2 ^ (23 + e) * int q" using small q by (intro mult_strict_right_mono) simp_all
    moreover have "2 ^ (23 + e) * int q \<le> int p"
    proof -
      have "int (q * 2 ^ (23 + e)) \<le> int p" using bin small by (simp only: of_nat_le_iff) blast
      then show ?thesis by (simp add: mult.commute)
    qed
    ultimately have "\<bar>2 ^ (23 + e) * int q - int p\<bar> < \<bar>y * int q - int p\<bar>" by linarith
    moreover have "\<bar>int m * 2 ^ e * int q - int p\<bar> \<le> \<bar>2 ^ (23 + e) * int q - int p\<bar>"
      using opt [of "2 ^ 23"] by (simp add: power_add)
    ultimately show ?thesis by linarith
  qed
qed

lemma grid_trunc:
  assumes q: "0 < q" and bin: "e = 0 \<or> q * 2 ^ (23 + e) \<le> p" and m: "m = p div (q * 2 ^ e)"
  shows "int m * 2 ^ e * int q \<le> int p" "on_grid e y \<Longrightarrow> y * int q \<le> int p \<Longrightarrow> y \<le> int m * 2 ^ e"
proof -
  have Q: "0 < q * 2 ^ e" using q by simp
  show "int m * 2 ^ e * int q \<le> int p"
    using round_dir_opt(1) [OF Q, of p] unfolding m grid_int .
  assume y: "on_grid e y" and le: "y * int q \<le> int p"
  from y show "y \<le> int m * 2 ^ e"
  proof (cases rule: on_grid_cases)
    case (grid j)
    then have "j \<le> int m"
      using round_dir_opt(2) [OF Q, of j p] le unfolding m grid_int by simp
    then show ?thesis using grid by simp
  next
    case neg
    moreover have "0 \<le> int m * 2 ^ e" by simp
    ultimately show ?thesis by linarith
  next
    case small
    have "2 ^ 23 * (q * 2 ^ e) \<le> p" using bin small by (simp add: power_add ac_simps)
    then have "2 ^ 23 \<le> m" unfolding m using Q by (simp add: less_eq_div_iff_mult_less_eq)
    then have "(2::int) ^ 23 \<le> int m" by simp
    then have "2 ^ 23 * 2 ^ e \<le> int m * 2 ^ e" by (intro mult_right_mono) simp_all
    then show ?thesis using small(3) unfolding power_add by linarith
  qed
qed

lemma grid_away:
  assumes q: "0 < q" and bin: "e = 0 \<or> q * 2 ^ (23 + e) \<le> p"
    and m: "m = (if p mod (q * 2 ^ e) = 0 then p div (q * 2 ^ e) else p div (q * 2 ^ e) + 1)"
  shows "int p \<le> int m * 2 ^ e * int q" "on_grid e y \<Longrightarrow> int p \<le> y * int q \<Longrightarrow> int m * 2 ^ e \<le> y"
proof -
  have Q: "0 < q * 2 ^ e" using q by simp
  show "int p \<le> int m * 2 ^ e * int q"
    using round_dir_opt(3) [OF Q, of p] unfolding m [symmetric] grid_int .
  assume y: "on_grid e y" and le: "int p \<le> y * int q"
  from y show "int m * 2 ^ e \<le> y"
  proof (cases rule: on_grid_cases)
    case (grid j)
    then have "int m \<le> j"
      using round_dir_opt(4) [OF Q, of p j] le unfolding m [symmetric] grid_int by simp
    then show ?thesis using grid by simp
  next
    case neg
    then have "y * int q < 0" using q by (simp add: mult_neg_pos)
    then show ?thesis using le by simp
  next
    case small
    have "y * int q < 2 ^ (23 + e) * int q" using small q by (intro mult_strict_right_mono) simp_all
    moreover have "int (q * 2 ^ (23 + e)) \<le> int p" using bin small by (simp only: of_nat_le_iff) blast
    ultimately show ?thesis using le by (simp add: mult.commute)
  qed
qed

lemma round_rat_dir:
  "round_rat 3 s p q = p div q" "round_rat 1 False p q = p div q" "round_rat 2 True p q = p div q"
  "round_rat 1 True p q = (if p mod q = 0 then p div q else p div q + 1)"
  "round_rat 2 False p q = (if p mod q = 0 then p div q else p div q + 1)"
  by (simp_all add: round_rat_def)

lemma rounded_intro:
  assumes q: "0 < q" and bin: "e = 0 \<or> q * 2 ^ (23 + e) \<le> p" and mode: "mode \<in> {0, 1, 2, 3}"
    and m: "m = round_rat mode s p (q * 2 ^ e)" and fin: "finite32 r"
    and sg: "extractFloat32Sign r \<longleftrightarrow> s" and mg: "mag r = m * 2 ^ e" and ev: "even (unat r) \<longleftrightarrow> even m"
  shows "rounded mode (if s then - int p else int p) (int q) r"
proof -
  note near = grid_nearest [OF q bin] and trunc = grid_trunc [OF q bin] and away = grid_away [OF q bin]
  have M: "int (mag r) = int m * 2 ^ e" by (simp add: mg)
  have M0: "0 \<le> int m * 2 ^ e" by simp
  have neg: "\<bar>- x * int q - - int p\<bar> = \<bar>x * int q - int p\<bar>" for x
    by (simp add: abs_minus_commute)
  consider "mode = 0" | "mode = 1" | "mode = 2" | "mode = 3" using mode by blast
  then show ?thesis
  proof cases
    case 1
    note n = near [OF m [unfolded 1] fval_on_grid(1)] near [OF m [unfolded 1] fval_on_grid(2)]
    show ?thesis
    proof (cases s)
      case False
      then have r: "fval r = int m * 2 ^ e" by (simp add: fval_def sg M)
      show ?thesis unfolding rounded_def r using 1 False fin ev n(1) by simp
    next
      case True
      then have r: "fval r = - (int m * 2 ^ e)" by (simp add: fval_def sg M)
      have "\<bar>- (int m * 2 ^ e) * int q - - int p\<bar> \<le> \<bar>fval c * int q - - int p\<bar> \<and>
          (\<bar>fval c * int q - - int p\<bar> = \<bar>- (int m * 2 ^ e) * int q - - int p\<bar> \<and> fval c \<noteq> - (int m * 2 ^ e) \<longrightarrow> even m)" for c
        using n(2) [of c] neg [of "int m * 2 ^ e"] neg [of "- fval c"] by (simp only: minus_minus) (auto simp: minus_equation_iff)
      then show ?thesis unfolding rounded_def r using 1 True fin ev by simp
    qed
  next
    case 2
    show ?thesis
    proof (cases s)
      case False
      then have r: "fval r = int m * 2 ^ e" by (simp add: fval_def sg M)
      have "m = p div (q * 2 ^ e)" using m 2 False by (simp add: round_rat_dir)
      from trunc [OF this] show ?thesis unfolding rounded_def r using 2 False fin fval_on_grid(1) by simp
    next
      case True
      then have r: "fval r = - (int m * 2 ^ e)" by (simp add: fval_def sg M)
      have m': "m = (if p mod (q * 2 ^ e) = 0 then p div (q * 2 ^ e) else p div (q * 2 ^ e) + 1)"
        using m 2 True by (simp add: round_rat_dir)
      have "fval c \<le> - (int m * 2 ^ e)" if "fval c * int q \<le> - int p" for c
        using away(2) [OF m' fval_on_grid(2) [of e c]] that by simp
      then show ?thesis unfolding rounded_def r using 2 True fin away(1) [OF m'] by simp
    qed
  next
    case 3
    show ?thesis
    proof (cases s)
      case True
      then have r: "fval r = - (int m * 2 ^ e)" by (simp add: fval_def sg M)
      have m': "m = p div (q * 2 ^ e)" using m 3 True by (simp add: round_rat_dir)
      have "- (int m * 2 ^ e) \<le> fval c" if "- int p \<le> fval c * int q" for c
        using trunc(2) [OF m' fval_on_grid(2) [of e c]] that by simp
      then show ?thesis unfolding rounded_def r using 3 True fin trunc(1) [OF m'] by simp
    next
      case False
      then have r: "fval r = int m * 2 ^ e" by (simp add: fval_def sg M)
      have "m = (if p mod (q * 2 ^ e) = 0 then p div (q * 2 ^ e) else p div (q * 2 ^ e) + 1)"
        using m 3 False by (simp add: round_rat_dir)
      from away [OF this] show ?thesis unfolding rounded_def r using 3 False fin fval_on_grid(1) by simp
    qed
  next
    case 4
    have m': "m = p div (q * 2 ^ e)" using m 4 by (simp add: round_rat_dir)
    have r: "fval r = (if s then - (int m * 2 ^ e) else int m * 2 ^ e)" by (simp add: fval_def sg M)
    have "\<bar>fval c\<bar> \<le> int m * 2 ^ e" if "\<bar>fval c\<bar> * int q \<le> int p" for c
      using trunc(2) [OF m' fval_on_grid(3) [of e c]] that by simp
    then show ?thesis unfolding rounded_def r using 4 fin trunc(1) [OF m'] by (cases s) simp_all
  qed
qed

text \<open>The bits of roundPack compute the rounding by 128.\<close>

lemma low7: "unat (z AND 0x7F) = unat (z :: 'a::len word) mod 128"
  using unat_and_mask [of z 7] by (simp add: mask_eq_exp_minus_1)

lemma xor_eq_0: "x XOR y = 0 \<longleftrightarrow> x = (y :: 'a::len word)"
proof
  assume "x XOR y = 0"
  then have "(x XOR y) XOR y = y" by simp
  then show "x = y" by (simp add: xor.assoc)
qed simp

lemma unat_128:
  assumes "7 < LENGTH('a::len)"
  shows "unat (0x40 :: 'a word) = 64" "unat (0x7F :: 'a word) = 127"
proof -
  have "(2::nat) ^ 7 \<le> 2 ^ LENGTH('a)" using assms by (intro power_increasing) simp_all
  then have "take_bit LENGTH('a) (64 :: nat) = 64" "take_bit LENGTH('a) (127 :: nat) = 127"
    by (simp_all add: take_bit_nat_eq_self)
  then show "unat (0x40 :: 'a word) = 64" "unat (0x7F :: 'a word) = 127"
    by (simp_all only: unsigned_numeral of_nat_id)
qed

lemma low7_half:
  assumes "7 < LENGTH('a::len)"
  shows "(z AND 0x7F) XOR 0x40 = (0 :: 'a word) \<longleftrightarrow> unat z mod 128 = 64"
  unfolding xor_eq_0 unfolding word_unat_eq_iff low7 unat_128 [OF assms] ..

lemma add_div_128:
  "(n + 64) div 128 = (if n mod 128 < 64 then n div 128 else n div 128 + 1 :: nat)"
  "(n + 127) div 128 = (if n mod 128 = 0 then n div 128 else n div 128 + 1 :: nat)"
proof -
  define d r where "d = n div 128" and "r = n mod 128"
  have n: "n = d * 128 + r" "r < 128" by (simp_all add: d_def r_def)
  show "(n + 64) div 128 = (if n mod 128 < 64 then n div 128 else n div 128 + 1)"
    unfolding d_def [symmetric] r_def [symmetric] by (rule div_nat_eqI) (use n in auto)
  show "(n + 127) div 128 = (if n mod 128 = 0 then n div 128 else n div 128 + 1)"
    unfolding d_def [symmetric] r_def [symmetric] by (rule div_nat_eqI) (use n in auto)
qed

lemma round_bits:
  fixes z :: "'a::len word"
  assumes mode: "mode \<in> {0, 1, 2, 3}" and z: "unat z + 127 < 2 ^ LENGTH('a)" "7 < LENGTH('a)"
  shows "unat (drop_bit 7 (z + roundIncrement mode s) AND NOT (of_bool ((z AND 0x7F) XOR 0x40 = 0 \<and> mode = 0)))
    = round_rat mode s (unat z) 128"
proof -
  define n where "n = unat z"
  note i = unat_128 [OF z(2)]
  have add: "unat (z + w) = n + unat w" if "unat w \<le> 127" for w
    using that z(1) by (simp add: n_def unat_word_ariths)
  have "unat (z + 0x40) = n + 64" "unat (z + 0x7F) = n + 127"
    using add [of "0x40"] add [of "0x7F"] unfolding i by simp_all
  then have near: "unat (drop_bit 7 (z + 0x40)) = (n + 64) div 128" and up: "unat (drop_bit 7 (z + 0x7F)) = (n + 127) div 128"
    by (simp_all add: unat_drop_bit)
  have even: "unat (w AND - 2) = unat w div 2 * 2" for w :: "'a word"
    using unat_and_not_mask [of w 1] by simp
  have od: "Suc (d div 2 * 2) = d" if "odd d" for d :: nat using that by (auto elim: oddE)
  show ?thesis
  proof (cases "mode = 0")
    case True
    have inc: "roundIncrement mode s = (0x40 :: 'a word)" by (simp add: True roundIncrement_def)
    show ?thesis unfolding inc low7_half [OF z(2)] n_def [symmetric] round_rat_def
      using True by (auto simp: even near add_div_128 Let_def od)
  next
    case False
    have d: "unat (drop_bit 7 z) = n div 128" by (simp add: unat_drop_bit n_def)
    show ?thesis unfolding low7_half [OF z(2)] n_def [symmetric] round_rat_def roundIncrement_def
      using False mode by (cases s) (auto simp: up d add_div_128 Let_def)
  qed
qed

lemma round_rat_ge: "p div q \<le> round_rat mode s p q"
  by (simp add: round_rat_def Let_def)

lemma round_rat_le: "round_rat mode s p q \<le> p div q + 1"
  by (simp add: round_rat_def Let_def)

lemma round_rat_bound:
  assumes "p \<le> n * q" "0 < q"
  shows "round_rat mode s p q \<le> n"
proof (cases "p div q = n")
  case True
  then have "n * q + p mod q \<le> n * q" using assms(1) div_mult_mod_eq [of p q] by simp
  then have "p mod q = 0" by simp
  then show ?thesis using True assms(2) by (simp add: round_rat_def Let_def)
next
  case False
  have "p div q \<le> n * q div q" using assms(1) by (rule div_le_mono)
  then have "p div q + 1 \<le> n" using False assms(2) by simp
  then show ?thesis using round_rat_le [of mode s p q] by linarith
qed

lemma jam_lt_pow:
  assumes "x < 2 ^ n * 2 ^ c" "0 < n"
  shows "jam x c < 2 ^ n"
proof -
  have d: "x div 2 ^ c < 2 ^ n" using assms(1) by (rule less_mult_imp_div_less)
  have "x div 2 ^ c OR Suc 0 < 2 ^ n"
  proof (cases "even (x div 2 ^ c)")
    case True
    then obtain k where k: "x div 2 ^ c = 2 * k" by blast
    obtain i where "n = Suc i" using assms(2) by (cases n) auto
    then show ?thesis using d k by (simp add: or_Suc_0_eq)
  next
    case False
    then show ?thesis using d by (simp add: or_Suc_0_eq)
  qed
  then show ?thesis using d by (simp add: jam_def)
qed

lemma jam_lt: "x < 2 ^ 31 \<Longrightarrow> jam x c < 2 ^ 31"
proof (rule jam_lt_pow)
  assume "x < 2 ^ 31"
  moreover have "(2::nat) ^ 31 * 1 \<le> 2 ^ 31 * 2 ^ c" by (intro mult_le_mono2) simp
  ultimately show "x < 2 ^ 31 * 2 ^ c" by linarith
qed simp

lemma inexact_raised: "bit (float_exception_flags (float_raise float_flag_inexact st)) 5"
  by (simp add: float_raise_def bit_simps)

lemma float_raise_mode [simp]: "float_rounding_mode (float_raise f st) = float_rounding_mode st"
  by (simp add: float_raise_def)

lemma float_raise_flush [simp]: "flush_to_zero (float_raise f st) = flush_to_zero st"
  by (simp add: float_raise_def)

lemma roundPack_val:
  assumes mode: "float_rounding_mode st \<in> {0, 1, 2, 3}" and z: "unat z < 2 ^ 31" and e: "e \<le> 253"
    and m: "m = round_rat (float_rounding_mode st) s (unat z) 128" "2 ^ 23 \<le> m \<or> e = 0" "e = 253 \<longrightarrow> m < 2 ^ 24"
    and R: "R = roundPack st s (int e) z (z AND 0x7F)"
  shows "extractFloat32Sign (fst R) \<longleftrightarrow> s" "mag (fst R) = m * 2 ^ e" "finite32 (fst R)"
    "even (unat (fst R)) \<longleftrightarrow> even m"
    "snd R = (if unat z mod 128 = 0 then st else float_raise float_flag_inexact st)"
proof -
  define w where "w = drop_bit 7 (z + roundIncrement (float_rounding_mode st) s) AND
    NOT (of_bool ((z AND 0x7F) XOR 0x40 = 0 \<and> float_rounding_mode st = 0))"
  have w: "unat w = m" unfolding w_def m(1) by (rule round_bits [OF mode]) (use z in simp_all)
  have "m \<le> unat z div 128 + 1" unfolding m(1) by (rule round_rat_le)
  also have "\<dots> \<le> 2 ^ 24" using z by simp
  finally have m24: "m \<le> 2 ^ 24" .
  have "fst R = packFloat32 s (if w = 0 then 0 else int e) w"
    unfolding R roundPack_def by (simp add: Let_def w_def)
  also have "(if w = 0 then 0 else int e) = int e" using m(2) w by auto
  finally have f: "fst R = packFloat32 s (int e) w" .
  note p = pack_mag [of w e s, unfolded w, OF m24 m(2) e m(3)]
  show "extractFloat32Sign (fst R) \<longleftrightarrow> s" "mag (fst R) = m * 2 ^ e" "finite32 (fst R)"
    "even (unat (fst R)) \<longleftrightarrow> even m" unfolding f using p by auto
  have "z AND 0x7F = 0 \<longleftrightarrow> unat z mod 128 = 0"
    unfolding word_unat_eq_iff low7 by simp
  then show "snd R = (if unat z mod 128 = 0 then st else float_raise float_flag_inexact st)"
    unfolding R roundPack_def by (simp add: Let_def)
qed

lemma sign_bit32: "sint (w :: u32) < 0 \<longleftrightarrow> 2 ^ 31 \<le> unat w"
  using sint_neg [of w] by simp

lemma no_overflow:
  assumes mode: "mode \<in> {0, 1, 2, 3}" and z: "unat z < 2 ^ 31" and m: "round_rat mode s (unat z) 128 < 2 ^ 24"
  shows "\<not> sint (z + roundIncrement mode s :: u32) < 0"
proof
  assume "sint (z + roundIncrement mode s) < 0"
  then have lo: "2 ^ 31 \<le> unat (z + roundIncrement mode s)" by (simp only: sign_bit32)
  have "unat (roundIncrement mode s :: u32) \<le> 127" by (simp add: roundIncrement_def)
  then have "unat (z + roundIncrement mode s) < 2 ^ 31 + 127" using z by (simp add: unat_word_ariths)
  then have "unat (z + roundIncrement mode s) div 128 = 2 ^ 24"
    using lo by (intro div_nat_eqI) simp_all
  then have d: "unat (drop_bit 7 (z + roundIncrement mode s)) = 2 ^ 24" by (simp add: unat_drop_bit)
  have "unat (w AND - 2) = unat w div 2 * 2" for w :: u32
    using unat_and_not_mask [of w 1] by simp
  then have "unat (drop_bit 7 (z + roundIncrement mode s) AND NOT (of_bool b)) = 2 ^ 24" for b
    using d by (cases b) simp_all
  then have "round_rat mode s (unat z) 128 = 2 ^ 24"
    using round_bits [OF mode, of z s] z by simp
  then show False using m by simp
qed

text \<open>The largest finite magnitude.\<close>

definition max_mag :: nat where
  "max_mag = (2 ^ 24 - 1) * 2 ^ 253"

lemma stands_lower:
  assumes "stands_for j z p q" "2 ^ j dvd x" "x \<le> z"
  shows "x * q \<le> p"
proof (cases "z * q = p")
  case True
  then show ?thesis using mult_le_mono1 [OF assms(3), of q] by simp
next
  case False
  then obtain i where i: "i * 2 ^ j < z" "z < (i + 1) * 2 ^ j" "i * 2 ^ j * q < p"
    using assms(1) unfolding stands_for_def by blast
  obtain y where y: "x = y * 2 ^ j" using assms(2) by (metis dvdE mult.commute)
  have "y * 2 ^ j < (i + 1) * 2 ^ j" using i(2) assms(3) unfolding y by (rule le_less_trans [rotated])
  then have "y < i + 1" by (simp only: mult_less_cancel2)
  then have "y * 2 ^ j * q \<le> i * 2 ^ j * q" by (intro mult_le_mono1) simp
  then show ?thesis using i(3) unfolding y by linarith
qed

lemma exact_iff:
  assumes "0 < q" "m = round_rat mode s p (q * 2 ^ e)"
  shows "m * 2 ^ e * q = p \<longleftrightarrow> p mod (q * 2 ^ e) = 0"
proof
  assume "m * 2 ^ e * q = p"
  then have "p = m * (q * 2 ^ e)" by (simp add: ac_simps)
  then show "p mod (q * 2 ^ e) = 0" by simp
next
  assume z: "p mod (q * 2 ^ e) = 0"
  then have "m = p div (q * 2 ^ e)" unfolding assms(2) using assms(1) by (simp add: round_rat_def Let_def)
  then have "m * (q * 2 ^ e) = p" using z by (metis add.right_neutral div_mult_mod_eq)
  then show "m * 2 ^ e * q = p" by (simp add: ac_simps)
qed

section \<open>Rounding and packing\<close>

definition signed :: "bool \<Rightarrow> nat \<Rightarrow> int" where
  "signed s p = (if s then - int p else int p)"

text \<open>
  The result R is the correctly rounded number for the magnitude p / q with sign s; the status is
  unchanged when the number is exact and has the inexact flag when it is not.
\<close>

definition correct32 :: "float_status \<Rightarrow> bool \<Rightarrow> nat \<Rightarrow> nat \<Rightarrow> u32 \<times> float_status \<Rightarrow> bool" where
  "correct32 st s p q R \<longleftrightarrow> rounded (float_rounding_mode st) (signed s p) (int q) (fst R) \<and>
     (extractFloat32Sign (fst R) \<longleftrightarrow> s) \<and>
     (if mag (fst R) * q = p then snd R = st else bit (float_exception_flags (snd R)) 5)"

definition plain_mode :: "float_status \<Rightarrow> bool" where
  "plain_mode st \<longleftrightarrow> float_rounding_mode st \<in> {0, 1, 2, 3} \<and> \<not> flush_to_zero st"

lemma roundPack_correct:
  assumes mode: "float_rounding_mode st \<in> {0, 1, 2, 3}" "float_rounding_mode st' = float_rounding_mode st"
    and z: "unat z < 2 ^ 31" and e: "e \<le> 253" and q: "0 < q"
    and m: "round_rat (float_rounding_mode st) s (unat z) 128 = m"
      "m = round_rat (float_rounding_mode st) s p (q * 2 ^ e)"
    and bin: "e = 0 \<or> q * 2 ^ (23 + e) \<le> p" "2 ^ 23 \<le> m \<or> e = 0" "e = 253 \<longrightarrow> m < 2 ^ 24"
    and ex: "unat z mod 128 = 0 \<longleftrightarrow> p mod (q * 2 ^ e) = 0" and st': "unat z mod 128 = 0 \<Longrightarrow> st' = st"
  shows "correct32 st s p q (roundPack st' s (int e) z (z AND 0x7F))"
proof -
  define R where "R = roundPack st' s (int e) z (z AND 0x7F)"
  note r = roundPack_val [OF mode(1) [folded mode(2)] z e m(1) [folded mode(2), symmetric] bin(2,3) R_def]
  have "rounded (float_rounding_mode st) (signed s p) (int q) (fst R)"
    unfolding signed_def by (rule rounded_intro [OF q bin(1) mode(1) m(2) r(3,1,2,4)])
  moreover have "mag (fst R) * q = p \<longleftrightarrow> unat z mod 128 = 0"
    unfolding r(2) ex by (rule exact_iff [OF q m(2)])
  ultimately show ?thesis
    unfolding correct32_def R_def [symmetric] using r(1,5) st' inexact_raised by simp
qed

lemma roundAndPackFloat32_pos:
  assumes pm: "plain_mode st" and z: "2 ^ 30 \<le> unat z" "unat z < 2 ^ 31" and q: "0 < q"
    and stands: "stands_for j (unat z) (p * 2 ^ 7) (q * 2 ^ e)" "j \<le> 6" and p: "p \<le> max_mag * q"
  shows "correct32 st s p q (roundAndPackFloat32 s (int e) z st)"
proof -
  have mode: "float_rounding_mode st \<in> {0, 1, 2, 3}" using pm by (simp add: plain_mode_def)
  define m where "m = round_rat (float_rounding_mode st) s (unat z) 128"
  have "m = round_rat (float_rounding_mode st) s (p * 2 ^ 7) (q * 2 ^ e * 2 ^ 7)"
    unfolding m_def using stands_round [OF stands(1), of 7] stands(2) by simp
  also have "\<dots> = round_rat (float_rounding_mode st) s p (q * 2 ^ e)" by (rule round_rat_scale) simp
  finally have m: "m = round_rat (float_rounding_mode st) s p (q * 2 ^ e)" .
  have "(2::nat) ^ j dvd 2 ^ 30" using stands(2) by (intro le_imp_power_dvd) simp
  from stands_lower [OF stands(1) this z(1)] have "2 ^ 30 * (q * 2 ^ e) \<le> p * 2 ^ 7" .
  then have bin: "q * 2 ^ (23 + e) \<le> p" by (simp add: power_add)
  have e: "e \<le> 253"
  proof (rule ccontr)
    assume "\<not> e \<le> 253"
    then have "(2::nat) ^ 277 \<le> 2 ^ (23 + e)" by (intro power_increasing) simp_all
    then have "q * 2 ^ 277 \<le> max_mag * q" using bin p by (meson le_trans mult_le_mono2)
    then have "2 ^ 277 \<le> max_mag" using q by (simp add: mult.commute)
    then show False by (simp add: max_mag_def)
  qed
  have m24: "e = 253 \<longrightarrow> m < 2 ^ 24"
  proof
    assume that: "e = 253"
    have "p \<le> (2 ^ 24 - 1) * (q * 2 ^ e)" using p by (simp add: that max_mag_def)
    then have "m \<le> 2 ^ 24 - 1" unfolding m by (rule round_rat_bound) (use q in simp)
    then show "m < 2 ^ 24" by simp
  qed
  have "2 ^ 23 \<le> unat z div 128" using div_le_mono [OF z(1), of 128] by simp
  then have m23: "2 ^ 23 \<le> m" unfolding m_def using round_rat_ge by (rule order_trans)
  have ex: "unat z mod 128 = 0 \<longleftrightarrow> p mod (q * 2 ^ e) = 0"
  proof -
    have "unat z mod 2 ^ 7 = 0 \<longleftrightarrow> p * 2 ^ 7 mod (q * 2 ^ e * 2 ^ 7) = 0"
      by (rule stands_exact_iff [OF stands(1)]) (use stands(2) in linarith)
    then show ?thesis by (simp add: mod_mult_mult2)
  qed
  have t: "take_bit 16 (int e) = int e" using e by (simp add: take_bit_int_eq_self)
  have "\<not> (253 < int e \<or> int e = 253 \<and> sint (z + roundIncrement (float_rounding_mode st) s) < 0)"
    using e no_overflow [OF mode z(2)] m24 m_def by fastforce
  then have "roundAndPackFloat32 s (int e) z st = roundPack st s (int e) z (z AND 0x7F)"
    unfolding roundAndPackFloat32_def by (simp add: Let_def t)
  then show ?thesis
    using roundPack_correct [OF mode refl z(2) e q m_def [symmetric] m _ _ m24 ex] bin m23 by simp
qed

lemma roundAndPackFloat32_neg:
  assumes pm: "plain_mode st" and z: "unat z < 2 ^ 31" and q: "0 < q" and k: "0 < k" "k < 60000"
    and stands: "stands_for j (unat z) (p * 2 ^ (7 + k)) q" "j \<le> 6"
  shows "correct32 st s p q (roundAndPackFloat32 s (- int k) z st)"
proof -
  have mode: "float_rounding_mode st \<in> {0, 1, 2, 3}" using pm by (simp add: plain_mode_def)
  define z' where "z' = shift32RightJamming z k"
  have z': "unat z' = jam (unat z) k" by (simp only: z'_def shift32RightJamming_jam)
  have z31: "unat z' < 2 ^ 31" unfolding z' using z by (rule jam_lt)
  define m where "m = round_rat (float_rounding_mode st) s (unat z') 128"
  have "m = round_rat (float_rounding_mode st) s (unat z) (2 ^ k * 2 ^ 7)"
    unfolding m_def z' using stands_round [OF jam_stands, of 7] by simp
  also have "\<dots> = round_rat (float_rounding_mode st) s (unat z) (2 ^ (7 + k))" by (simp add: power_add mult.commute)
  also have "\<dots> = round_rat (float_rounding_mode st) s (p * 2 ^ (7 + k)) (q * 2 ^ (7 + k))"
    by (rule stands_round [OF stands(1)]) (use stands(2) in linarith)
  also have "\<dots> = round_rat (float_rounding_mode st) s p q" by (rule round_rat_scale) simp
  finally have m: "m = round_rat (float_rounding_mode st) s p (q * 2 ^ 0)" by simp
  have ex: "unat z' mod 128 = 0 \<longleftrightarrow> p mod (q * 2 ^ 0) = 0"
  proof -
    have "unat z' mod 2 ^ 7 = 0 \<longleftrightarrow> unat z mod (2 ^ k * 2 ^ 7) = 0"
      unfolding z' by (rule stands_exact_iff [OF jam_stands]) simp
    also have "\<dots> \<longleftrightarrow> unat z mod 2 ^ (7 + k) = 0" by (simp add: power_add mult.commute)
    also have "\<dots> \<longleftrightarrow> p * 2 ^ (7 + k) mod (q * 2 ^ (7 + k)) = 0"
      by (rule stands_exact_iff [OF stands(1)]) (use stands(2) in linarith)
    finally show ?thesis by (simp add: mod_mult_mult2)
  qed
  have t: "0xFD \<le> take_bit 16 (- int k)"
    using k by (simp add: take_bit_eq_mod zmod_zminus1_eq_if)
  define tiny where "tiny = (float_detect_tininess st = float_tininess_before_rounding \<or> - int k < - 1 \<or>
    z + roundIncrement (float_rounding_mode st) s < 0x80000000)"
  define st' where "st' = (if tiny \<and> z' AND 0x7F \<noteq> 0 then float_raise float_flag_underflow st else st)"
  have "roundAndPackFloat32 s (- int k) z st = roundPack st' s (int 0) z' (z' AND 0x7F)"
    unfolding roundAndPackFloat32_def using pm k t
    by (simp add: Let_def plain_mode_def st'_def tiny_def flip: z'_def)
  moreover have "st' = st" if "unat z' mod 128 = 0"
  proof -
    have "z' AND 0x7F = 0" using that unfolding word_unat_eq_iff low7 by simp
    then show ?thesis by (simp add: st'_def)
  qed
  moreover have "float_rounding_mode st' = float_rounding_mode st" by (simp add: st'_def)
  ultimately show ?thesis
    using roundPack_correct [OF mode _ z31 _ q m_def [symmetric] m _ _ _ ex] by simp
qed

lemma stands_ratio:
  assumes "stands_for j z p q" "p * q' = p' * q" "0 < q'"
  shows "stands_for j z p' q'"
proof (cases "z * q = p")
  case True
  have "q * (z * q') = z * q * q'" by (simp only: ac_simps)
  also have "\<dots> = p' * q" unfolding True by (rule assms(2))
  also have "\<dots> = q * p'" by (rule mult.commute)
  finally have "z * q' = p'" using assms(1) by (simp add: stands_for_def)
  then show ?thesis using assms(3) by (simp add: stands_for_def)
next
  case False
  then obtain i where i: "i * 2 ^ j < z" "z < (i + 1) * 2 ^ j" "i * 2 ^ j * q < p" "p < (i + 1) * 2 ^ j * q"
    and q: "0 < q" using assms(1) unfolding stands_for_def by blast
  have "i * 2 ^ j * q * q' < p * q'" "p * q' < (i + 1) * 2 ^ j * q * q'"
    using i(3,4) assms(3) by (intro mult_strict_right_mono; simp)+
  then have "q * (i * 2 ^ j * q') < q * p'" "q * p' < q * ((i + 1) * 2 ^ j * q')"
    unfolding assms(2) by (simp_all only: ac_simps)
  then have "i * 2 ^ j * q' < p'" "p' < (i + 1) * 2 ^ j * q'" using q by simp_all
  then show ?thesis using i(1,2) assms(3) unfolding stands_for_def by blast
qed

text \<open>
  The significand z with the exponent zExp, as roundAndPackFloat32 takes them, stands for the
  magnitude p / q: z has the weight 2^(zExp - 7).
\<close>

definition stands_at :: "nat \<Rightarrow> nat \<Rightarrow> int \<Rightarrow> nat \<Rightarrow> nat \<Rightarrow> bool" where
  "stands_at j z zExp p q \<longleftrightarrow> stands_for j z (p * 2 ^ (7 + nat (- zExp))) (q * 2 ^ nat zExp)"

lemma stands_atI:
  assumes "stands_for j z P Q" "P * (q * 2 ^ nat zExp) = p * 2 ^ (7 + nat (- zExp)) * Q" "0 < q"
  shows "stands_at j z zExp p q"
  unfolding stands_at_def by (rule stands_ratio [OF assms(1,2)]) (use assms(3) in simp)

lemma roundAndPackFloat32_correct:
  assumes pm: "plain_mode st" and z: "2 ^ 30 \<le> unat z" "unat z < 2 ^ 31" and q: "0 < q"
    and stands: "stands_at j (unat z) zExp p q" "j \<le> 6" and p: "p \<le> max_mag * q" and zExp: "- 60000 < zExp"
  shows "correct32 st s p q (roundAndPackFloat32 s zExp z st)"
proof (cases "0 \<le> zExp")
  case True
  then obtain e where e: "zExp = int e" by (metis nonneg_int_cases)
  show ?thesis unfolding e
    by (rule roundAndPackFloat32_pos [OF pm z q _ stands(2) p]) (use stands(1) in \<open>simp add: stands_at_def e\<close>)
next
  case False
  define k where "k = nat (- zExp)"
  have k: "zExp = - int k" "0 < k" using False by (simp_all add: k_def)
  show ?thesis unfolding k(1)
    by (rule roundAndPackFloat32_neg [OF pm z(2) q k(2) _ _ stands(2)])
      (use stands(1) zExp k in \<open>simp_all add: stands_at_def\<close>)
qed

lemma shift_weight:
  "p * 2 ^ (7 + nat (- zExp)) * 2 ^ c * (q * 2 ^ nat (zExp - int c))
    = p * 2 ^ (7 + nat (- (zExp - int c))) * (q * 2 ^ nat zExp :: nat)"
proof -
  have "7 + nat (- zExp) + c + nat (zExp - int c) = 7 + nat (- (zExp - int c)) + nat zExp" by linarith
  then have "(2::nat) ^ (7 + nat (- zExp)) * 2 ^ c * 2 ^ nat (zExp - int c)
      = 2 ^ (7 + nat (- (zExp - int c))) * 2 ^ nat zExp"
    by (simp only: power_add [symmetric])
  then have "p * q * (2 ^ (7 + nat (- zExp)) * 2 ^ c * 2 ^ nat (zExp - int c))
      = p * q * (2 ^ (7 + nat (- (zExp - int c))) * 2 ^ nat zExp)" by (simp only:)
  then show ?thesis by (simp only: ac_simps)
qed

lemma stands_at_shift:
  assumes "stands_at j z zExp p q" "0 < q"
  shows "stands_at (j + c) (z * 2 ^ c) (zExp - int c) p q"
  by (rule stands_atI [OF stands_scale [OF assms(1) [unfolded stands_at_def]] shift_weight assms(2)])

lemma stands_at_shift_exact:
  assumes "stands_at 0 z zExp p q" "0 < q"
  shows "stands_at 0 (z * 2 ^ c) (zExp - int c) p q"
proof -
  have "z * (q * 2 ^ nat zExp) = p * 2 ^ (7 + nat (- zExp))"
    using assms(1) unfolding stands_at_def stands_for_def by auto
  then have "z * 2 ^ c * (q * 2 ^ nat zExp) = p * 2 ^ (7 + nat (- zExp)) * 2 ^ c" by (metis mult.assoc mult.commute)
  then have "stands_for 0 (z * 2 ^ c) (p * 2 ^ (7 + nat (- zExp)) * 2 ^ c) (q * 2 ^ nat zExp)"
    using assms(2) by (simp add: stands_for_def)
  then show ?thesis by (rule stands_atI [OF _ shift_weight assms(2)])
qed

lemma normalizeRoundAndPackFloat32_correct:
  assumes pm: "plain_mode st" and z: "0 < unat z" "unat z < 2 ^ 31" and q: "0 < q"
    and stands: "stands_at j (unat z) zExp p q" "j = 0 \<or> 2 ^ (24 + j) \<le> unat z"
    and p: "p \<le> max_mag * q" and zExp: "- 59000 < zExp"
  shows "correct32 st s p q (normalizeRoundAndPackFloat32 s zExp z st)"
proof -
  define k where "k = countLeadingZeros32 z"
  have lz: "2 ^ 31 \<le> unat z * 2 ^ k" "unat z * 2 ^ k < 2 ^ 32"
    using countLeadingZeros32_lz [of z] z(1) by (simp_all add: leading_zeros_def k_def)
  obtain c where c: "k = Suc c" using lz(1) z(2) by (cases k) simp_all
  have n: "2 ^ 30 \<le> unat z * 2 ^ c" "unat z * 2 ^ c < 2 ^ 31" using lz by (simp_all add: c)
  have w: "unat (push_bit c z) = unat z * 2 ^ c" using n by (simp add: unat_push_bit_eq)
  have "1 * 2 ^ c \<le> unat z * 2 ^ c" using z(1) by (intro mult_le_mono1) simp
  then have "(2::nat) ^ c < 2 ^ 31" using n(2) by linarith
  then have c31: "c < 31" by (rule power_less_imp_less_exp [rotated]) simp
  obtain i where i: "stands_at i (unat (push_bit c z)) (zExp - int c) p q" "i \<le> 6"
  proof (cases "j = 0")
    case True
    then show thesis using stands_at_shift_exact [of "unat z" zExp p q c] stands(1) q
      by (intro that [of 0]) (simp_all add: w)
  next
    case False
    have "2 ^ (24 + j) * 2 ^ c \<le> unat z * 2 ^ c" using False stands(2) by (intro mult_le_mono1) simp
    then have "(2::nat) ^ (24 + j + c) < 2 ^ 31" using n(2) by (simp only: power_add)
    then have "24 + j + c < 31" by (rule power_less_imp_less_exp [rotated]) simp
    then show thesis using stands_at_shift [OF stands(1) q, of c] by (intro that [of "j + c"]) (simp_all add: w)
  qed
  have "normalizeRoundAndPackFloat32 s zExp z st = roundAndPackFloat32 s (zExp - int c) (push_bit c z) st"
    by (simp add: normalizeRoundAndPackFloat32_def Let_def c flip: k_def)
  then show ?thesis
    using roundAndPackFloat32_correct [OF pm _ _ q i p, of s] n zExp c31 by (simp add: w)
qed

end
