(* ===== verification/Float32_Arith.thy ===== *)
theory Float32_Arith
  imports Float32_Round
begin

text \<open>
  The four operations of the single precision unit are correctly rounded: the arithmetic of the
  magnitudes (aligned addition and subtraction, the product of the normalized significands, the
  truncated quotient with its sticky bit) composed with the rounding theorems. The last sections
  hold the properties of add, sub, mul and div and the treatment of NaNs and infinities.
\<close>

section \<open>Operands\<close>

lemma unat_push_small:
  "unat (a :: 'a::len word) * 2 ^ n < 2 ^ LENGTH('a) \<Longrightarrow> unat (push_bit n a) = unat a * 2 ^ n"
  by (simp only: unat_push_bit_eq mod_less)

text \<open>The significand with the hidden bit, and the exponent above that of the subnormal numbers.\<close>

definition sig32 :: "u32 \<Rightarrow> nat" where
  "sig32 a = (if exp32 a = 0 then frac32 a else 2 ^ 23 + frac32 a)"

definition pow32 :: "u32 \<Rightarrow> nat" where
  "pow32 a = exp32 a - 1"

lemma mag_sig: "mag a = sig32 a * 2 ^ pow32 a"
  by (simp add: mag_def sig32_def pow32_def)

lemma sig32_lt: "sig32 a < 2 ^ 24"
  using frac32_lt [of a] by (simp add: sig32_def)

lemma sig32_ge: "exp32 a \<noteq> 0 \<Longrightarrow> 2 ^ 23 \<le> sig32 a"
  by (simp add: sig32_def)

lemma sig32_sub: "exp32 a = 0 \<Longrightarrow> sig32 a < 2 ^ 23"
  using frac32_lt [of a] by (simp add: sig32_def)

lemma fval_signed: "fval a = signed (extractFloat32Sign a) (mag a)"
  by (simp add: fval_def signed_def)

text \<open>The shifted fraction, with the hidden bit set or not.\<close>

lemma frac_push:
  assumes "k \<le> 8"
  shows "unat (push_bit k (extractFloat32Frac a)) = frac32 a * 2 ^ k"
proof -
  have "frac32 a * 2 ^ k < 2 ^ 23 * 2 ^ 8"
    using frac32_lt [of a] assms by (intro mult_less_le_imp_less power_increasing) simp_all
  then show ?thesis by (simp add: unat_push_bit_eq extract_frac)
qed

lemma unat_or_hidden:
  assumes "unat x < 2 ^ n" "n < 32"
  shows "unat (x OR push_bit n 1 :: u32) = unat x + 2 ^ n"
proof -
  have "(2::nat) ^ n < 2 ^ 32" using assms(2) by (intro power_strict_increasing) simp_all
  then have "unat (push_bit n 1 :: u32) = 2 ^ n" by (subst unat_push_bit_eq) simp
  then have "unat (x OR push_bit n 1) = (1 * 2 ^ n) OR unat x"
    by (simp only: unsigned_or_eq) (simp add: or.commute)
  also have "\<dots> = 1 * 2 ^ n + unat x" by (rule or_shifted [OF assms(1)])
  finally show ?thesis by simp
qed

lemmas hidden29 = unat_or_hidden [where n = 29, simplified]
lemmas hidden30 = unat_or_hidden [where n = 30, simplified]
lemmas hidden23 = unat_or_hidden [where n = 23, simplified]

lemma sig_push6:
  "unat (if exp32 a = 0 then push_bit 6 (extractFloat32Frac a) else push_bit 6 (extractFloat32Frac a) OR 0x20000000)
    = sig32 a * 64"
  using frac_push [of 6 a] frac32_lt [of a] by (simp add: sig32_def hidden29)

lemma sig_push7:
  "unat (if exp32 a = 0 then push_bit 7 (extractFloat32Frac a) else push_bit 7 (extractFloat32Frac a) OR 0x40000000)
    = sig32 a * 128"
  using frac_push [of 7 a] frac32_lt [of a] by (simp add: sig32_def hidden30)

lemma pack_correct:
  assumes pm: "plain_mode st" and w: "unat w * q = p" "unat w \<le> 2 ^ 24" "0 < q"
  shows "correct32 st s p q (packFloat32 s (int 0) w, st)"
proof -
  note pk = pack_mag [of w 0 s, OF w(2)]
  have m: "unat w = round_rat (float_rounding_mode st) s p (q * 2 ^ 0)"
    using w(3) by (simp add: round_rat_def Let_def flip: w(1))
  have "rounded (float_rounding_mode st) (signed s p) (int q) (packFloat32 s (int 0) w)"
    unfolding signed_def by (rule rounded_intro [OF w(3) _ _ m]) (use pm pk in \<open>simp_all add: plain_mode_def\<close>)
  then show ?thesis unfolding correct32_def using pk w(1) by simp
qed

section \<open>Addition of magnitudes\<close>

text \<open>The last step: S holds the sum of the significands with six or seven extra bits.\<close>

lemma add_finish:
  assumes pm: "plain_mode st" and S: "2 ^ 29 \<le> unat S" "unat S < 2 ^ 31"
    and stands: "stands_for 1 (unat S) (64 * n) (2 ^ d)" and n: "n * 2 ^ x \<le> max_mag"
    and zE: "zE = int (x + d) + 1"
  shows "correct32 st s (n * 2 ^ x) 1
    (if sint (push_bit 1 S) < 0 then roundAndPackFloat32 s zE S st else roundAndPackFloat32 s (zE - 1) (push_bit 1 S) st)"
proof -
  have at: "stands_at 1 (unat S) zE (n * 2 ^ x) 1"
  proof (rule stands_atI [OF stands])
    have z: "nat zE = x + d + 1" "nat (- zE) = 0" using zE by simp_all
    show "64 * n * (1 * 2 ^ nat zE) = n * 2 ^ x * 2 ^ (7 + nat (- zE)) * 2 ^ d"
      unfolding z by (simp add: power_add)
  qed simp
  define T where "T = push_bit 1 S"
  have T: "unat T = unat S * 2 ^ 1" unfolding T_def by (rule unat_push_small) (use S(2) in simp)
  show ?thesis unfolding T_def [symmetric]
  proof (cases "unat S < 2 ^ 30")
    case True
    then have "\<not> sint T < 0" by (simp add: sign_bit32 T)
    moreover have "stands_at 2 (unat T) (zE - 1) (n * 2 ^ x) 1"
      using stands_at_shift [OF at, of 1] unfolding T by (simp add: numeral_2_eq_2)
    moreover have "2 ^ 30 \<le> unat T" "unat T < 2 ^ 31" using T S(1) True by simp_all
    ultimately show "correct32 st s (n * 2 ^ x) 1
        (if sint T < 0 then roundAndPackFloat32 s zE S st else roundAndPackFloat32 s (zE - 1) T st)"
      using roundAndPackFloat32_correct [OF pm, of T 1 2 "zE - 1" "n * 2 ^ x" s] n zE by simp
  next
    case False
    then have "sint T < 0" by (simp add: sign_bit32 T)
    then show "correct32 st s (n * 2 ^ x) 1
        (if sint T < 0 then roundAndPackFloat32 s zE S st else roundAndPackFloat32 s (zE - 1) T st)"
      using roundAndPackFloat32_correct [OF pm _ S(2) _ at, of s] False n zE by simp
  qed
qed

lemma sig_small:
  assumes e: "exp32 b < exp32 a" and d: "d = pow32 a - pow32 b"
  shows "sig32 b < 2 ^ 23 * 2 ^ d"
proof (cases "d = 0")
  case True
  then have "exp32 b = 0" using e d by (simp add: pow32_def)
  then show ?thesis using sig32_sub [of b] True by simp
next
  case False
  then have "(2::nat) ^ 23 * 2 ^ 1 \<le> 2 ^ 23 * 2 ^ d" by (intro mult_le_mono2 power_increasing) simp_all
  then show ?thesis using sig32_lt [of b] by simp
qed

lemma jam_small:
  assumes e: "exp32 b < exp32 a" and d: "d = pow32 a - pow32 b"
  shows "jam (sig32 b * 2 ^ t) d < 2 ^ (23 + t)"
proof (rule jam_lt_pow)
  have "sig32 b * 2 ^ t < 2 ^ 23 * 2 ^ d * 2 ^ t"
    using sig_small [OF e d] by (intro mult_strict_right_mono) simp_all
  then show "sig32 b * 2 ^ t < 2 ^ (23 + t) * 2 ^ d" by (simp only: power_add ac_simps)
qed simp

lemma aligned_sum:
  assumes e: "exp32 b < exp32 a" and d: "d = pow32 a - pow32 b"
  shows "stands_for 1 (sig32 a * 64 + jam (sig32 b * 64) d) (64 * (sig32 a * 2 ^ d + sig32 b)) (2 ^ d)"
    "(sig32 a * 2 ^ d + sig32 b) * 2 ^ pow32 b = mag a + mag b" "pow32 b + d = pow32 a"
    "jam (sig32 b * 64) d < 2 ^ 29"
proof -
  show p: "pow32 b + d = pow32 a" using e by (simp add: d pow32_def)
  have q: "sig32 a * 64 * 2 ^ d + sig32 b * 64 = 64 * (sig32 a * 2 ^ d + sig32 b)" by simp
  have "stands_for 1 (sig32 a * 64 + jam (sig32 b * 64) d) (sig32 a * 64 * 2 ^ d + sig32 b * 64) (2 ^ d)"
    by (rule stands_add [OF jam_stands]) simp
  then show "stands_for 1 (sig32 a * 64 + jam (sig32 b * 64) d) (64 * (sig32 a * 2 ^ d + sig32 b)) (2 ^ d)"
    unfolding q .
  show "(sig32 a * 2 ^ d + sig32 b) * 2 ^ pow32 b = mag a + mag b"
    unfolding mag_sig p [symmetric] by (simp add: algebra_simps power_add)
  show "jam (sig32 b * 64) d < 2 ^ 29" using jam_small [OF e d, of 6] by simp
qed

lemma addFloat32Sigs_correct:
  assumes pm: "plain_mode st" and fin: "finite32 a" "finite32 b" and max: "mag a + mag b \<le> max_mag"
  shows "correct32 st s (mag a + mag b) 1 (addFloat32Sigs a b s st)"
proof -
  let ?F = "\<lambda>a. push_bit 6 (extractFloat32Frac a)"
  let ?H = "\<lambda>a. if exp32 a = 0 then ?F a else ?F a OR 0x20000000"
  let ?fin = "\<lambda>x y e. if sint (push_bit 1 ((x OR 0x20000000) + y)) < 0
    then roundAndPackFloat32 s e ((x OR 0x20000000) + y) st
    else roundAndPackFloat32 s (e - 1) (push_bit 1 ((x OR 0x20000000) + y)) st"
  have fin': "exp32 a \<noteq> 255" "exp32 b \<noteq> 255" using fin by (simp_all add: finite32_def)
  consider "exp32 b < exp32 a" | "exp32 a < exp32 b" | "exp32 a = exp32 b" "exp32 a = 0"
    | "exp32 a = exp32 b" "exp32 a \<noteq> 0" by linarith
  then show ?thesis
  proof cases
    case 1
    define d where "d = pow32 a - pow32 b"
    define J where "J = shift32RightJamming (?H b) d"
    have n: "exp32 b = 0 \<Longrightarrow> nat (int (exp32 a) - 1) = d" "exp32 b \<noteq> 0 \<Longrightarrow> nat (int (exp32 a) - int (exp32 b)) = d"
      by (simp_all add: d_def pow32_def)
    have eq: "addFloat32Sigs a b s st = ?fin (?F a) J (int (exp32 a))"
      using 1 fin' n by (cases "exp32 b = 0") (simp_all add: addFloat32Sigs_def Let_def extract_exp J_def)
    note al = aligned_sum [OF 1 d_def]
    have J: "unat J = jam (sig32 b * 64) d" unfolding J_def shift32RightJamming_jam sig_push6 ..
    define S where "S = (?F a OR 0x20000000) + J"
    have F: "unat (?F a OR 0x20000000) = sig32 a * 64" using sig_push6 [of a] 1 by simp
    have S: "unat S = sig32 a * 64 + jam (sig32 b * 64) d"
      using al(4) sig32_lt [of a] unfolding S_def by (simp add: unat_word_ariths F J)
    have "2 ^ 29 \<le> unat S" "unat S < 2 ^ 31" using S sig32_ge [of a] sig32_lt [of a] al(4) 1 by simp_all
    moreover have "int (exp32 a) = int (pow32 b + d) + 1" using al(3) 1 by (simp add: pow32_def)
    ultimately show ?thesis
      using add_finish [OF pm _ _ al(1) [folded S], of "pow32 b" "int (exp32 a)" s] max
      unfolding eq al(2) S_def by simp
  next
    case 2
    define d where "d = pow32 b - pow32 a"
    define J where "J = shift32RightJamming (?H a) d"
    have n: "exp32 a = 0 \<Longrightarrow> nat (int (exp32 b) - 1) = d" "exp32 a \<noteq> 0 \<Longrightarrow> nat (int (exp32 b) - int (exp32 a)) = d"
      by (simp_all add: d_def pow32_def)
    have eq: "addFloat32Sigs a b s st = ?fin J (?F b) (int (exp32 b))"
      using 2 fin' n by (cases "exp32 a = 0") (simp_all add: addFloat32Sigs_def Let_def extract_exp J_def)
    note al = aligned_sum [OF 2 d_def]
    have J: "unat J = jam (sig32 a * 64) d" unfolding J_def shift32RightJamming_jam sig_push6 ..
    define S where "S = (J OR 0x20000000) + ?F b"
    have F: "unat (?F b) + 2 ^ 29 = sig32 b * 64" using frac_push [of 6 b] 2 by (simp add: sig32_def)
    have "unat (J OR 0x20000000) = unat J + 2 ^ 29" using hidden29 [of J] al(4) by (simp add: J)
    then have S: "unat S = sig32 b * 64 + jam (sig32 a * 64) d"
      using al(4) sig32_lt [of b] F unfolding S_def by (simp add: unat_word_ariths J)
    have "2 ^ 29 \<le> unat S" "unat S < 2 ^ 31" using S sig32_ge [of b] sig32_lt [of b] al(4) 2 by simp_all
    moreover have "int (exp32 b) = int (pow32 a + d) + 1" using al(3) 2 by (simp add: pow32_def)
    ultimately show ?thesis
      using add_finish [OF pm _ _ al(1) [folded S], of "pow32 a" "int (exp32 b)" s] max
      unfolding eq al(2) S_def by (simp add: add.commute)
  next
    case 3
    define w where "w = drop_bit 6 (?F a + ?F b)"
    have eq: "addFloat32Sigs a b s st = (packFloat32 s (int 0) w, st)"
      using 3 pm by (simp add: addFloat32Sigs_def Let_def extract_exp w_def plain_mode_def)
    have "unat (?F a + ?F b) = (mag a + mag b) * 64"
      using 3 frac_push [of 6 a] frac_push [of 6 b] frac32_lt [of a] frac32_lt [of b]
      by (simp add: unat_word_ariths mag_def)
    then have w: "unat w = mag a + mag b" by (simp add: w_def unat_drop_bit)
    have "mag a + mag b < 2 ^ 24" using 3 frac32_lt [of a] frac32_lt [of b] by (simp add: mag_def)
    then show ?thesis unfolding eq using w by (intro pack_correct [OF pm]) simp_all
  next
    case 4
    define z where "z = 0x40000000 + ?F a + ?F b"
    have eq: "addFloat32Sigs a b s st = roundAndPackFloat32 s (int (exp32 a)) z st"
      using 4 fin' by (simp add: addFloat32Sigs_def Let_def extract_exp z_def)
    have z: "unat z = (sig32 a + sig32 b) * 64"
      using 4 frac_push [of 6 a] frac_push [of 6 b] frac32_lt [of a] frac32_lt [of b]
      by (simp add: unat_word_ariths sig32_def z_def)
    have m: "mag a + mag b = (sig32 a + sig32 b) * 2 ^ (exp32 a - 1)"
      using 4 by (simp add: mag_sig pow32_def distrib_right)
    obtain e where e: "exp32 a = Suc e" using 4(2) by (metis not0_implies_Suc)
    have "stands_at 0 (unat z) (int (exp32 a)) (mag a + mag b) 1"
      by (rule stands_atI [OF stands_exact [of 1]]) (simp_all add: z m e algebra_simps del: of_nat_Suc)
    moreover have "2 ^ 30 \<le> unat z" "unat z < 2 ^ 31"
      using z 4 sig32_ge [of a] sig32_ge [of b] sig32_lt [of a] sig32_lt [of b] by simp_all
    ultimately show ?thesis unfolding eq
      using roundAndPackFloat32_correct [OF pm, of z 1 0] max by simp
  qed
qed

section \<open>Subtraction of magnitudes\<close>

lemma mag_less:
  assumes e: "exp32 b < exp32 a"
  shows "mag b < mag a"
proof -
  define d where "d = pow32 a - pow32 b"
  have p: "pow32 b + d = pow32 a" using e by (simp add: d_def pow32_def)
  have "mag b < 2 ^ 23 * 2 ^ d * 2 ^ pow32 b"
    unfolding mag_sig using sig_small [OF e d_def] by (intro mult_strict_right_mono) simp_all
  also have "\<dots> = 2 ^ 23 * 2 ^ pow32 a" by (simp add: power_add flip: p)
  also have "\<dots> \<le> mag a" unfolding mag_sig using sig32_ge [of a] e by (intro mult_le_mono1) simp
  finally show ?thesis .
qed

lemma mag_max: "finite32 a \<Longrightarrow> mag a \<le> max_mag"
proof -
  assume "finite32 a"
  then have "pow32 a \<le> 253" using exp32_lt [of a] by (simp add: finite32_def pow32_def)
  then have "sig32 a * 2 ^ pow32 a \<le> (2 ^ 24 - 1) * 2 ^ 253"
    using sig32_lt [of a] by (intro mult_mono power_increasing) simp_all
  then show ?thesis by (simp add: mag_sig max_mag_def)
qed

text \<open>The larger operand a has the larger exponent.\<close>

lemma sub_aligned:
  assumes pm: "plain_mode st" and e: "exp32 b < exp32 a" and d: "d = pow32 a - pow32 b" and fin: "finite32 a"
    and A: "unat A = sig32 a * 128" and J: "unat J = jam (sig32 b * 128) d"
  shows "correct32 st s (mag a - mag b) 1 (normalizeRoundAndPackFloat32 s (int (exp32 a) - 1) (A - J) st)"
proof -
  have p: "pow32 a = pow32 b + d" using e by (simp add: d pow32_def)
  have J30: "jam (sig32 b * 128) d < 2 ^ 30" using jam_small [OF e d, of 7] by simp
  have A30: "2 ^ 30 \<le> sig32 a * 128" using sig32_ge [of a] e by simp
  have le: "jam (sig32 b * 128) d \<le> sig32 a * 128" using J30 A30 by linarith
  have z: "unat (A - J) = sig32 a * 128 - jam (sig32 b * 128) d"
    using J30 A30 A J by (simp add: unat_sub word_le_nat_alt)
  have zpos: "0 < unat (A - J)" "unat (A - J) < 2 ^ 31" using z J30 A30 sig32_lt [of a] by simp_all
  obtain j where j: "stands_for j (jam (sig32 b * 128) d) (sig32 b * 128) (2 ^ d)" "j \<le> 1" "j = 0 \<or> 2 ^ 29 \<le> unat (A - J)"
  proof (cases "d < 2")
    case True
    then have "(2::nat) ^ d dvd 2 ^ 7" by (intro le_imp_power_dvd) simp
    then have "2 ^ d dvd (128::nat)" by simp
    then have "sig32 b * 128 mod 2 ^ d = 0" by (simp add: mod_eq_0_iff_dvd)
    then have "jam (sig32 b * 128) d * 2 ^ d = sig32 b * 128"
      using div_mult_mod_eq [of "sig32 b * 128" "2 ^ d"] by (simp only: jam_def if_True add_0_right simp_thms)
    then show thesis by (intro that [of 0]) (simp_all add: stands_for_def)
  next
    case False
    have "sig32 b * 128 < 2 ^ 29 * 2 ^ d"
    proof -
      have "(2::nat) ^ 29 * 2 ^ 2 \<le> 2 ^ 29 * 2 ^ d" using False by (intro mult_le_mono2 power_increasing) simp_all
      then show ?thesis using sig32_lt [of b] by simp
    qed
    then have "jam (sig32 b * 128) d < 2 ^ 29" by (rule jam_lt_pow) simp
    then show thesis using A30 z by (intro that [of 1] jam_stands) simp_all
  qed
  have "(2::nat) ^ j dvd 2 ^ 7" using j(2) by (intro le_imp_power_dvd) simp
  then have dv: "2 ^ j dvd sig32 a * 128" by simp
  have "stands_at j (unat (A - J)) (int (exp32 a) - 1) (mag a - mag b) 1"
  proof (rule stands_atI [OF stands_sub [OF j(1) dv le, folded z]])
    have n: "nat (int (exp32 a) - 1) = pow32 b + d" "nat (- (int (exp32 a) - 1)) = 0"
      using e p by (simp_all add: pow32_def)
    have "(sig32 a * 128 * 2 ^ d - sig32 b * 128) * 2 ^ pow32 b = (mag a - mag b) * 2 ^ 7"
      unfolding mag_sig p by (simp add: diff_mult_distrib diff_mult_distrib2 power_add ac_simps)
    then show "(sig32 a * 128 * 2 ^ d - sig32 b * 128) * (1 * 2 ^ nat (int (exp32 a) - 1))
        = (mag a - mag b) * 2 ^ (7 + nat (- (int (exp32 a) - 1))) * 2 ^ d"
      unfolding n add_0_right power_add mult_1 by (simp only: mult.assoc [symmetric])
  qed simp
  moreover have "j = 0 \<or> 2 ^ (24 + j) \<le> unat (A - J)"
  proof -
    have "(2::nat) ^ (24 + j) \<le> 2 ^ 29" using j(2) by (intro power_increasing) simp_all
    then show ?thesis using j(3) by linarith
  qed
  moreover have "mag a - mag b \<le> max_mag" using mag_max [OF fin] by simp
  ultimately show ?thesis
    using normalizeRoundAndPackFloat32_correct [OF pm zpos, of 1 j "int (exp32 a) - 1" "mag a - mag b" s] e by simp
qed

text \<open>Operands with the same exponent: the difference of the fractions is exact.\<close>

lemma sub_same_exp:
  assumes pm: "plain_mode st" and e: "exp32 a = exp32 b" and f: "frac32 b < frac32 a" and fin: "finite32 a"
    and A: "unat A = frac32 a * 128" and B: "unat B = frac32 b * 128"
  shows "correct32 st s (mag a - mag b) 1 (normalizeRoundAndPackFloat32 s (int (pow32 a)) (A - B) st)"
proof -
  have z: "unat (A - B) = (frac32 a - frac32 b) * 128"
    using f A B by (simp add: unat_sub word_le_nat_alt)
  have m: "mag a - mag b = (frac32 a - frac32 b) * 2 ^ pow32 a"
    using e f by (simp add: mag_sig sig32_def pow32_def flip: diff_mult_distrib)
  have "stands_at 0 (unat (A - B)) (int (pow32 a)) (mag a - mag b) 1"
    by (rule stands_atI [OF stands_exact [of 1]]) (simp_all add: z m)
  moreover have "0 < unat (A - B)" "unat (A - B) < 2 ^ 31" using z f frac32_lt [of a] by simp_all
  moreover have "mag a - mag b \<le> max_mag" using mag_max [OF fin] by simp
  ultimately show ?thesis
    using normalizeRoundAndPackFloat32_correct [OF pm, of "A - B" 1 0 "int (pow32 a)" "mag a - mag b" s] by simp
qed

lemma subFloat32Sigs_correct:
  assumes pm: "plain_mode st" and fin: "finite32 a" "finite32 b"
  shows "mag b < mag a \<Longrightarrow> correct32 st s (mag a - mag b) 1 (subFloat32Sigs a b s st)"
    "mag a < mag b \<Longrightarrow> correct32 st (\<not> s) (mag b - mag a) 1 (subFloat32Sigs a b s st)"
    "mag a = mag b \<Longrightarrow> subFloat32Sigs a b s st = (packFloat32 (float_rounding_mode st = 1) 0 0, st)"
proof -
  let ?F = "\<lambda>a. push_bit 7 (extractFloat32Frac a)"
  let ?H = "\<lambda>a. if exp32 a = 0 then ?F a else ?F a OR 0x40000000"
  let ?N = normalizeRoundAndPackFloat32
  have fin': "exp32 a \<noteq> 255" "exp32 b \<noteq> 255" using fin by (simp_all add: finite32_def)
  have F: "unat (?F x) = frac32 x * 128" for x using frac_push [of 7 x] by simp
  have H: "unat (?F x OR 0x40000000) = sig32 x * 128" if "exp32 x \<noteq> 0" for x using sig_push7 [of x] that by simp
  have J: "unat (shift32RightJamming (?H x) d) = jam (sig32 x * 128) d" for x d
    unfolding shift32RightJamming_jam sig_push7 ..
  have n: "exp32 y = 0 \<Longrightarrow> nat (int (exp32 x) - 1) = pow32 x - pow32 y"
    "exp32 y \<noteq> 0 \<Longrightarrow> nat (int (exp32 x) - int (exp32 y)) = pow32 x - pow32 y" for x y
    by (simp_all add: pow32_def)
  have same: "mag b < mag a \<longleftrightarrow> frac32 b < frac32 a" "mag a < mag b \<longleftrightarrow> frac32 a < frac32 b"
    "mag a = mag b \<longleftrightarrow> frac32 a = frac32 b" if "exp32 a = exp32 b"
    using that by (simp_all add: mag_def)
  have FF: "?F b < ?F a \<longleftrightarrow> frac32 b < frac32 a" "?F a < ?F b \<longleftrightarrow> frac32 a < frac32 b"
    unfolding word_less_nat_alt F by simp_all
  have eq1: "subFloat32Sigs a b s st = ?N s (int (exp32 a) - 1)
      ((?F a OR 0x40000000) - shift32RightJamming (?H b) (pow32 a - pow32 b)) st" if "exp32 b < exp32 a"
    using that fin' n [of b a] by (cases "exp32 b = 0") (simp_all add: subFloat32Sigs_def Let_def extract_exp)
  have eq2: "subFloat32Sigs a b s st = ?N (\<not> s) (int (exp32 b) - 1)
      ((?F b OR 0x40000000) - shift32RightJamming (?H a) (pow32 b - pow32 a)) st" if "exp32 a < exp32 b"
    using that fin' n [of a b] by (cases "exp32 a = 0") (simp_all add: subFloat32Sigs_def Let_def extract_exp)
  have p: "(if exp32 a = 0 then 1 else int (exp32 a)) - 1 = int (pow32 a)" by (simp add: pow32_def)
  have eq3: "subFloat32Sigs a b s st =
      (if frac32 b < frac32 a then ?N s (int (pow32 a)) (?F a - ?F b) st
       else if frac32 a < frac32 b then ?N (\<not> s) (int (pow32 b)) (?F b - ?F a) st
       else (packFloat32 (float_rounding_mode st = 1) 0 0, st))" if "exp32 a = exp32 b"
    using that fin' p by (simp add: subFloat32Sigs_def Let_def extract_exp FF pow32_def split: if_splits)
  show "correct32 st s (mag a - mag b) 1 (subFloat32Sigs a b s st)" if "mag b < mag a"
  proof (cases "exp32 a = exp32 b")
    case True
    then show ?thesis using that sub_same_exp [OF pm True _ fin(1) F F, of s] eq3 same by simp
  next
    case False
    then have e: "exp32 b < exp32 a" using that mag_less [of a b] by fastforce
    then show ?thesis unfolding eq1 [OF e] by (intro sub_aligned [OF pm e refl fin(1) H J]) simp
  qed
  show "correct32 st (\<not> s) (mag b - mag a) 1 (subFloat32Sigs a b s st)" if "mag a < mag b"
  proof (cases "exp32 a = exp32 b")
    case True
    then show ?thesis using that sub_same_exp [OF pm True [symmetric] _ fin(2) F F, of "\<not> s"] eq3 same by simp
  next
    case False
    then have e: "exp32 a < exp32 b" using that mag_less [of b a] by fastforce
    then show ?thesis unfolding eq2 [OF e] by (intro sub_aligned [OF pm e refl fin(2) H J]) simp
  qed
  show "subFloat32Sigs a b s st = (packFloat32 (float_rounding_mode st = 1) 0 0, st)" if "mag a = mag b"
  proof -
    have "exp32 a = exp32 b" using that mag_less [of a b] mag_less [of b a] by fastforce
    then show ?thesis using that eq3 same by simp
  qed
qed

section \<open>Normalized operands\<close>

definition norm32 :: "u32 \<Rightarrow> int \<times> u32" where
  "norm32 a = (if extractFloat32Exp a = 0 then normalizeFloat32Subnormal (extractFloat32Frac a)
     else (extractFloat32Exp a, extractFloat32Frac a))"

lemma norm32_sig:
  assumes "mag a \<noteq> 0" "finite32 a" "norm32 a = (E, w)" "N = unat (w OR 0x00800000)"
  shows "2 ^ 23 \<le> N" "N < 2 ^ 24" "mag a * 2 ^ nat (1 - E) = N * 2 ^ nat (E - 1)" "- 100 < E" "E < 300"
proof -
  have "2 ^ 23 \<le> N \<and> N < 2 ^ 24 \<and> mag a * 2 ^ nat (1 - E) = N * 2 ^ nat (E - 1) \<and> - 100 < E \<and> E < 300"
  proof (cases "exp32 a = 0")
    case True
    let ?f = "extractFloat32Frac a"
    define k where "k = countLeadingZeros32 ?f"
    have f: "unat ?f = mag a" "0 < unat ?f" "unat ?f < 2 ^ 23"
      using True assms(1) frac32_lt [of a] by (simp_all add: extract_frac mag_def)
    then have lz: "2 ^ 31 \<le> unat ?f * 2 ^ k" "unat ?f * 2 ^ k < 2 ^ 32"
      using countLeadingZeros32_lz [of ?f] by (simp_all add: leading_zeros_def k_def)
    have k8: "8 \<le> k"
    proof (rule ccontr)
      assume "\<not> 8 \<le> k"
      then have "unat ?f * 2 ^ k \<le> unat ?f * 2 ^ 7" by (intro mult_le_mono2 power_increasing) simp_all
      also have "\<dots> < 2 ^ 31" using f(3) by simp
      finally show False using lz(1) by simp
    qed
    define c where "c = k - 8"
    have k: "(2::nat) ^ k = 2 ^ c * 2 ^ 8" unfolding c_def power_add [symmetric] using k8 by simp
    have n: "2 ^ 23 \<le> unat ?f * 2 ^ c" "unat ?f * 2 ^ c < 2 ^ 24" using lz unfolding k by simp_all
    have "1 * 2 ^ c \<le> unat ?f * 2 ^ c" using f(2) by (intro mult_le_mono1) simp
    then have "(2::nat) ^ c < 2 ^ 24" using n(2) by linarith
    then have c24: "c < 24" by (rule power_less_imp_less_exp [rotated]) simp
    have E: "E = 1 - int c" and w: "w = push_bit c ?f"
      using assms(3) True by (simp_all add: norm32_def extract_exp normalizeFloat32Subnormal_def Let_def c_def k_def)
    have uw: "unat w = unat ?f * 2 ^ c" unfolding w by (rule unat_push_small) (use n in simp)
    obtain v where v: "unat w = 1 * 2 ^ 23 + v" "v < 2 ^ 23" using n uw by (intro that [of "unat w - 2 ^ 23"]) simp_all
    have "N = unat w OR (1 * 2 ^ 23)" unfolding assms(4) by (simp add: unsigned_or_eq)
    also have "\<dots> = (1 * 2 ^ 23 OR v) OR (1 * 2 ^ 23)" unfolding v(1) by (simp only: or_shifted [OF v(2)])
    also have "\<dots> = 1 * 2 ^ 23 OR v" by (simp only: or.commute or.left_commute or.left_idem or.idem)
    also have "\<dots> = unat w" unfolding v(1) by (simp only: or_shifted [OF v(2)])
    finally have N: "N = mag a * 2 ^ c" using uw f(1) by simp
    show ?thesis using n N f(1) E c24 by simp
  next
    case False
    have E: "E = int (exp32 a)" and w: "w = extractFloat32Frac a"
      using assms(3) False by (simp_all add: norm32_def extract_exp)
    have N: "N = sig32 a"
      unfolding assms(4) w using hidden23 [of "extractFloat32Frac a"] frac32_lt [of a] False
      by (simp add: extract_frac sig32_def)
    have p: "nat (1 - E) = 0" "nat (E - 1) = pow32 a" using False by (simp_all add: E pow32_def)
    show ?thesis unfolding p
      using N sig32_ge [OF False] sig32_lt [of a] exp32_lt [of a] by (simp add: mag_sig E)
  qed
  then show "2 ^ 23 \<le> N" "N < 2 ^ 24" "mag a * 2 ^ nat (1 - E) = N * 2 ^ nat (E - 1)" "- 100 < E" "E < 300" by blast+
qed

lemma weights:
  fixes ma :: nat
  assumes a: "ma * 2 ^ i = na * 2 ^ i'" and b: "mb * 2 ^ k = nb * 2 ^ k'" and e: "x + i + k = y + i' + k'"
  shows "na * nb * 2 ^ x = ma * mb * 2 ^ y"
proof -
  have "na * nb * 2 ^ x * 2 ^ (i + k) = na * nb * 2 ^ (x + i + k)" by (simp add: power_add)
  also have "\<dots> = (na * 2 ^ i') * (nb * 2 ^ k') * 2 ^ y" unfolding e by (simp add: power_add)
  also have "\<dots> = ma * mb * 2 ^ y * 2 ^ (i + k)" unfolding a [symmetric] b [symmetric] by (simp add: power_add)
  finally show ?thesis by simp
qed

section \<open>Multiplication\<close>

lemma zero_iff: "mag a = 0 \<longleftrightarrow> extractFloat32Exp a = 0 \<and> extractFloat32Frac a = 0"
  by (simp add: mag_def extract_exp extract_frac flip: unat_eq_0)

lemma nonzero_operands:
  assumes "mag a \<noteq> 0" "mag b \<noteq> 0"
  shows "(extractFloat32Exp a = 0 \<and> extractFloat32Frac a = 0) = False"
    "(extractFloat32Exp b = 0 \<and> extractFloat32Frac b = 0) = False"
    "(extractFloat32Exp a = 0 \<and> extractFloat32Frac a = 0 \<or>
      extractFloat32Exp b = 0 \<and> extractFloat32Frac b = 0) = False"
  using assms unfolding zero_iff by blast+

lemma unat_ucast_small: "unat (w :: u64) < 2 ^ 32 \<Longrightarrow> unat (ucast w :: u32) = unat w"
  by (simp add: unsigned_ucast_eq take_bit_nat_eq_self)

lemma unat_ucast_up: "unat (ucast (w :: u32) :: u64) = unat w"
  using unat32_lt [of w] by (simp add: unsigned_ucast_eq take_bit_nat_eq_self)

lemma float32_mul_correct:
  assumes pm: "plain_mode st" and fin: "finite32 a" "finite32 b" and max: "mag a * mag b \<le> max_mag * 2 ^ 149"
  shows "correct32 st (extractFloat32Sign a \<noteq> extractFloat32Sign b) (mag a * mag b) (2 ^ 149) (float32_mul a b st)"
proof -
  define s where "s \<longleftrightarrow> extractFloat32Sign a \<noteq> extractFloat32Sign b"
  have fin': "extractFloat32Exp a \<noteq> 255" "extractFloat32Exp b \<noteq> 255"
    using fin by (simp_all add: finite32_def extract_exp)
  show ?thesis unfolding s_def [symmetric]
  proof (cases "mag a = 0 \<or> mag b = 0")
    case True
    then have "float32_mul a b st = (packFloat32 s (int 0) 0, st)"
      using fin' unfolding zero_iff float32_mul_def by (auto simp: Let_def s_def)
    then show "correct32 st s (mag a * mag b) (2 ^ 149) (float32_mul a b st)"
      using True pack_correct [OF pm, of 0 "2 ^ 149" 0 s] by auto
  next
    case False
    then have nz: "mag a \<noteq> 0" "mag b \<noteq> 0" by simp_all
    obtain E w where na: "norm32 a = (E, w)" by force
    obtain F v where nb: "norm32 b = (F, v)" by force
    define M where "M = unat (w OR 0x00800000)"
    define N where "N = unat (v OR 0x00800000)"
    note a = norm32_sig [OF nz(1) fin(1) na M_def] and b = norm32_sig [OF nz(2) fin(2) nb N_def]
    define A where "A = push_bit 7 (w OR 0x00800000)"
    define B where "B = push_bit 8 (v OR 0x00800000)"
    have A: "unat A = M * 2 ^ 7" unfolding A_def M_def by (rule unat_push_small) (use a(2) M_def in simp)
    have B: "unat B = N * 2 ^ 8" unfolding B_def N_def by (rule unat_push_small) (use b(2) N_def in simp)
    define z where "z = (ucast (shift64RightJamming (ucast A * ucast B) 32) :: u32)"
    have MN: "2 ^ 23 * 2 ^ 23 \<le> M * N" "M * N < 2 ^ 24 * 2 ^ 24"
      using a(1,2) b(1,2) by (intro mult_mono mult_strict_mono; simp)+
    have AB: "unat (ucast A * ucast B :: u64) = M * N * 2 ^ 15"
      using MN(2) A B by (simp add: unat_word_ariths unat_ucast_up)
    have jl: "jam (M * N * 2 ^ 15) 32 < 2 ^ 31" by (rule jam_lt_pow) (use MN(2) in simp_all)
    have z: "unat z = jam (M * N * 2 ^ 15) 32"
      unfolding z_def by (subst unat_ucast_small) (use jl in \<open>simp_all add: shift64RightJamming_jam AB\<close>)
    have "2 ^ 29 \<le> M * N * 2 ^ 15 div 2 ^ 32"
    proof -
      have "2 ^ 29 * 2 ^ 32 \<le> M * N * 2 ^ 15" using MN(1) by simp
      then show ?thesis by (simp add: less_eq_div_iff_mult_less_eq)
    qed
    then have z29: "2 ^ 29 \<le> unat z" unfolding z jam_def by (simp add: or_Suc_0_eq)
    define zE where "zE = E + F - 0x7F"
    have at: "stands_at 1 (unat z) zE (mag a * mag b) (2 ^ 149)"
      unfolding z
    proof (rule stands_atI [OF jam_stands])
      have "M * N * 2 ^ (15 + (149 + nat zE)) = mag a * mag b * 2 ^ (7 + nat (- zE) + 32)"
        by (rule weights [OF a(3) b(3)]) (use zE_def in linarith)
      then show "M * N * 2 ^ 15 * (2 ^ 149 * 2 ^ nat zE) = mag a * mag b * 2 ^ (7 + nat (- zE)) * 2 ^ 32"
        by (simp only: power_add mult.assoc)
    qed simp
    have eq: "float32_mul a b st =
        (if 0 \<le> sint (push_bit 1 z) then roundAndPackFloat32 s (zE - 1) (push_bit 1 z) st
         else roundAndPackFloat32 s zE z st)"
      by (simp only: float32_mul_def Let_def fin' nonzero_operands [OF nz] na [unfolded norm32_def] nb [unfolded norm32_def]
          if_False prod.case disj_absorb flip: A_def B_def z_def zE_def s_def)
    define T where "T = push_bit 1 z"
    have T: "unat T = unat z * 2 ^ 1" unfolding T_def by (rule unat_push_small) (use jl z in simp)
    have zE: "- 60000 < zE - 1" using a(4) b(4) by (simp add: zE_def)
    show "correct32 st s (mag a * mag b) (2 ^ 149) (float32_mul a b st)"
    proof (cases "unat z < 2 ^ 30")
      case True
      then have "0 \<le> sint T" using sign_bit32 [of T] T by (simp add: not_less [symmetric])
      then have "float32_mul a b st = roundAndPackFloat32 s (zE - 1) T st" using eq by (simp only: T_def if_True)
      moreover have "stands_at 2 (unat T) (zE - 1) (mag a * mag b) (2 ^ 149)"
        using stands_at_shift [OF at, of 1] unfolding T by (simp add: numeral_2_eq_2)
      ultimately show ?thesis
        using roundAndPackFloat32_correct [OF pm, of T "2 ^ 149" 2 "zE - 1" "mag a * mag b" s] T True z29 max zE by simp
    next
      case False
      then have "\<not> 0 \<le> sint T" using sign_bit32 [of T] T by (simp add: not_le)
      then have "float32_mul a b st = roundAndPackFloat32 s zE z st" using eq by (simp only: T_def if_False)
      then show ?thesis
        using roundAndPackFloat32_correct [OF pm _ _ _ at, of s] False jl max zE by (simp add: z)
    qed
  qed
qed

section \<open>Division\<close>

text \<open>
  A truncated quotient, with its lowest bit forced up when the six bits below the rounding
  position would look exact and are not.
\<close>

lemma quotient_stands:
  fixes X B :: nat
  assumes B: "0 < B" and d: "d = X div B" and z: "z = (if 64 dvd d \<and> d * B \<noteq> X then d + 1 else d)"
  shows "stands_for 6 z X B"
proof (cases "d * B = X")
  case True
  then show ?thesis using B z by (simp add: stands_for_def)
next
  case False
  have "d * B \<le> X" unfolding d by (rule div_times_less_eq_dividend)
  then have lo: "d * B < X" using False by (rule le_neq_implies_less)
  have hi: "X < (d + 1) * B" using B d dividend_less_div_times [of B X] by simp
  define i where "i = d div 64"
  have i: "i * 2 ^ 6 \<le> d" "d + 1 \<le> (i + 1) * 2 ^ 6" unfolding i_def by simp_all
  have "i * 2 ^ 6 < z \<and> z < (i + 1) * 2 ^ 6"
  proof (cases "64 dvd d")
    case True
    then show ?thesis using z False by (auto simp: i_def)
  next
    case False
    have "0 < d mod 64" "d mod 64 < 64" using False by (simp_all add: dvd_eq_mod_eq_0)
    moreover have "d = i * 64 + d mod 64" unfolding i_def by simp
    moreover have "z = d" using z False by simp
    ultimately have "i * 64 < z" "z < (i + 1) * 64" by simp_all
    then show ?thesis by simp
  qed
  moreover have "i * 2 ^ 6 * B < X" using mult_le_mono1 [OF i(1), of B] lo by linarith
  moreover have "X < (i + 1) * 2 ^ 6 * B" using mult_le_mono1 [OF i(2), of B] hi by linarith
  ultimately show ?thesis using B unfolding stands_for_def by blast
qed

text \<open>The quotient step on words.\<close>

definition quotient32 :: "u32 \<Rightarrow> u32 \<Rightarrow> u32" where
  "quotient32 A B = (let z = ucast (push_bit 32 (ucast A :: u64) div ucast B) :: u32
     in if z AND 0x3F = 0 then z OR of_bool (ucast B * ucast z \<noteq> push_bit 32 (ucast A :: u64)) else z)"

lemma and_3F: "(z :: u32) AND 0x3F = 0 \<longleftrightarrow> 64 dvd unat z"
proof -
  have "z AND 0x3F = take_bit 6 z" by (simp add: take_bit_eq_mask mask_eq_exp_minus_1)
  moreover have "take_bit 6 z = 0 \<longleftrightarrow> unat (take_bit 6 z) = 0" by (simp add: unat_eq_0)
  ultimately show ?thesis by (simp only: unat_take_bit dvd_eq_mod_eq_0) simp
qed

lemma quotient32_stands:
  assumes B: "0 < unat B" and q: "unat A * 2 ^ 32 < 2 ^ 31 * unat B"
  shows "stands_for 6 (unat (quotient32 A B)) (unat A * 2 ^ 32) (unat B)"
    and "unat A * 2 ^ 32 div unat B \<le> unat (quotient32 A B)" "unat (quotient32 A B) < 2 ^ 31"
proof -
  define X where "X = push_bit 32 (ucast A :: u64)"
  define d where "d = unat A * 2 ^ 32 div unat B"
  have X: "unat X = unat A * 2 ^ 32"
    unfolding X_def using unat32_lt [of A]
    by (simp add: push_bit_eq_mult unat_word_ariths unat_ucast_up)
  have d31: "d < 2 ^ 31" unfolding d_def using q B by (simp add: less_mult_imp_div_less)
  define z where "z = (ucast (X div ucast B) :: u32)"
  have z: "unat z = d" unfolding z_def
    by (subst unat_ucast_small) (use d31 in \<open>simp_all add: unat_div X unat_ucast_up d_def\<close>)
  have "unat B * d \<le> unat A * 2 ^ 32" unfolding d_def by (simp add: mult.commute)
  then have "unat B * d < 2 ^ 64" using unat32_lt [of A] by simp
  then have "unat (ucast B * ucast z :: u64) = unat B * d"
    by (simp add: unat_word_ariths unat_ucast_up z)
  then have ne: "ucast B * ucast z \<noteq> X \<longleftrightarrow> d * unat B \<noteq> unat A * 2 ^ 32"
    by (metis X mult.commute word_unat_eq_iff)
  have Q: "quotient32 A B = (if 64 dvd d then z OR of_bool (d * unat B \<noteq> unat A * 2 ^ 32) else z)"
    unfolding quotient32_def Let_def X_def [symmetric] z_def [symmetric] and_3F ne z ..
  have u: "unat (quotient32 A B) = (if 64 dvd d \<and> d * unat B \<noteq> unat A * 2 ^ 32 then d + 1 else d)"
  proof (cases "64 dvd d \<and> d * unat B \<noteq> unat A * 2 ^ 32")
    case True
    then have "even d" by (meson dvd_trans even_numeral)
    then show ?thesis using True Q by (simp add: unsigned_or_eq z or_Suc_0_eq)
  qed (use Q z in auto)
  show "stands_for 6 (unat (quotient32 A B)) (unat A * 2 ^ 32) (unat B)"
    by (rule quotient_stands [OF B _ u]) (simp add: d_def)
  show "unat A * 2 ^ 32 div unat B \<le> unat (quotient32 A B)" unfolding u d_def [symmetric] by simp
  have "d + 1 < 2 ^ 31 \<or> \<not> 64 dvd d"
  proof (cases "d + 1 = 2 ^ 31")
    case True
    then have "d = 2147483647" by simp
    then show ?thesis by simp
  qed (use d31 in simp)
  then show "unat (quotient32 A B) < 2 ^ 31" unfolding u using d31 by auto
qed

lemma float32_div_correct:
  assumes pm: "plain_mode st" and fin: "finite32 a" "finite32 b" and nz: "mag b \<noteq> 0"
    and max: "mag a * 2 ^ 149 \<le> max_mag * mag b"
  shows "correct32 st (extractFloat32Sign a \<noteq> extractFloat32Sign b) (mag a * 2 ^ 149) (mag b) (float32_div a b st)"
proof -
  define s where "s \<longleftrightarrow> extractFloat32Sign a \<noteq> extractFloat32Sign b"
  have fin': "extractFloat32Exp a = 0xFF \<longleftrightarrow> False" "extractFloat32Exp b = 0xFF \<longleftrightarrow> False"
    using fin by (simp_all add: finite32_def extract_exp)
  show ?thesis unfolding s_def [symmetric]
  proof (cases "mag a = 0")
    case True
    then have "float32_div a b st = (packFloat32 s (int 0) 0, st)"
      using fin' nz unfolding zero_iff float32_div_def by (auto simp: Let_def s_def)
    then show "correct32 st s (mag a * 2 ^ 149) (mag b) (float32_div a b st)"
      using True nz pack_correct [OF pm, of 0 "mag b" 0 s] by auto
  next
    case False
    obtain E w where na: "norm32 a = (E, w)" by force
    obtain F v where nb: "norm32 b = (F, v)" by force
    define M where "M = unat (w OR 0x00800000)"
    define N where "N = unat (v OR 0x00800000)"
    note a = norm32_sig [OF False fin(1) na M_def] and b = norm32_sig [OF nz fin(2) nb N_def]
    define A where "A = push_bit 7 (w OR 0x00800000)"
    define B where "B = push_bit 8 (v OR 0x00800000)"
    have A: "unat A = M * 2 ^ 7" unfolding A_def M_def by (rule unat_push_small) (use a(2) M_def in simp)
    have B: "unat B = N * 2 ^ 8" unfolding B_def N_def by (rule unat_push_small) (use b(2) N_def in simp)
    define zE where "zE = E - F + 0x7D"
    have eq: "float32_div a b st =
        (case (if B \<le> A + A then (drop_bit 1 A, zE + 1) else (A, zE)) of
           (A', zE') \<Rightarrow> roundAndPackFloat32 s zE' (quotient32 A' B) st)"
      by (simp only: float32_div_def Let_def fin' nonzero_operands [OF False nz] na [unfolded norm32_def] nb [unfolded norm32_def]
          if_False prod.case quotient32_def flip: A_def B_def zE_def s_def)
    have "unat (A + A) = M * 2 ^ 8" using A a(2) by (simp add: unat_word_ariths)
    then have le: "B \<le> A + A \<longleftrightarrow> N \<le> M" by (simp add: word_le_nat_alt B)
    define c :: nat where "c = (if N \<le> M then 6 else 7)"
    define A' where "A' = (if N \<le> M then drop_bit 1 A else A)"
    have A': "unat A' = M * 2 ^ c" unfolding A'_def c_def using A unat_drop_bit [of 1 A] by simp
    define zF where "zF = E - F + 0x84 - int c"
    have R: "float32_div a b st = roundAndPackFloat32 s zF (quotient32 A' B) st"
      unfolding eq le by (simp add: A'_def zF_def c_def zE_def add.commute)
    have lo: "2 ^ 30 * (N * 2 ^ 8) \<le> M * 2 ^ c * 2 ^ 32" and hi: "M * 2 ^ c * 2 ^ 32 < 2 ^ 31 * (N * 2 ^ 8)"
      using a(1,2) b(1,2) by (simp_all add: c_def)
    have Q: "stands_for 6 (unat (quotient32 A' B)) (M * 2 ^ c * 2 ^ 32) (N * 2 ^ 8)"
      "M * 2 ^ c * 2 ^ 32 div (N * 2 ^ 8) \<le> unat (quotient32 A' B)" "unat (quotient32 A' B) < 2 ^ 31"
      using quotient32_stands [of B A'] b(1) hi unfolding A' B by simp_all
    have "2 ^ 30 \<le> M * 2 ^ c * 2 ^ 32 div (N * 2 ^ 8)" using lo b(1) by (simp add: less_eq_div_iff_mult_less_eq)
    then have z30: "2 ^ 30 \<le> unat (quotient32 A' B)" using Q(2) by linarith
    have at: "stands_at 6 (unat (quotient32 A' B)) zF (mag a * 2 ^ 149) (mag b)"
    proof (rule stands_atI [OF Q(1)])
      have "M * mag b * 2 ^ (c + 32 + nat zF) = mag a * N * 2 ^ (149 + (7 + nat (- zF)) + 8)"
        by (rule weights [OF a(3) b(3) [symmetric]]) (use zF_def c_def in \<open>auto split: if_splits\<close>)
      then show "M * 2 ^ c * 2 ^ 32 * (mag b * 2 ^ nat zF) = mag a * 2 ^ 149 * 2 ^ (7 + nat (- zF)) * (N * 2 ^ 8)"
        by (simp only: power_add ac_simps)
    qed (use nz in simp)
    have zF: "- 60000 < zF" using a(4) b(5) by (simp add: zF_def c_def)
    show "correct32 st s (mag a * 2 ^ 149) (mag b) (float32_div a b st)"
      unfolding R by (rule roundAndPackFloat32_correct [OF pm z30 Q(3) _ at _ max zF]) (use nz in simp_all)
  qed
qed

section \<open>The operations on numbers\<close>

text \<open>
  What an operation owes for the exact value n / d in units of 2^-149: the correctly rounded
  float32, the status unchanged when that is exact, and the inexact flag (bit 5) when it is not.
\<close>

definition delivers :: "float_status \<Rightarrow> int \<Rightarrow> int \<Rightarrow> u32 \<times> float_status \<Rightarrow> bool" where
  "delivers st n d R \<longleftrightarrow> rounded (float_rounding_mode st) n d (fst R) \<and>
     (if fval (fst R) * d = n then snd R = st else bit (float_exception_flags (snd R)) 5)"

lemma correct32_delivers: "correct32 st s p q R \<Longrightarrow> delivers st (signed s p) (int q) R"
  by (auto simp: correct32_def delivers_def fval_signed signed_def simp flip: of_nat_mult)

lemma addFloat32Sigs_delivers:
  assumes "plain_mode st" "finite32 a" "finite32 b" "\<bar>signed s (mag a) + signed s (mag b)\<bar> \<le> int max_mag"
  shows "delivers st (signed s (mag a) + signed s (mag b)) 1 (addFloat32Sigs a b s st)"
proof -
  have "signed s (mag a) + signed s (mag b) = signed s (mag a + mag b)" by (simp add: signed_def)
  moreover have "mag a + mag b \<le> max_mag" using assms(4) by (cases s) (simp_all add: signed_def)
  ultimately show ?thesis using correct32_delivers [OF addFloat32Sigs_correct [OF assms(1-3)], of s] by simp
qed

lemma subFloat32Sigs_delivers:
  assumes "plain_mode st" "finite32 a" "finite32 b"
  shows "delivers st (signed s (mag a) - signed s (mag b)) 1 (subFloat32Sigs a b s st)"
proof (cases "mag b < mag a")
  case True
  then have "signed s (mag a) - signed s (mag b) = signed s (mag a - mag b)" by (simp add: signed_def)
  then show ?thesis using correct32_delivers [OF subFloat32Sigs_correct(1) [OF assms True], of s] by simp
next
  case False
  show ?thesis
  proof (cases "mag a < mag b")
    case True
    then have "signed s (mag a) - signed s (mag b) = signed (\<not> s) (mag b - mag a)" by (simp add: signed_def)
    then show ?thesis using correct32_delivers [OF subFloat32Sigs_correct(2) [OF assms True], of s] by simp
  next
    case eq: False
    let ?m = "float_rounding_mode st = 1"
    have "delivers st (signed ?m 0) (int 1) (packFloat32 ?m (int 0) 0, st)"
      by (rule correct32_delivers [OF pack_correct [OF assms(1)]]) simp_all
    moreover have "signed ?m 0 = 0" by (simp add: signed_def)
    ultimately show ?thesis using False eq subFloat32Sigs_correct(3) [OF assms, of s] by simp
  qed
qed

text \<open>
  C3: on finite operands and in each of the four rounding modes (without flush-to-zero), float32_add
  and float32_sub return the float32 that correctly rounds the exact sum or difference, subnormal
  operands and results included, whenever it is not larger than the largest finite number; an exact
  result leaves the status untouched and any other raises the inexact flag.
\<close>

lemma float32_add_sub_correct:
  assumes "plain_mode st" "finite32 a" "finite32 b"
  shows "(\<bar>fval a + fval b\<bar> \<le> int max_mag \<longrightarrow> delivers st (fval a + fval b) 1 (float32_add a b st)) \<and>
    (\<bar>fval a - fval b\<bar> \<le> int max_mag \<longrightarrow> delivers st (fval a - fval b) 1 (float32_sub a b st))"
proof (cases "extractFloat32Sign a = extractFloat32Sign b")
  case True
  then show ?thesis
    using addFloat32Sigs_delivers [OF assms, of "extractFloat32Sign b"]
      subFloat32Sigs_delivers [OF assms, of "extractFloat32Sign b"]
    by (simp add: float32_add_def float32_sub_def fval_signed)
next
  case False
  then have "fval b = - signed (extractFloat32Sign a) (mag b)" by (auto simp: fval_signed signed_def)
  then show ?thesis
    using False addFloat32Sigs_delivers [OF assms, of "extractFloat32Sign a"]
      subFloat32Sigs_delivers [OF assms, of "extractFloat32Sign a"]
    by (simp add: float32_add_def float32_sub_def fval_signed)
qed

definition status0 :: float_status where
  "status0 = \<lparr>float_detect_tininess = 0, float_rounding_mode = 0, float_exception_flags = 0,
     floatx80_rounding_precision = 0, flush_to_zero = False, default_nan_mode = False\<rparr>"

lemmas eval32 = finite32_def fval_def mag_def exp32_def frac32_def extractFloat32Sign_def max_mag_def

lemma float32_add_sub_correct_witness:
  "delivers status0 (fval 0x3F800000 + fval 0xB3000001) 1 (float32_add 0x3F800000 0xB3000001 status0) \<and>
   delivers status0 (fval 0x3F800000 - fval 0x00000001) 1 (float32_sub 0x3F800000 0x00000001 status0)"
proof -
  have p: "plain_mode status0" by (simp add: plain_mode_def status0_def)
  have f: "finite32 0x3F800000" "finite32 0xB3000001" "finite32 0x00000001" by (simp_all add: eval32)
  have m: "\<bar>fval 0x3F800000 + fval 0xB3000001\<bar> \<le> int max_mag" "\<bar>fval 0x3F800000 - fval 0x00000001\<bar> \<le> int max_mag"
    by (simp_all add: eval32)
  show ?thesis
    using float32_add_sub_correct [OF p f(1,2)] float32_add_sub_correct [OF p f(1,3)] m by blast
qed

text \<open>
  C6: the same for float32_mul and float32_div: the result correctly rounds the exact product, or
  the exact quotient by a nonzero divisor, in units of 2^-149.
\<close>

lemma float32_mul_div_correct:
  assumes "plain_mode st" "finite32 a" "finite32 b"
  shows "(\<bar>fval a * fval b\<bar> \<le> int max_mag * 2 ^ 149 \<longrightarrow>
      delivers st (fval a * fval b) (2 ^ 149) (float32_mul a b st)) \<and>
    (fval b \<noteq> 0 \<and> \<bar>fval a\<bar> * 2 ^ 149 \<le> int max_mag * \<bar>fval b\<bar> \<longrightarrow>
      delivers st (sgn (fval b) * fval a * 2 ^ 149) \<bar>fval b\<bar> (float32_div a b st))"
proof -
  let ?s = "extractFloat32Sign a \<noteq> extractFloat32Sign b"
  have b: "\<bar>fval c\<bar> = int (mag c)" for c by (simp add: fval_def)
  have m: "fval a * fval b = signed ?s (mag a * mag b)" by (simp add: fval_signed signed_def)
  have "delivers st (fval a * fval b) (2 ^ 149) (float32_mul a b st)"
    if "\<bar>fval a * fval b\<bar> \<le> int max_mag * 2 ^ 149"
  proof -
    have "int (mag a * mag b) \<le> int (max_mag * 2 ^ 149)" using that by (simp add: abs_mult b)
    then have "mag a * mag b \<le> max_mag * 2 ^ 149" by (simp only: of_nat_le_iff)
    from correct32_delivers [OF float32_mul_correct [OF assms this]] show ?thesis unfolding m by simp
  qed
  moreover have "delivers st (sgn (fval b) * fval a * 2 ^ 149) \<bar>fval b\<bar> (float32_div a b st)"
    if "fval b \<noteq> 0" "\<bar>fval a\<bar> * 2 ^ 149 \<le> int max_mag * \<bar>fval b\<bar>"
  proof -
    have nz: "mag b \<noteq> 0" using that(1) by (simp add: fval_def split: if_splits)
    have d: "sgn (fval b) * fval a * 2 ^ 149 = signed ?s (mag a * 2 ^ 149)"
      using nz by (simp add: fval_signed signed_def)
    have "int (mag a * 2 ^ 149) \<le> int (max_mag * mag b)" using that(2) by (simp add: b)
    then have "mag a * 2 ^ 149 \<le> max_mag * mag b" by (simp only: of_nat_le_iff)
    from correct32_delivers [OF float32_div_correct [OF assms nz this]] show ?thesis unfolding d b .
  qed
  ultimately show ?thesis by blast
qed

lemma float32_mul_div_correct_witness:
  "delivers status0 (fval 0x3FC00001 * fval 0xBFC00001) (2 ^ 149) (float32_mul 0x3FC00001 0xBFC00001 status0) \<and>
   delivers status0 (sgn (fval 0xC0400000) * fval 0x3F800000 * 2 ^ 149) \<bar>fval 0xC0400000\<bar>
     (float32_div 0x3F800000 0xC0400000 status0)"
proof -
  have p: "plain_mode status0" by (simp add: plain_mode_def status0_def)
  have f: "finite32 0x3FC00001" "finite32 0xBFC00001" "finite32 0x3F800000" "finite32 0xC0400000" by (simp_all add: eval32)
  have m: "\<bar>fval 0x3FC00001 * fval 0xBFC00001\<bar> \<le> int max_mag * 2 ^ 149"
    "fval 0xC0400000 \<noteq> 0" "\<bar>fval 0x3F800000\<bar> * 2 ^ 149 \<le> int max_mag * \<bar>fval 0xC0400000\<bar>"
    by (simp_all add: eval32)
  show ?thesis
    using float32_mul_div_correct [OF p f(1,2)] float32_mul_div_correct [OF p f(3,4)] m by blast
qed

end
