(* ===== verification/Float32_Special.thy ===== *)
theory Float32_Special
  imports Float32_Arith
begin

text \<open>
  The operands that are not numbers: what the tests of fpu/softfloat-specialize.h and fpu/softfloat.h
  say of the fields of a float32, the NaN that an operation with a NaN operand returns, and the
  invalid operations.
\<close>

section \<open>Classification\<close>

definition nan32 :: "u32 \<Rightarrow> bool" where
  "nan32 a \<longleftrightarrow> exp32 a = 255 \<and> frac32 a \<noteq> 0"

lemma fields32: "unat a mod 2 ^ 31 = exp32 a * 2 ^ 23 + frac32 a"
proof -
  have "unat a mod 2 ^ (23 + 8) = 2 ^ 23 * (unat a div 2 ^ 23 mod 2 ^ 8) + unat a mod 2 ^ 23"
    unfolding power_add by (rule mod_mult2_eq)
  then show ?thesis by (simp add: exp32_def frac32_def)
qed

lemma unat_push_1: "unat (push_bit 1 (a :: u32)) = 2 * (unat a mod 2 ^ 31)"
  using mod_mult_mult2 [of "unat a" 2 "2 ^ 31"] by (simp add: push_bit_eq_mult unat_word_ariths)

lemma quiet_iff: "float32_is_nan a \<longleftrightarrow> exp32 a = 255 \<and> 2 ^ 22 \<le> frac32 a"
proof -
  have "float32_is_nan a \<longleftrightarrow> 0xFF800000 \<le> 2 * (exp32 a * 2 ^ 23 + frac32 a)"
    unfolding float32_is_nan_def word_le_nat_alt unat_push_1 fields32 by simp
  also have "\<dots> \<longleftrightarrow> exp32 a = 255 \<and> 2 ^ 22 \<le> frac32 a"
    using frac32_lt [of a] exp32_lt [of a] by auto
  finally show ?thesis .
qed

lemma signaling_iff: "float32_is_signaling_nan a \<longleftrightarrow> exp32 a = 255 \<and> 0 < frac32 a \<and> frac32 a < 2 ^ 22"
proof -
  have lo: "unat (a AND 0x003FFFFF) = frac32 a mod 2 ^ 22"
  proof -
    have "a AND 0x003FFFFF = take_bit 22 a" by (simp add: take_bit_eq_mask mask_eq_exp_minus_1)
    then show ?thesis by (simp only: unat_take_bit) (simp add: frac32_def mod_mod_cancel)
  qed
  have "unat (drop_bit 22 a AND 0x1FF) = unat a div 2 ^ 22 mod 2 ^ 9"
  proof -
    have "drop_bit 22 a AND 0x1FF = take_bit 9 (drop_bit 22 a)" by (simp add: take_bit_eq_mask mask_eq_exp_minus_1)
    then show ?thesis by (simp only: unat_take_bit unat_drop_bit)
  qed
  also have "\<dots> = (unat a mod 2 ^ 31) div 2 ^ 22" by (simp only: div_exp_mod_exp_eq) simp
  also have "\<dots> = 2 * exp32 a + frac32 a div 2 ^ 22" unfolding fields32 by simp
  finally have hi: "drop_bit 22 a AND 0x1FF = 0x1FE \<longleftrightarrow> 2 * exp32 a + frac32 a div 2 ^ 22 = 510"
    by (simp add: word_unat_eq_iff)
  have par: "x \<le> 1 \<Longrightarrow> 2 * e + x = 510 \<longleftrightarrow> e = 255 \<and> x = 0" for e x :: nat by arith
  have "2 * exp32 a + frac32 a div 2 ^ 22 = 510 \<longleftrightarrow> exp32 a = 255 \<and> frac32 a div 2 ^ 22 = 0"
    by (rule par) (use frac32_lt [of a] in simp)
  moreover have "frac32 a div 2 ^ 22 = 0 \<longleftrightarrow> frac32 a < 2 ^ 22" by (simp add: div_eq_0_iff)
  moreover have "a AND 0x003FFFFF \<noteq> 0 \<longleftrightarrow> 0 < frac32 a mod 2 ^ 22" using lo by (simp add: unat_eq_0 [symmetric])
  ultimately show ?thesis unfolding float32_is_signaling_nan_def hi by auto
qed

lemma quieted:
  fixes a :: u32
  assumes "nan32 a"
  shows "float32_is_nan (a OR 0x00400000)"
proof -
  let ?q = "a OR 0x00400000"
  have "drop_bit 23 ?q = drop_bit 23 a" by (simp add: drop_bit_or)
  then have "unat ?q div 2 ^ 23 = unat a div 2 ^ 23" by (metis unat_drop_bit)
  then have "exp32 ?q = 255" using assms by (simp add: nan32_def exp32_def)
  moreover have "extractFloat32Frac ?q = extractFloat32Frac a OR 0x00400000"
    by (simp add: extractFloat32Frac_def bit.conj_disj_distrib2)
  then have "(0x00400000 :: u32) \<le> extractFloat32Frac ?q" by (simp add: le_word_or1)
  then have "2 ^ 22 \<le> frac32 ?q" by (simp add: word_le_nat_alt extract_frac)
  ultimately show ?thesis by (simp add: quiet_iff)
qed

section \<open>Propagation of NaNs\<close>

lemma larger_cases: "returnLargerSignificand x y = x \<or> returnLargerSignificand x y = y"
  by (simp add: returnLargerSignificand_def)

lemma default_nan_quiet: "float32_is_nan float32_default_nan"
  by (simp add: float32_is_nan_def float32_default_nan_def)

lemma quiet_or_signaling: "nan32 a \<longleftrightarrow> float32_is_nan a \<or> float32_is_signaling_nan a"
  "float32_is_nan a \<Longrightarrow> \<not> float32_is_signaling_nan a"
  by (auto simp: nan32_def quiet_iff signaling_iff)

definition nan_rule :: "u32 \<Rightarrow> u32 \<Rightarrow> float_status \<Rightarrow> u32 \<times> float_status \<Rightarrow> bool" where
  "nan_rule a b st R \<longleftrightarrow> float32_is_nan (fst R) \<and>
     (if default_nan_mode st then R = (float32_default_nan, st)
      else (fst R = a OR 0x00400000 \<and> nan32 a \<or> fst R = b OR 0x00400000 \<and> nan32 b) \<and>
        snd R = (if float32_is_signaling_nan a \<or> float32_is_signaling_nan b
                 then float_raise 1 st else st))"

lemma propagate_rule:
  assumes "nan32 a \<or> nan32 b"
  shows "nan_rule a b st (propagateFloat32NaN a b st)"
proof (cases "default_nan_mode st")
  case True
  then show ?thesis by (simp add: nan_rule_def propagateFloat32NaN_def default_nan_quiet)
next
  case False
  let ?r = "fst (propagateFloat32NaN a b st)"
  have "?r = a OR 0x00400000 \<and> nan32 a \<or> ?r = b OR 0x00400000 \<and> nan32 b"
    using False assms larger_cases [of "a OR 0x00400000" "b OR 0x00400000"]
    by (auto simp: propagateFloat32NaN_def Let_def quiet_or_signaling)
  moreover from this have "float32_is_nan ?r" using quieted [of a] quieted [of b] by auto
  moreover have "snd (propagateFloat32NaN a b st) = (if float32_is_signaling_nan a \<or> float32_is_signaling_nan b
      then float_raise 1 st else st)"
    using False by (simp add: propagateFloat32NaN_def Let_def)
  ultimately show ?thesis using False by (simp add: nan_rule_def)
qed

lemma frac_push_zero: "k \<le> 8 \<Longrightarrow> push_bit k (extractFloat32Frac a) = 0 \<longleftrightarrow> frac32 a = 0"
  using frac_push [of k a] by (simp add: unat_eq_0 [symmetric])

lemma frac_zero: "extractFloat32Frac a = 0 \<longleftrightarrow> frac32 a = 0"
  by (simp add: unat_eq_0 [symmetric] extract_frac)

lemma or_eq_zero: "(x :: u32) OR y = 0 \<longleftrightarrow> x = 0 \<and> y = 0"
  by (auto simp: bit_eq_iff bit_or_iff)

lemmas special_simps = extract_exp frac_push_zero frac_zero or_eq_zero Let_def

lemma nan_cases:
  assumes "nan32 a \<or> nan32 b"
  obtains (both) "exp32 a = 255" "exp32 b = 255" "frac32 a = 0 \<longrightarrow> frac32 b \<noteq> 0"
  | (left) "exp32 a = 255" "exp32 b < 255" "0 < frac32 a"
  | (right) "exp32 a < 255" "exp32 b = 255" "0 < frac32 b"
proof -
  have "exp32 a < 255 \<or> exp32 a = 255" "exp32 b < 255 \<or> exp32 b = 255"
    using exp32_lt [of a] exp32_lt [of b] by linarith+
  then show thesis using assms that unfolding nan32_def by auto
qed

lemma nan_operand:
  assumes "nan32 a \<or> nan32 b"
  shows "addFloat32Sigs a b s st = propagateFloat32NaN a b st"
    "subFloat32Sigs a b s st = propagateFloat32NaN a b st"
    "float32_mul a b st = propagateFloat32NaN a b st"
    "float32_div a b st = propagateFloat32NaN a b st"
proof -
  show "addFloat32Sigs a b s st = propagateFloat32NaN a b st"
    using assms by (cases rule: nan_cases) (auto simp: addFloat32Sigs_def special_simps)
  show "subFloat32Sigs a b s st = propagateFloat32NaN a b st"
    using assms by (cases rule: nan_cases) (auto simp: subFloat32Sigs_def special_simps)
  show "float32_mul a b st = propagateFloat32NaN a b st"
    using assms by (cases rule: nan_cases) (auto simp: float32_mul_def special_simps)
  show "float32_div a b st = propagateFloat32NaN a b st"
    using assms by (cases rule: nan_cases) (auto simp: float32_div_def special_simps)
qed

section \<open>The operations\<close>

lemma and_7fffffff: "unat (a AND 0x7fffffff :: u32) = exp32 a * 2 ^ 23 + frac32 a"
proof -
  have "a AND 0x7fffffff = take_bit 31 a" by (simp add: take_bit_eq_mask mask_eq_exp_minus_1)
  then show ?thesis by (simp only: unat_take_bit fields32)
qed

lemma inf_iff: "float32_is_infinity a \<longleftrightarrow> exp32 a = 255 \<and> frac32 a = 0"
  unfolding float32_is_infinity_def word_unat_eq_iff and_7fffffff
  using digits_eq_iff [of "frac32 a" "2 ^ 23" 0 "exp32 a" 255] frac32_lt [of a] by (simp add: mult.commute)

lemma is_zero_iff: "float32_is_zero a \<longleftrightarrow> exp32 a = 0 \<and> frac32 a = 0"
  unfolding float32_is_zero_def word_unat_eq_iff and_7fffffff by simp

lemma nan_operands_rule:
  assumes "nan32 a \<or> nan32 b"
  shows "nan_rule a b st (float32_add a b st) \<and> nan_rule a b st (float32_sub a b st) \<and>
    nan_rule a b st (float32_mul a b st) \<and> nan_rule a b st (float32_div a b st)"
  using propagate_rule [OF assms, of st] nan_operand [OF assms]
  by (simp add: float32_add_def float32_sub_def Let_def)

lemma invalid_operations:
  "(float32_is_infinity a \<and> float32_is_infinity b \<longrightarrow>
      (if extractFloat32Sign a = extractFloat32Sign b then float32_sub a b st else float32_add a b st)
        = (float32_default_nan, float_raise 1 st)) \<and>
   (float32_is_infinity a \<and> float32_is_zero b \<or> float32_is_zero a \<and> float32_is_infinity b \<longrightarrow>
      float32_mul a b st = (float32_default_nan, float_raise 1 st)) \<and>
   (float32_is_infinity a \<and> float32_is_infinity b \<or> float32_is_zero a \<and> float32_is_zero b \<longrightarrow>
      float32_div a b st = (float32_default_nan, float_raise 1 st)) \<and>
   (finite32 a \<and> \<not> float32_is_zero a \<and> float32_is_zero b \<longrightarrow>
      float32_div a b st = (packFloat32 (extractFloat32Sign a \<noteq> extractFloat32Sign b) 0xFF 0, float_raise 4 st))"
proof (intro conjI impI)
  show "(if extractFloat32Sign a = extractFloat32Sign b then float32_sub a b st else float32_add a b st)
        = (float32_default_nan, float_raise 1 st)"
    if "float32_is_infinity a \<and> float32_is_infinity b"
    using that by (simp add: inf_iff float32_add_def float32_sub_def subFloat32Sigs_def special_simps)
  show "float32_mul a b st = (float32_default_nan, float_raise 1 st)"
    if "float32_is_infinity a \<and> float32_is_zero b \<or> float32_is_zero a \<and> float32_is_infinity b"
    using that by (elim disjE) (simp_all add: inf_iff is_zero_iff float32_mul_def special_simps)
  show "float32_div a b st = (float32_default_nan, float_raise 1 st)"
    if "float32_is_infinity a \<and> float32_is_infinity b \<or> float32_is_zero a \<and> float32_is_zero b"
    using that by (elim disjE) (simp_all add: inf_iff is_zero_iff float32_div_def special_simps)
  show "float32_div a b st = (packFloat32 (extractFloat32Sign a \<noteq> extractFloat32Sign b) 0xFF 0, float_raise 4 st)"
    if "finite32 a \<and> \<not> float32_is_zero a \<and> float32_is_zero b"
    using that by (elim conjE) (simp add: finite32_def is_zero_iff float32_div_def special_simps, auto)
qed

text \<open>
  C34: the operands that are not numbers. With a NaN operand every operation returns a quiet NaN: the
  default NaN in default-NaN mode, and otherwise one of the NaN operands with its quiet bit set,
  raising invalid exactly when an operand is signaling. The difference of two infinities, infinity
  times zero, zero by zero and infinity by infinity give the default NaN and raise invalid. A nonzero
  number divided by zero gives an infinity of the right sign and raises divide-by-zero.
\<close>

lemma float32_special_operands:
  "(nan32 a \<or> nan32 b \<longrightarrow>
      nan_rule a b st (float32_add a b st) \<and> nan_rule a b st (float32_sub a b st) \<and>
      nan_rule a b st (float32_mul a b st) \<and> nan_rule a b st (float32_div a b st)) \<and>
   (float32_is_infinity a \<and> float32_is_infinity b \<longrightarrow>
      (if extractFloat32Sign a = extractFloat32Sign b then float32_sub a b st else float32_add a b st)
        = (float32_default_nan, float_raise 1 st)) \<and>
   (float32_is_infinity a \<and> float32_is_zero b \<or> float32_is_zero a \<and> float32_is_infinity b \<longrightarrow>
      float32_mul a b st = (float32_default_nan, float_raise 1 st)) \<and>
   (float32_is_infinity a \<and> float32_is_infinity b \<or> float32_is_zero a \<and> float32_is_zero b \<longrightarrow>
      float32_div a b st = (float32_default_nan, float_raise 1 st)) \<and>
   (finite32 a \<and> \<not> float32_is_zero a \<and> float32_is_zero b \<longrightarrow>
      float32_div a b st = (packFloat32 (extractFloat32Sign a \<noteq> extractFloat32Sign b) 0xFF 0, float_raise 4 st))"
  using nan_operands_rule [of a b st] invalid_operations [of a b st] by blast

lemma float32_special_operands_witness:
  "nan_rule 0x7F800001 0x3F800000 status0 (float32_add 0x7F800001 0x3F800000 status0) \<and>
   float32_sub 0x7F800000 0x7F800000 status0 = (float32_default_nan, float_raise 1 status0) \<and>
   float32_mul 0x7F800000 0 status0 = (float32_default_nan, float_raise 1 status0) \<and>
   float32_div 0 0 status0 = (float32_default_nan, float_raise 1 status0) \<and>
   float32_div 0x3F800000 0x80000000 status0 = (packFloat32 True 0xFF 0, float_raise 4 status0)"
proof -
  have "nan32 0x7F800001" by (simp add: nan32_def eval32)
  then have "nan_rule 0x7F800001 0x3F800000 status0 (float32_add 0x7F800001 0x3F800000 status0)"
    using float32_special_operands [of "0x7F800001" "0x3F800000" status0] by blast
  then show ?thesis
    using float32_special_operands [of "0x7F800000" "0x7F800000" status0]
      float32_special_operands [of "0x7F800000" "0" status0] float32_special_operands [of "0" "0" status0]
      float32_special_operands [of "0x3F800000" "0x80000000" status0]
    by (simp add: float32_is_infinity_def float32_is_zero_def eval32)
qed

end
