(* ===== verification/Float32_Conv.thy ===== *)
theory Float32_Conv
  imports Float32_Special
begin

text \<open>
  Conversions between single precision and integers, comparisons, rounding to an integral value and
  scaling (fpu/softfloat.c). Signed integers of the source are words read in two's complement.
\<close>

section \<open>Conversion to integers\<close>

definition roundAndPackInt32 :: "bool \<Rightarrow> u64 \<Rightarrow> float_status \<Rightarrow> u32 \<times> float_status" where
  "roundAndPackInt32 zSign absZ st =
     (let roundNearestEven = (float_rounding_mode st = float_round_nearest_even);
          roundBits = absZ AND 0x7F;
          absZ = drop_bit 7 (absZ + roundIncrement (float_rounding_mode st) zSign);
          absZ = absZ AND NOT (of_bool (roundBits XOR 0x40 = 0 \<and> roundNearestEven));
          z = ucast absZ :: u32;
          z = (if zSign then - z else z)
      in if drop_bit 32 absZ \<noteq> 0 \<or> z \<noteq> 0 \<and> (sint z < 0) \<noteq> zSign then
           (if zSign then 0x80000000 else 0x7FFFFFFF, float_raise float_flag_invalid st)
         else (z, if roundBits \<noteq> 0 then float_raise float_flag_inexact st else st))"

definition roundAndPackInt64 :: "bool \<Rightarrow> u64 \<Rightarrow> u64 \<Rightarrow> float_status \<Rightarrow> u64 \<times> float_status" where
  "roundAndPackInt64 zSign absZ0 absZ1 st =
     (let roundingMode = float_rounding_mode st;
          roundNearestEven = (roundingMode = float_round_nearest_even);
          increment =
            (if roundNearestEven then sint absZ1 < 0
             else if roundingMode = float_round_to_zero then False
             else if zSign then roundingMode = float_round_down \<and> absZ1 \<noteq> 0
             else roundingMode = float_round_up \<and> absZ1 \<noteq> 0);
          overflow = (if zSign then 0x8000000000000000 else 0x7FFFFFFFFFFFFFFF, float_raise float_flag_invalid st);
          incremented = absZ0 + 1;
          absZ0' = (if increment
                    then incremented AND NOT (of_bool (push_bit 1 absZ1 = 0 \<and> roundNearestEven)) else absZ0);
          z = (if zSign then - absZ0' else absZ0')
      in if increment \<and> incremented = 0 then overflow
         else if z \<noteq> 0 \<and> (sint z < 0) \<noteq> zSign then overflow
         else (z, if absZ1 \<noteq> 0 then float_raise float_flag_inexact st else st))"

definition float32_to_int32 :: "u32 \<Rightarrow> float_status \<Rightarrow> u32 \<times> float_status" where
  "float32_to_int32 a st =
     (let aSig = extractFloat32Frac a;
          aExp = extractFloat32Exp a;
          aSign = (extractFloat32Sign a \<and> \<not> (aExp = 0xFF \<and> aSig \<noteq> 0));
          aSig = (if aExp \<noteq> 0 then aSig OR 0x00800000 else aSig);
          shiftCount = 0xAF - aExp;
          aSig64 = push_bit 32 (ucast aSig :: u64);
          aSig64 = (if 0 < shiftCount then shift64RightJamming aSig64 (nat shiftCount) else aSig64)
      in roundAndPackInt32 aSign aSig64 st)"

definition float32_to_int32_round_to_zero :: "u32 \<Rightarrow> float_status \<Rightarrow> u32 \<times> float_status" where
  "float32_to_int32_round_to_zero a st =
     (let aSig = extractFloat32Frac a;
          aExp = extractFloat32Exp a;
          aSign = extractFloat32Sign a;
          shiftCount = aExp - 0x9E
      in if 0 \<le> shiftCount then
           if a \<noteq> 0xCF000000 then
             (if \<not> aSign \<or> aExp = 0xFF \<and> aSig \<noteq> 0 then 0x7FFFFFFF else 0x80000000,
              float_raise float_flag_invalid st)
           else (0x80000000, st)
         else if aExp \<le> 0x7E then
           (0, if aExp \<noteq> 0 \<or> aSig \<noteq> 0 then float_raise float_flag_inexact st else st)
         else
           let aSig = push_bit 8 (aSig OR 0x00800000);
               z = drop_bit (nat (- shiftCount)) aSig;
               st = (if push_bit (nat (shiftCount mod 32)) aSig \<noteq> 0 then float_raise float_flag_inexact st else st)
           in (if aSign then - z else z, st))"

definition float32_to_int64 :: "u32 \<Rightarrow> float_status \<Rightarrow> u64 \<times> float_status" where
  "float32_to_int64 a st =
     (let aSig = extractFloat32Frac a;
          aExp = extractFloat32Exp a;
          aSign = extractFloat32Sign a;
          shiftCount = 0xBE - aExp
      in if shiftCount < 0 then
           (if \<not> aSign \<or> aExp = 0xFF \<and> aSig \<noteq> 0 then 0x7FFFFFFFFFFFFFFF else 0x8000000000000000,
            float_raise float_flag_invalid st)
         else
           let aSig = (if aExp \<noteq> 0 then aSig OR 0x00800000 else aSig);
               aSig64 = push_bit 40 (ucast aSig :: u64);
               (aSig64, aSigExtra) = shift64ExtraRightJamming aSig64 0 (nat shiftCount)
           in roundAndPackInt64 aSign aSig64 aSigExtra st)"

definition float32_to_int64_round_to_zero :: "u32 \<Rightarrow> float_status \<Rightarrow> u64 \<times> float_status" where
  "float32_to_int64_round_to_zero a st =
     (let aSig = extractFloat32Frac a;
          aExp = extractFloat32Exp a;
          aSign = extractFloat32Sign a;
          shiftCount = aExp - 0xBE
      in if 0 \<le> shiftCount then
           if a \<noteq> 0xDF000000 then
             (if \<not> aSign \<or> aExp = 0xFF \<and> aSig \<noteq> 0 then 0x7FFFFFFFFFFFFFFF else 0x8000000000000000,
              float_raise float_flag_invalid st)
           else (0x8000000000000000, st)
         else if aExp \<le> 0x7E then
           (0, if aExp \<noteq> 0 \<or> aSig \<noteq> 0 then float_raise float_flag_inexact st else st)
         else
           let aSig64 = push_bit 40 (ucast (aSig OR 0x00800000) :: u64);
               z = drop_bit (nat (- shiftCount)) aSig64;
               st = (if push_bit (nat (shiftCount mod 64)) aSig64 \<noteq> 0 then float_raise float_flag_inexact st else st)
           in (if aSign then - z else z, st))"

definition float32_to_uint32 :: "u32 \<Rightarrow> float_status \<Rightarrow> u32 \<times> float_status" where
  "float32_to_uint32 a st =
     (let (v, st) = float32_to_int64 a st
      in if sint v < 0 then (0, float_raise float_flag_invalid st)
         else if 0xffffffff < sint v then (0xffffffff, float_raise float_flag_invalid st)
         else (ucast v, st))"

definition float32_to_uint32_round_to_zero :: "u32 \<Rightarrow> float_status \<Rightarrow> u32 \<times> float_status" where
  "float32_to_uint32_round_to_zero a st =
     (let (v, st) = float32_to_int64_round_to_zero a st
      in if sint v < 0 then (0, float_raise float_flag_invalid st)
         else if 0xffffffff < sint v then (0xffffffff, float_raise float_flag_invalid st)
         else (ucast v, st))"

definition float32_round_to_int :: "u32 \<Rightarrow> float_status \<Rightarrow> u32 \<times> float_status" where
  "float32_round_to_int a st =
     (let aExp = extractFloat32Exp a; roundingMode = float_rounding_mode st
      in if 0x96 \<le> aExp then
           if aExp = 0xFF \<and> extractFloat32Frac a \<noteq> 0 then propagateFloat32NaN a a st else (a, st)
         else if aExp \<le> 0x7E then
           if push_bit 1 a = 0 then (a, st)
           else
             let st = float_raise float_flag_inexact st;
                 aSign = extractFloat32Sign a
             in (if roundingMode = float_round_nearest_even \<and> aExp = 0x7E \<and> extractFloat32Frac a \<noteq> 0
                 then packFloat32 aSign 0x7F 0
                 else if roundingMode = float_round_down then (if aSign then 0xBF800000 else 0)
                 else if roundingMode = float_round_up then (if aSign then 0x80000000 else 0x3F800000)
                 else packFloat32 aSign 0 0, st)
         else
           let lastBitMask = push_bit (nat (0x96 - aExp)) 1;
               roundBitsMask = lastBitMask - 1;
               z = (if roundingMode = float_round_nearest_even then
                      let z = a + drop_bit 1 lastBitMask
                      in if z AND roundBitsMask = 0 then z AND NOT lastBitMask else z
                    else if roundingMode \<noteq> float_round_to_zero then
                      if extractFloat32Sign a \<noteq> (roundingMode = float_round_up) then a + roundBitsMask else a
                    else a);
               z = z AND NOT roundBitsMask
           in (z, if z \<noteq> a then float_raise float_flag_inexact st else st))"

section \<open>Conversion from integers\<close>

definition int32_to_float32 :: "u32 \<Rightarrow> float_status \<Rightarrow> u32 \<times> float_status" where
  "int32_to_float32 a st =
     (if a = 0 then (0, st)
      else if a = 0x80000000 then (packFloat32 True 0x9E 0, st)
      else
        let zSign = (sint a < 0)
        in normalizeRoundAndPackFloat32 zSign 0x9C (if zSign then - a else a) st)"

definition int64_to_float32 :: "u64 \<Rightarrow> float_status \<Rightarrow> u32 \<times> float_status" where
  "int64_to_float32 a st =
     (if a = 0 then (0, st)
      else
        let zSign = (sint a < 0);
            absA = (if zSign then - a else a);
            shiftCount = int (countLeadingZeros64 absA) - 40
        in if 0 \<le> shiftCount
           then (packFloat32 zSign (0x95 - shiftCount) (ucast (push_bit (nat shiftCount) absA)), st)
           else
             let shiftCount = shiftCount + 7;
                 absA = (if shiftCount < 0 then shift64RightJamming absA (nat (- shiftCount))
                         else push_bit (nat shiftCount) absA)
             in roundAndPackFloat32 zSign (0x9C - shiftCount) (ucast absA) st)"

text \<open>The sign argument in the source is the expression \<open>1 > 0\<close>.\<close>

definition uint64_to_float32 :: "u64 \<Rightarrow> float_status \<Rightarrow> u32 \<times> float_status" where
  "uint64_to_float32 a st =
     (if a = 0 then (0, st)
      else
        let zSign = ((1 :: int) > 0);
            shiftCount = int (countLeadingZeros64 a) - 40
        in if 0 \<le> shiftCount
           then (packFloat32 zSign (0x95 - shiftCount) (ucast (push_bit (nat shiftCount) a)), st)
           else
             let shiftCount = shiftCount + 7;
                 a = (if shiftCount < 0 then shift64RightJamming a (nat (- shiftCount))
                      else push_bit (nat shiftCount) a)
             in roundAndPackFloat32 zSign (0x9C - shiftCount) (ucast a) st)"

definition uint32_to_float32 :: "u32 \<Rightarrow> float_status \<Rightarrow> u32 \<times> float_status" where
  "uint32_to_float32 a st = int64_to_float32 (ucast a) st"

text \<open>a times two to the power n.\<close>

definition float32_scalbn :: "u32 \<Rightarrow> int \<Rightarrow> float_status \<Rightarrow> u32 \<times> float_status" where
  "float32_scalbn a n st =
     (let aSig = extractFloat32Frac a;
          aExp = extractFloat32Exp a;
          aSign = extractFloat32Sign a
      in if aExp = 0xFF then (a, st)
         else if aExp = 0 \<and> aSig = 0 then (a, st)
         else
           let aSig = (if aExp \<noteq> 0 then aSig OR 0x00800000 else aSig);
               aExp = aExp + (n - 1);
               aSig = push_bit 7 aSig
           in normalizeRoundAndPackFloat32 aSign aExp aSig st)"

section \<open>Comparisons\<close>

text \<open>The test whether one of the operands is a NaN, at the start of every comparison.\<close>

definition unordered :: "u32 \<Rightarrow> u32 \<Rightarrow> bool" where
  "unordered a b \<longleftrightarrow>
     extractFloat32Exp a = 0xFF \<and> extractFloat32Frac a \<noteq> 0 \<or>
     extractFloat32Exp b = 0xFF \<and> extractFloat32Frac b \<noteq> 0"

definition raise_signaling :: "u32 \<Rightarrow> u32 \<Rightarrow> float_status \<Rightarrow> float_status" where
  "raise_signaling a b st =
     (if float32_is_signaling_nan a \<or> float32_is_signaling_nan b then float_raise float_flag_invalid st else st)"

definition float32_eq :: "u32 \<Rightarrow> u32 \<Rightarrow> float_status \<Rightarrow> bool \<times> float_status" where
  "float32_eq a b st =
     (if unordered a b then (False, raise_signaling a b st)
      else (a = b \<or> push_bit 1 (a OR b) = 0, st))"

definition float32_le :: "u32 \<Rightarrow> u32 \<Rightarrow> float_status \<Rightarrow> bool \<times> float_status" where
  "float32_le a b st =
     (if unordered a b then (False, float_raise float_flag_invalid st)
      else
        let aSign = extractFloat32Sign a; bSign = extractFloat32Sign b
        in if aSign \<noteq> bSign then (aSign \<or> push_bit 1 (a OR b) = 0, st)
           else (a = b \<or> aSign \<noteq> (a < b), st))"

definition float32_lt :: "u32 \<Rightarrow> u32 \<Rightarrow> float_status \<Rightarrow> bool \<times> float_status" where
  "float32_lt a b st =
     (if unordered a b then (False, float_raise float_flag_invalid st)
      else
        let aSign = extractFloat32Sign a; bSign = extractFloat32Sign b
        in if aSign \<noteq> bSign then (aSign \<and> push_bit 1 (a OR b) \<noteq> 0, st)
           else (a \<noteq> b \<and> aSign \<noteq> (a < b), st))"

definition float32_eq_signaling :: "u32 \<Rightarrow> u32 \<Rightarrow> float_status \<Rightarrow> bool \<times> float_status" where
  "float32_eq_signaling a b st =
     (if unordered a b then (False, float_raise float_flag_invalid st)
      else (a = b \<or> push_bit 1 (a OR b) = 0, st))"

definition float32_le_quiet :: "u32 \<Rightarrow> u32 \<Rightarrow> float_status \<Rightarrow> bool \<times> float_status" where
  "float32_le_quiet a b st =
     (if unordered a b then (False, raise_signaling a b st)
      else
        let aSign = extractFloat32Sign a; bSign = extractFloat32Sign b
        in if aSign \<noteq> bSign then (aSign \<or> push_bit 1 (a OR b) = 0, st)
           else (a = b \<or> aSign \<noteq> (a < b), st))"

definition float32_lt_quiet :: "u32 \<Rightarrow> u32 \<Rightarrow> float_status \<Rightarrow> bool \<times> float_status" where
  "float32_lt_quiet a b st =
     (if unordered a b then (False, raise_signaling a b st)
      else
        let aSign = extractFloat32Sign a; bSign = extractFloat32Sign b
        in if aSign \<noteq> bSign then (aSign \<and> push_bit 1 (a OR b) \<noteq> 0, st)
           else (a \<noteq> b \<and> aSign \<noteq> (a < b), st))"

text \<open>The results are -1 for less, 0 for equal, 1 for greater and 2 for unordered.\<close>

definition float32_compare_internal :: "u32 \<Rightarrow> u32 \<Rightarrow> bool \<Rightarrow> float_status \<Rightarrow> int \<times> float_status" where
  "float32_compare_internal a b is_quiet st =
     (if unordered a b then
        (2, if \<not> is_quiet \<or> float32_is_signaling_nan a \<or> float32_is_signaling_nan b
            then float_raise float_flag_invalid st else st)
      else
        let aSign = extractFloat32Sign a; bSign = extractFloat32Sign b
        in if aSign \<noteq> bSign then
             if push_bit 1 (a OR b) = 0 then (0, st) else (1 - 2 * of_bool aSign, st)
           else if a = b then (0, st)
           else (1 - 2 * of_bool (aSign \<noteq> (a < b)), st))"

definition float32_compare :: "u32 \<Rightarrow> u32 \<Rightarrow> float_status \<Rightarrow> int \<times> float_status" where
  "float32_compare a b st = float32_compare_internal a b False st"

definition float32_compare_quiet :: "u32 \<Rightarrow> u32 \<Rightarrow> float_status \<Rightarrow> int \<times> float_status" where
  "float32_compare_quiet a b st = float32_compare_internal a b True st"

section \<open>Comparisons follow the order of the values\<close>

text \<open>
  The lower 31 bits of a float32 order like its magnitude. Infinity is the pattern after the
  largest finite number, and \<open>mag\<close> gives it the magnitude 2^277, above every finite one.
\<close>

abbreviation low31 :: "u32 \<Rightarrow> nat" where
  "low31 a \<equiv> exp32 a * 2 ^ 23 + frac32 a"

lemma mag_mono:
  assumes "low31 a < low31 b"
  shows "mag a < mag b"
proof (cases "exp32 a = exp32 b")
  case True
  then show ?thesis using assms by (simp add: mag_def)
next
  case False
  then have "exp32 a < exp32 b" using assms frac32_lt [of a] frac32_lt [of b] by simp
  then show ?thesis by (rule mag_less)
qed

lemma mag_eq_iff: "mag a = mag b \<longleftrightarrow> low31 a = low31 b"
proof
  show "mag a = mag b \<Longrightarrow> low31 a = low31 b" using mag_mono [of a b] mag_mono [of b a] by linarith
  assume "low31 a = low31 b"
  then have "exp32 a = exp32 b \<and> frac32 a = frac32 b"
    using digits_eq_iff [OF frac32_lt [of a] frac32_lt [of b]] by (simp add: mult.commute)
  then show "mag a = mag b" by (simp add: mag_def)
qed

lemma mag_less_iff: "mag a < mag b \<longleftrightarrow> low31 a < low31 b"
  using mag_mono [of a b] mag_mono [of b a] mag_eq_iff [of a b] by linarith

lemma low31_zero: "low31 a = 0 \<longleftrightarrow> mag a = 0"
  by (simp add: mag_def)

lemma push_or_zero: "push_bit 1 (a OR b) = (0 :: u32) \<longleftrightarrow> mag a = 0 \<and> mag b = 0"
proof -
  have "push_bit 1 c = 0 \<longleftrightarrow> mag c = 0" for c :: u32
  proof -
    have "push_bit 1 c = 0 \<longleftrightarrow> unat (push_bit 1 c) = 0" by (simp only: unat_eq_0)
    also have "\<dots> \<longleftrightarrow> low31 c = 0" by (simp only: unat_push_1 fields32 mult_eq_0_iff) simp
    finally show ?thesis by (simp only: low31_zero)
  qed
  then show ?thesis by (simp only: push_bit_or or_eq_zero)
qed

lemma same_sign_less:
  "extractFloat32Sign a = extractFloat32Sign b \<Longrightarrow> a < b \<longleftrightarrow> mag a < mag b"
  unfolding mag_less_iff word_less_nat_alt unat_split [of a] unat_split [of b] by simp

lemma same_sign_eq:
  "extractFloat32Sign a = extractFloat32Sign b \<Longrightarrow> a = b \<longleftrightarrow> mag a = mag b"
  unfolding mag_eq_iff word_unat_eq_iff unat_split [of a] unat_split [of b] by simp

lemma unordered_nan: "unordered a b \<longleftrightarrow> nan32 a \<or> nan32 b"
  by (simp add: unordered_def nan32_def extract_exp frac_zero)

lemmas compare_defs = float32_eq_def float32_le_def float32_lt_def float32_eq_signaling_def
  float32_le_quiet_def float32_lt_quiet_def float32_compare_def float32_compare_quiet_def
  float32_compare_internal_def

text \<open>
  C35: the comparisons on operands that are not NaNs decide the order of the values (infinities
  included, the two zeros equal) and leave the status alone; with a NaN operand the predicates are
  false and the three-way comparison is unordered, the signaling ones raise invalid always and the
  quiet ones exactly for a signaling NaN.
\<close>

lemma float32_comparisons_correct:
  "if nan32 a \<or> nan32 b then
     float32_eq a b st = (False, raise_signaling a b st) \<and>
     float32_le_quiet a b st = (False, raise_signaling a b st) \<and>
     float32_lt_quiet a b st = (False, raise_signaling a b st) \<and>
     float32_eq_signaling a b st = (False, float_raise 1 st) \<and>
     float32_le a b st = (False, float_raise 1 st) \<and>
     float32_lt a b st = (False, float_raise 1 st) \<and>
     float32_compare a b st = (2, float_raise 1 st) \<and>
     float32_compare_quiet a b st = (2, raise_signaling a b st)
   else
     float32_eq a b st = (fval a = fval b, st) \<and>
     float32_le_quiet a b st = (fval a \<le> fval b, st) \<and>
     float32_lt_quiet a b st = (fval a < fval b, st) \<and>
     float32_eq_signaling a b st = (fval a = fval b, st) \<and>
     float32_le a b st = (fval a \<le> fval b, st) \<and>
     float32_lt a b st = (fval a < fval b, st) \<and>
     float32_compare a b st = (sgn (fval a - fval b), st) \<and>
     float32_compare_quiet a b st = (sgn (fval a - fval b), st)"
proof (cases "nan32 a \<or> nan32 b")
  case True
  then show ?thesis by (simp add: compare_defs unordered_nan raise_signaling_def)
next
  case False
  show ?thesis
  proof (cases "extractFloat32Sign a = extractFloat32Sign b")
    case True
    show ?thesis unfolding compare_defs push_or_zero
      using False by (auto simp: unordered_nan same_sign_less [OF True] same_sign_eq [OF True] True
          fval_def Let_def sgn_if)
  next
    case differ: False
    then have "a \<noteq> b" by blast
    then show ?thesis unfolding compare_defs push_or_zero
      using False differ by (auto simp: unordered_nan fval_def Let_def sgn_if)
  qed
qed

end
