(* ===== verification/Float32_Int.thy ===== *)
theory Float32_Int
  imports Float32_Conv
begin

text \<open>
  Correctness of the conversions between integers and single precision, of their round trip and of
  the scaling by a power of two.
\<close>

section \<open>Conversion from integers\<close>

lemma rounded_exact: "finite32 r \<Longrightarrow> rounded mode (fval r) 1 r"
  unfolding rounded_def by auto

lemma exact_correct:
  assumes "extractFloat32Sign r \<longleftrightarrow> s" "finite32 r" "mag r = p"
  shows "correct32 st s p 1 (r, st)"
  using assms rounded_exact [of r] by (simp add: correct32_def fval_signed)

definition convert64 :: "bool \<Rightarrow> u64 \<Rightarrow> float_status \<Rightarrow> u32 \<times> float_status" where
  "convert64 zSign absA st =
     (let shiftCount = int (countLeadingZeros64 absA) - 40
      in if 0 \<le> shiftCount
         then (packFloat32 zSign (0x95 - shiftCount) (ucast (push_bit (nat shiftCount) absA)), st)
         else
           let shiftCount = shiftCount + 7;
               absA = (if shiftCount < 0 then shift64RightJamming absA (nat (- shiftCount))
                       else push_bit (nat shiftCount) absA)
           in roundAndPackFloat32 zSign (0x9C - shiftCount) (ucast absA) st)"

lemma pack_integer:
  assumes z: "unat z = m * 2 ^ k" "2 ^ 23 \<le> unat z" "unat z \<le> 2 ^ 24" and k: "k \<le> 23"
  shows "extractFloat32Sign (packFloat32 s (int (149 - k)) z) \<longleftrightarrow> s"
    "finite32 (packFloat32 s (int (149 - k)) z)" "mag (packFloat32 s (int (149 - k)) z) = m * 2 ^ 149"
proof -
  have p: "unat z * 2 ^ (149 - k) = m * 2 ^ 149" using k by (simp add: z(1) mult.assoc flip: power_add)
  have "149 - k \<le> 253" "149 - k \<noteq> 253" by arith+
  then have "unat z \<le> 2 ^ 24" "2 ^ 23 \<le> unat z \<or> 149 - k = 0" "149 - k \<le> 253" "149 - k = 253 \<longrightarrow> unat z < 2 ^ 24"
    using z(2,3) by blast+
  note pk = pack_mag [OF this, unfolded p]
  show "extractFloat32Sign (packFloat32 s (int (149 - k)) z) \<longleftrightarrow> s"
    "finite32 (packFloat32 s (int (149 - k)) z)" "mag (packFloat32 s (int (149 - k)) z) = m * 2 ^ 149"
    by (rule pk(1,3,2))+
qed

lemma convert64_exact:
  assumes lz: "leading_zeros 64 (unat w) (c + 40)" "w \<noteq> 0" "countLeadingZeros64 w = c + 40"
  shows "correct32 st s (unat w * 2 ^ 149) 1 (convert64 s w st)"
proof -
  define z where "z = (ucast (push_bit c w) :: u32)"
  have n: "0 < unat w" using lz(2) by (simp add: unat_gt_0)
  then have m: "2 ^ 23 \<le> unat w * 2 ^ c" "unat w * 2 ^ c < 2 ^ 24" using lz(1) by (simp_all add: leading_zeros_def power_add)
  have "2 ^ c \<le> unat w * 2 ^ c" using n by simp
  then have "(2::nat) ^ c < 2 ^ 24" using m(2) by linarith
  then have c: "c \<le> 23" using power_less_imp_less_exp [of "2::nat" c 24] by simp
  have "unat (push_bit c w) = unat w * 2 ^ c" by (rule unat_push_small) (use m(2) in simp)
  then have z: "unat z = unat w * 2 ^ c" unfolding z_def by (subst unat_ucast_small) (use m(2) in simp_all)
  have "convert64 s w st = (packFloat32 s (int (149 - c)) z, st)"
    using c by (simp add: convert64_def lz(3) z_def of_nat_diff)
  moreover have "2 ^ 23 \<le> unat z" "unat z \<le> 2 ^ 24" using m z by simp_all
  note r = pack_integer [OF z this c, of s]
  ultimately show ?thesis using exact_correct [OF r] by simp
qed

lemma convert64_left:
  assumes pm: "plain_mode st" and lz: "leading_zeros 64 (unat w) (c + 33)" "w \<noteq> 0" "countLeadingZeros64 w = c + 33"
    and c: "c < 7" and max: "unat w * 2 ^ 149 \<le> max_mag * 1"
  shows "correct32 st s (unat w * 2 ^ 149) 1 (convert64 s w st)"
proof -
  define z where "z = (ucast (push_bit c w) :: u32)"
  have "0 < unat w" using lz(2) by (simp add: unat_gt_0)
  then have m: "2 ^ 30 \<le> unat w * 2 ^ c" "unat w * 2 ^ c < 2 ^ 31" using lz(1) by (simp_all add: leading_zeros_def power_add)
  have "unat (push_bit c w) = unat w * 2 ^ c" by (rule unat_push_small) (use m(2) in simp)
  then have z: "unat z = unat w * 2 ^ c" unfolding z_def by (subst unat_ucast_small) (use m(2) in simp_all)
  have eq: "convert64 s w st = roundAndPackFloat32 s (156 - int c) z st"
    using c by (simp add: convert64_def lz(3) z_def)
  have "nat (156 - int c) = 156 - c" by simp
  then have at: "stands_at 0 (unat z) (156 - int c) (unat w * 2 ^ 149) 1"
    using c by (simp add: stands_at_def stands_for_def z mult.assoc flip: power_add)
  show ?thesis unfolding eq
    by (rule roundAndPackFloat32_correct [OF pm _ _ _ at _ max]) (use m z c in simp_all)
qed

lemma convert64_right:
  assumes pm: "plain_mode st" and lz: "leading_zeros 64 (unat w) k" "w \<noteq> 0" "countLeadingZeros64 w = k"
    and c: "k + c = 33" "0 < c" and max: "unat w * 2 ^ 149 \<le> max_mag * 1"
  shows "correct32 st s (unat w * 2 ^ 149) 1 (convert64 s w st)"
proof -
  define n where "n = unat w"
  define z where "z = (ucast (shift64RightJamming w c) :: u32)"
  have "0 < n" using lz(2) by (simp add: n_def unat_gt_0)
  then have l: "2 ^ 63 \<le> n * 2 ^ k" "n * 2 ^ k < 2 ^ 64" using lz(1) by (simp_all add: leading_zeros_def n_def)
  have e: "n * 2 ^ k * 2 ^ c = n * 2 ^ 33" by (simp only: mult.assoc power_add [symmetric] c(1))
  have m: "2 ^ 63 * 2 ^ c \<le> n * 2 ^ 33" "n * 2 ^ 33 < 2 ^ 64 * 2 ^ c"
    unfolding e [symmetric] using l by (intro mult_le_mono1 mult_strict_right_mono; simp)+
  then have lo: "2 ^ 30 \<le> n div 2 ^ c" and hi: "n < 2 ^ 31 * 2 ^ c"
    by (simp_all add: less_eq_div_iff_mult_less_eq)
  have j: "jam n c < 2 ^ 31" by (rule jam_lt_pow) (use hi in simp_all)
  then have z: "unat z = jam n c"
    unfolding z_def by (subst unat_ucast_small) (simp_all add: shift64RightJamming_jam n_def)
  have "int k = 33 - int c" using c(1) by linarith
  then have eq: "convert64 s w st = roundAndPackFloat32 s (156 + int c) z st"
    using c(2) by (simp add: convert64_def lz(3) z_def Let_def)
  have at: "stands_at 1 (unat z) (156 + int c) (n * 2 ^ 149) 1"
    unfolding z by (rule stands_atI [OF jam_stands]) (simp_all add: nat_add_distrib power_add)
  have z30: "2 ^ 30 \<le> unat z" unfolding z jam_def using lo by (simp add: or_Suc_0_eq)
  show ?thesis unfolding eq
    by (rule roundAndPackFloat32_correct [OF pm z30 _ _ at [unfolded n_def] _ max]) (use j z in simp_all)
qed

lemma convert64_correct:
  assumes pm: "plain_mode st" and w: "w \<noteq> 0"
  shows "correct32 st s (unat w * 2 ^ 149) 1 (convert64 s w st)"
proof -
  define k where "k = countLeadingZeros64 w"
  have lz: "leading_zeros 64 (unat w) k" unfolding k_def by (rule countLeadingZeros64_lz)
  have max: "unat w * 2 ^ 149 \<le> max_mag * 1" using unat64_lt [of w] by (simp add: max_mag_def)
  consider "40 \<le> k" | "33 \<le> k" "k < 40" | "k < 33" by linarith
  then show ?thesis
  proof cases
    case 1
    then obtain c where c: "k = c + 40" using le_iff_add [of 40 k] by (auto simp: add.commute)
    show ?thesis by (rule convert64_exact [OF lz [unfolded c] w]) (simp only: c flip: k_def)
  next
    case 2
    then obtain c where c: "k = c + 33" using le_iff_add [of 33 k] by (auto simp: add.commute)
    then have "c < 7" using 2 by simp
    then show ?thesis by (intro convert64_left [OF pm lz [unfolded c] w _ _ max]) (simp_all only: c flip: k_def)
  next
    case 3
    then have "k + (33 - k) = 33" "0 < 33 - k" by simp_all
    then show ?thesis by (rule convert64_right [OF pm lz w k_def [symmetric] _ _ max])
  qed
qed

lemma int64_convert:
  "int64_to_float32 a st = (if a = 0 then (0, st) else convert64 (sint a < 0) (if sint a < 0 then - a else a) st)"
  "uint64_to_float32 a st = (if a = 0 then (0, st) else convert64 True a st)"
  by (simp_all only: int64_to_float32_def uint64_to_float32_def convert64_def Let_def) simp_all

lemma zero_delivers: "delivers st 0 1 (0, st)"
proof -
  have "finite32 0" "fval 0 = 0" by (simp_all add: eval32)
  then show ?thesis using rounded_exact [of 0] by (simp add: delivers_def)
qed

text \<open>A signed word, its absolute value, and the integer again from the sign and that.\<close>

lemma sint_value: "sint (a :: 'a::len word) = (if sint a < 0 then int (unat a) - 2 ^ LENGTH('a) else int (unat a))"
proof -
  have S: "Suc (LENGTH('a) - 1) = LENGTH('a)" by simp
  have "sint a = take_bit (Suc (LENGTH('a) - 1)) (uint a) - 2 ^ Suc (LENGTH('a) - 1) * of_bool (bit (uint a) (LENGTH('a) - 1))"
    unfolding sint_uint One_nat_def by (rule signed_take_bit_eq_take_bit_minus)
  also have "bit (uint a) (LENGTH('a) - 1) \<longleftrightarrow> sint a < 0" by (simp add: sint_uint signed_take_bit_negative_iff)
  also have "take_bit (Suc (LENGTH('a) - 1)) (uint a) = int (unat a)" unfolding S by (simp add: take_bit_int_eq_self)
  finally show ?thesis unfolding S by (cases "sint a < 0") simp_all
qed

lemma unat_neg: "(a :: 'a::len word) \<noteq> 0 \<Longrightarrow> unat (- a) + unat a = 2 ^ LENGTH('a)"
proof -
  assume "a \<noteq> 0"
  then have "int (unat (- a)) + int (unat a) = 2 ^ LENGTH('a)"
    by (simp add: uint_word_ariths zmod_zminus1_eq_if uint_0_iff)
  then have "int (unat (- a) + unat a) = int (2 ^ LENGTH('a))" by simp
  then show ?thesis by (simp only: of_nat_eq_iff)
qed

lemma signed_times: "signed s (m * n) = signed s m * int n"
  by (simp add: signed_def)

lemma signed_abs:
  "signed (sint a < 0) (unat (if sint a < 0 then - a else a)) = sint (a :: 'a::len word)"
proof (cases "sint a < 0")
  case True
  then have "a \<noteq> 0" by auto
  from unat_neg [OF this] have "int (unat (- a) + unat a) = int (2 ^ LENGTH('a))" by (simp only: of_nat_eq_iff)
  then show ?thesis using True sint_value [of a] by (simp add: signed_def)
next
  case False
  then show ?thesis using sint_value [of a] by (simp add: signed_def)
qed

lemma int64_to_float32_delivers:
  assumes "plain_mode st"
  shows "delivers st (sint a * 2 ^ 149) 1 (int64_to_float32 a st)"
proof (cases "a = 0")
  case True
  then show ?thesis using zero_delivers by (simp add: int64_to_float32_def)
next
  case False
  let ?w = "if sint a < 0 then - a else a"
  have "signed (sint a < 0) (unat ?w * 2 ^ 149) = sint a * 2 ^ 149"
    unfolding signed_times signed_abs by simp
  then show ?thesis
    using correct32_delivers [OF convert64_correct [OF assms, of ?w "sint a < 0"]] False by (simp add: int64_convert)
qed


lemma int32_to_float32_delivers:
  assumes pm: "plain_mode st"
  shows "delivers st (sint a * 2 ^ 149) 1 (int32_to_float32 a st)"
proof -
  define s where "s \<longleftrightarrow> sint a < 0"
  define w where "w = (if s then - a else a)"
  have v: "signed s (unat w * 2 ^ 149) = sint a * 2 ^ 149"
    unfolding signed_times s_def w_def signed_abs by simp
  consider "a = 0" | "a = 0x80000000" | "a \<noteq> 0" "a \<noteq> 0x80000000" by blast
  then show ?thesis
  proof cases
    case 1
    then show ?thesis using zero_delivers by (simp add: int32_to_float32_def)
  next
    case 2
    have "extractFloat32Sign 0xCF000000" "finite32 0xCF000000" "mag 0xCF000000 = 2 ^ 31 * 2 ^ 149"
      by (simp_all add: eval32)
    then have "correct32 st True (2 ^ 31 * 2 ^ 149) 1 (0xCF000000, st)" by (intro exact_correct) simp_all
    from correct32_delivers [OF this] show ?thesis unfolding 2
      by (simp add: int32_to_float32_def packFloat32_def signed_def)
  next
    case 3
    have w: "0 < unat w" "unat w < 2 ^ 31"
    proof -
      have "w \<noteq> 0" using 3(1) by (simp add: w_def)
      then show "0 < unat w" by (simp add: unat_gt_0)
      have "unat a \<noteq> 2 ^ 31" using 3(2) by (simp add: word_unat_eq_iff)
      then show "unat w < 2 ^ 31"
        using sign_bit32 [of a] unat_neg [OF 3(1)] by (cases s) (simp_all add: w_def s_def)
    qed
    have at: "stands_at 0 (unat w) 0x9C (unat w * 2 ^ 149) 1" by (simp add: stands_at_def stands_for_def)
    have max: "unat w * 2 ^ 149 \<le> max_mag * 1" using w(2) by (simp add: max_mag_def)
    have "int32_to_float32 a st = normalizeRoundAndPackFloat32 s 0x9C w st"
      using 3 by (simp add: int32_to_float32_def Let_def w_def s_def)
    then show ?thesis
      using correct32_delivers [OF normalizeRoundAndPackFloat32_correct [OF pm w _ at _ max], of s, unfolded v] by simp
  qed
qed

lemma uint64_to_float32_delivers:
  assumes "plain_mode st"
  shows "delivers st (- uint a * 2 ^ 149) 1 (uint64_to_float32 a st)"
proof (cases "a = 0")
  case True
  then show ?thesis using zero_delivers by (simp add: uint64_to_float32_def)
next
  case False
  then show ?thesis using correct32_delivers [OF convert64_correct [OF assms, of a True]]
    by (simp add: int64_convert signed_def)
qed

text \<open>
  C36: the conversions from 32-bit signed and unsigned and from 64-bit signed integers return the
  float32 that correctly rounds the integer, in each rounding mode, and report whether it is exact.
  The conversion from 64-bit unsigned integers does not: its sign is the constant \<open>1 > 0\<close>, so it
  returns the float32 that correctly rounds minus its argument.
\<close>

lemma integers_to_float32_correct:
  assumes "plain_mode st"
  shows "delivers st (sint a * 2 ^ 149) 1 (int32_to_float32 a st) \<and>
    delivers st (uint a * 2 ^ 149) 1 (uint32_to_float32 a st) \<and>
    delivers st (sint b * 2 ^ 149) 1 (int64_to_float32 b st) \<and>
    delivers st (- uint b * 2 ^ 149) 1 (uint64_to_float32 b st)"
proof -
  have u: "unat (ucast a :: u64) = unat a" by (rule unat_ucast_up)
  then have "sint (ucast a :: u64) = uint a"
    using sint_value [of "ucast a :: u64"] sign_bit64 [of "ucast a :: u64"] unat32_lt [of a] by simp
  then have "delivers st (uint a * 2 ^ 149) 1 (uint32_to_float32 a st)"
    using int64_to_float32_delivers [OF assms, of "ucast a"] by (simp add: uint32_to_float32_def)
  then show ?thesis
    using int32_to_float32_delivers [OF assms] int64_to_float32_delivers [OF assms] uint64_to_float32_delivers [OF assms]
    by blast
qed

lemma integers_to_float32_correct_witness:
  "delivers status0 (sint (- 16777217 :: u32) * 2 ^ 149) 1 (int32_to_float32 (- 16777217) status0) \<and>
   delivers status0 (- uint (7 :: u64) * 2 ^ 149) 1 (uint64_to_float32 7 status0)"
proof -
  have p: "plain_mode status0" by (simp add: plain_mode_def status0_def)
  show ?thesis using integers_to_float32_correct [OF p, of "- 16777217" 7] by blast
qed

section \<open>Conversion to integers\<close>

definition fits32 :: "bool \<Rightarrow> nat \<Rightarrow> bool" where
  "fits32 s m \<longleftrightarrow> m < 2 ^ 31 \<or> s \<and> m = 2 ^ 31"

lemma roundAndPackInt32_val:
  assumes mode: "float_rounding_mode st \<in> {0, 1, 2, 3}" and z: "unat absZ + 127 < 2 ^ 64"
    and m: "m = round_rat (float_rounding_mode st) s (unat absZ) 128"
  shows "roundAndPackInt32 s absZ st =
    (if fits32 s m
     then (if s then - of_nat m else of_nat m, if unat absZ mod 128 = 0 then st else float_raise 32 st)
     else (if s then 0x80000000 else 0x7FFFFFFF, float_raise 1 st))"
proof -
  define A where "A = drop_bit 7 (absZ + roundIncrement (float_rounding_mode st) s) AND
    NOT (of_bool ((absZ AND 0x7F) XOR 0x40 = 0 \<and> float_rounding_mode st = 0))"
  have A: "unat A = m" unfolding A_def m by (rule round_bits [OF mode]) (use z in simp_all)
  define z where "z = (ucast A :: u32)"
  define Z where "Z = (if s then - z else z)"
  have eq: "roundAndPackInt32 s absZ st =
      (if drop_bit 32 A \<noteq> 0 \<or> Z \<noteq> 0 \<and> (sint Z < 0) \<noteq> s
       then (if s then 0x80000000 else 0x7FFFFFFF, float_raise 1 st)
       else (Z, if absZ AND 0x7F \<noteq> 0 then float_raise 32 st else st))"
    unfolding roundAndPackInt32_def Let_def A_def z_def Z_def by (rule refl)
  have top: "drop_bit 32 A \<noteq> 0 \<longleftrightarrow> 2 ^ 32 \<le> m"
  proof -
    have "drop_bit 32 A = 0 \<longleftrightarrow> m div 2 ^ 32 = 0" by (simp only: A unat_drop_bit flip: unat_eq_0)
    then show ?thesis by (simp add: div_eq_0_iff not_less)
  qed
  have low: "absZ AND 0x7F \<noteq> 0 \<longleftrightarrow> unat absZ mod 128 \<noteq> 0" by (simp only: low7 flip: unat_eq_0)
  show ?thesis
  proof (cases "2 ^ 32 \<le> m")
    case True
    then show ?thesis unfolding eq top by (simp add: fits32_def)
  next
    case False
    have z: "unat z = m" unfolding z_def using False A by (subst unat_ucast_small) simp_all
    have zm: "z = of_nat m" unfolding z [symmetric] by simp
    have "Z \<noteq> 0 \<and> (sint Z < 0) \<noteq> s \<longleftrightarrow> \<not> fits32 s m"
    proof (cases "m = 0")
      case True
      then show ?thesis using z by (simp add: Z_def fits32_def unat_eq_0)
    next
      case nz: False
      then have "z \<noteq> 0" using z by auto
      then show ?thesis using unat_neg [of z] sign_bit32 [of Z] nz z by (cases s) (auto simp: Z_def fits32_def)
    qed
    then show ?thesis unfolding eq top low using False by (simp add: Z_def zm)
  qed
qed

lemma signed_fits32: "fits32 s m \<longleftrightarrow> - (2 ^ 31) \<le> signed s m \<and> signed s m < 2 ^ 31"
  by (auto simp: signed_def fits32_def)

lemma sint_fits32:
  assumes "fits32 s m"
  shows "sint (if s then - of_nat m else of_nat m :: u32) = signed s m"
proof -
  have "(if s then - of_nat m else of_nat m :: u32) = word_of_int (signed s m)" by (simp add: signed_def)
  then show ?thesis using assms signed_fits32 [of s m] by (simp add: signed_of_int signed_take_bit_int_eq_self)
qed

text \<open>
  What a conversion to a 32-bit integer in the given rounding mode owes for a finite operand: the
  integer nearest in that mode, with the inexact flag if the operand is not an integer; the largest
  integer of the sign and the invalid flag when that does not fit.
\<close>

definition int32_of :: "int \<Rightarrow> u32 \<Rightarrow> float_status \<Rightarrow> u32 \<times> float_status \<Rightarrow> bool" where
  "int32_of mode a st R \<longleftrightarrow>
     (let s = extractFloat32Sign a; v = signed s (round_rat mode s (mag a) (2 ^ 149))
      in if - (2 ^ 31) \<le> v \<and> v < 2 ^ 31
         then sint (fst R) = v \<and> snd R = (if 2 ^ 149 dvd mag a then st else float_raise 32 st)
         else R = (if s then 0x80000000 else 0x7FFFFFFF, float_raise 1 st))"

lemma sig_word: "unat (if extractFloat32Exp a \<noteq> 0 then extractFloat32Frac a OR 0x00800000 else extractFloat32Frac a) = sig32 a"
  using hidden23 [of "extractFloat32Frac a"] frac32_lt [of a] by (simp add: extract_exp extract_frac sig32_def)

lemma jam_mag_stands:
  assumes "exp32 a < 175"
  shows "stands_for 6 (jam (sig32 a * 2 ^ 32) (175 - exp32 a)) (mag a * 2 ^ 7) (2 ^ 149)"
proof (cases "exp32 a = 0")
  case True
  then have m: "mag a = sig32 a" "sig32 a < 2 ^ 23" using sig32_sub [of a] by (simp_all add: mag_sig pow32_def)
  then have "jam (sig32 a * 2 ^ 32) 175 = of_bool (sig32 a \<noteq> 0)"
    by (subst jam_big) simp_all
  then show ?thesis using True m by (auto simp: stands_for_def intro!: exI [of _ 0])
next
  case False
  then have "pow32 a + (175 - exp32 a) = 174" using assms by (simp add: pow32_def)
  then have e: "(2::nat) ^ pow32 a * 2 ^ (175 - exp32 a) = 2 ^ 174" by (simp only: power_add [symmetric])
  have "mag a * 2 ^ 7 * 2 ^ (175 - exp32 a) = sig32 a * 2 ^ 7 * (2 ^ pow32 a * 2 ^ (175 - exp32 a))"
    unfolding mag_sig by (simp only: ac_simps)
  also have "\<dots> = sig32 a * 2 ^ 32 * 2 ^ 149" unfolding e by simp
  finally have "stands_for 1 (jam (sig32 a * 2 ^ 32) (175 - exp32 a)) (mag a * 2 ^ 7) (2 ^ 149)"
    by (intro stands_ratio [OF jam_stands]) simp_all
  then show ?thesis by (rule stands_mono) simp
qed

lemma int32_of_packed:
  assumes mode: "float_rounding_mode st \<in> {0, 1, 2, 3}" and z: "unat z + 127 < 2 ^ 64"
    and stands: "stands_for 6 (unat z) (mag a * 2 ^ 7) (2 ^ 149)"
  shows "int32_of (float_rounding_mode st) a st (roundAndPackInt32 (extractFloat32Sign a) z st)"
proof -
  let ?s = "extractFloat32Sign a"
  define m where "m = round_rat (float_rounding_mode st) ?s (unat z) 128"
  have m: "m = round_rat (float_rounding_mode st) ?s (mag a) (2 ^ 149)"
    unfolding m_def using stands_round [OF stands, of 7] round_rat_scale [of 128 _ _ "mag a" "2 ^ 149"] by simp
  have "unat z mod 128 = 0 \<longleftrightarrow> mag a * 2 ^ 7 mod (2 ^ 149 * 2 ^ 7) = 0"
    using stands_exact_iff [OF stands, of 7] by simp
  also have "\<dots> \<longleftrightarrow> 2 ^ 149 dvd mag a" unfolding mod_mult_mult2 by (simp add: dvd_eq_mod_eq_0)
  finally have x: "unat z mod 128 = 0 \<longleftrightarrow> 2 ^ 149 dvd mag a" .
  show ?thesis
    unfolding roundAndPackInt32_val [OF mode z m_def] int32_of_def Let_def m [symmetric] signed_fits32 [symmetric] x
    using sint_fits32 [of ?s m] by simp
qed

lemma not_fits32: "2 ^ 32 \<le> m \<Longrightarrow> \<not> fits32 s m"
  by (auto simp: fits32_def)

lemma mag_large:
  assumes "158 \<le> exp32 a"
  shows "mag a = sig32 a * 2 ^ (exp32 a - 150) * 2 ^ 149"
proof -
  have "pow32 a = (exp32 a - 150) + 149" using assms by (simp add: pow32_def)
  then show ?thesis by (simp only: mag_sig power_add mult.assoc)
qed

lemma float32_to_int32_of:
  assumes mode: "float_rounding_mode st \<in> {0, 1, 2, 3}" and fin: "finite32 a"
  shows "int32_of (float_rounding_mode st) a st (float32_to_int32 a st)"
proof -
  let ?s = "extractFloat32Sign a"
  define S where "S = (if extractFloat32Exp a \<noteq> 0 then extractFloat32Frac a OR 0x00800000 else extractFloat32Frac a)"
  define A where "A = push_bit 32 (ucast S :: u64)"
  have S: "unat S = sig32 a" unfolding S_def by (rule sig_word)
  have A: "unat A = sig32 a * 2 ^ 32"
    unfolding A_def S [symmetric] unat_ucast_up [symmetric] by (rule unat_push_small) (use sig32_lt [of a] S unat_ucast_up [of S] in simp)
  have e: "extractFloat32Exp a \<noteq> 0xFF" using fin by (simp add: finite32_def extract_exp)
  have eq: "float32_to_int32 a st = roundAndPackInt32 ?s
      (if 0 < 0xAF - extractFloat32Exp a then shift64RightJamming A (nat (0xAF - extractFloat32Exp a)) else A) st"
    using e unfolding float32_to_int32_def Let_def A_def S_def by simp
  show ?thesis
  proof (cases "exp32 a < 175")
    case True
    define z where "z = shift64RightJamming A (175 - exp32 a)"
    have z: "unat z = jam (sig32 a * 2 ^ 32) (175 - exp32 a)" unfolding z_def shift64RightJamming_jam A ..
    have "float32_to_int32 a st = roundAndPackInt32 ?s z st"
      using True unfolding eq extract_exp z_def by (simp add: nat_diff_distrib)
    moreover have "unat z < 2 ^ 63" unfolding z by (rule jam_lt_pow) (use sig32_lt [of a] in \<open>simp_all add: less_le_trans\<close>)
    ultimately show ?thesis using int32_of_packed [OF mode, of z a] jam_mag_stands [OF True] by (simp add: z)
  next
    case False
    define m where "m = round_rat (float_rounding_mode st) ?s (unat A) 128"
    have n: "2 ^ 23 \<le> sig32 a" using False by (intro sig32_ge) simp
    have "2 ^ 32 \<le> unat A div 128" unfolding A using n by simp
    then have "2 ^ 32 \<le> m" unfolding m_def using round_rat_ge [of "unat A" 128] le_trans by blast
    then have big: "\<not> fits32 ?s m" by (rule not_fits32)
    have "2 ^ 23 * 2 ^ 25 \<le> sig32 a * 2 ^ (exp32 a - 150)"
      using n False by (intro mult_le_mono power_increasing) simp_all
    then have "2 ^ 32 \<le> mag a div 2 ^ 149" using False mag_large [of a] by simp
    then have "2 ^ 32 \<le> round_rat (float_rounding_mode st) ?s (mag a) (2 ^ 149)"
      using round_rat_ge [of "mag a" "2 ^ 149"] le_trans by blast
    then have v: "\<not> fits32 ?s (round_rat (float_rounding_mode st) ?s (mag a) (2 ^ 149))" by (rule not_fits32)
    have "float32_to_int32 a st = roundAndPackInt32 ?s A st" unfolding eq extract_exp using False by simp
    also have "\<dots> = (if ?s then 0x80000000 else 0x7FFFFFFF, float_raise 1 st)"
      using roundAndPackInt32_val [OF mode _ m_def] big A sig32_lt [of a] by simp
    finally show ?thesis using v unfolding int32_of_def Let_def signed_fits32 [symmetric] by simp
  qed
qed

lemma trunc: "round_rat 3 s p q = p div q"
  by (simp add: round_rat_def)

lemma min_int32: "a = 0xCF000000 \<longleftrightarrow> extractFloat32Sign a \<and> exp32 a = 158 \<and> frac32 a = 0"
proof -
  have u: "a = 0xCF000000 \<longleftrightarrow> unat a = 0xCF000000" by (simp add: word_unat_eq_iff)
  show ?thesis
  proof
    assume "a = 0xCF000000"
    then show "extractFloat32Sign a \<and> exp32 a = 158 \<and> frac32 a = 0" by (simp add: eval32)
  next
    assume "extractFloat32Sign a \<and> exp32 a = 158 \<and> frac32 a = 0"
    then show "a = 0xCF000000" unfolding u unat_split [of a] by simp
  qed
qed

lemma trunc_small:
  assumes "exp32 a \<le> 126"
  shows "mag a < 2 ^ 149"
proof -
  have "pow32 a \<le> 125" using assms by (simp add: pow32_def)
  then have "(2::nat) ^ pow32 a \<le> 2 ^ 125" by (intro power_increasing) simp_all
  then have "mag a < 2 ^ 24 * 2 ^ 125" unfolding mag_sig using sig32_lt [of a]
    by (intro mult_less_le_imp_less) simp_all
  then show ?thesis by simp
qed

lemma float32_to_int32_rtz_of:
  assumes fin: "finite32 a"
  shows "int32_of 3 a st (float32_to_int32_round_to_zero a st)"
proof -
  let ?s = "extractFloat32Sign a"
  have e: "extractFloat32Exp a \<noteq> 0xFF" using fin by (simp add: finite32_def extract_exp)
  note spec = int32_of_def Let_def signed_fits32 [symmetric] trunc
  consider (large) "158 \<le> exp32 a" | (small) "exp32 a \<le> 126" | (mid) "126 < exp32 a" "exp32 a < 158" by linarith
  then show ?thesis
  proof cases
    case large
    define h where "h = sig32 a * 2 ^ (exp32 a - 150)"
    have m: "mag a = h * 2 ^ 149" unfolding h_def by (rule mag_large [OF large])
    have sg: "sig32 a = 2 ^ 23 + frac32 a" using large by (simp add: sig32_def)
    have fits: "fits32 ?s h \<longleftrightarrow> a = 0xCF000000"
    proof (cases "exp32 a = 158")
      case True
      then show ?thesis by (auto simp: fits32_def h_def sg min_int32)
    next
      case False
      then have "2 ^ 23 * 2 ^ 9 \<le> h" unfolding h_def sg using large by (intro mult_le_mono power_increasing) simp_all
      then show ?thesis using False not_fits32 [of h] by (simp add: min_int32)
    qed
    have "float32_to_int32_round_to_zero a st = (if a \<noteq> 0xCF000000
        then (if ?s then 0x80000000 else 0x7FFFFFFF, float_raise 1 st) else (0x80000000, st))"
      using large e by (simp add: float32_to_int32_round_to_zero_def extract_exp Let_def)
    moreover have "h = 2 ^ 31 \<and> ?s" if "a = 0xCF000000"
      using that large unfolding min_int32 by (simp add: h_def sg)
    ultimately show ?thesis unfolding spec m using fits by (auto simp: signed_def)
  next
    case small
    have "float32_to_int32_round_to_zero a st = (0, if mag a \<noteq> 0 then float_raise 32 st else st)"
      using small unfolding zero_iff by (auto simp: float32_to_int32_round_to_zero_def extract_exp Let_def)
    moreover have "2 ^ 149 dvd mag a \<longleftrightarrow> mag a = 0" using trunc_small [OF small] nat_dvd_not_less [of "mag a" "2 ^ 149"] by auto
    ultimately show ?thesis unfolding spec using trunc_small [OF small] by (simp add: fits32_def signed_def)
  next
    case mid
    define c where "c = 158 - exp32 a"
    have c: "0 < c" "c < 32" using mid by (simp_all add: c_def)
    define S where "S = push_bit 8 (extractFloat32Frac a OR 0x00800000)"
    have sg: "unat (extractFloat32Frac a OR 0x00800000) = sig32 a"
      using sig_word [of a] mid by (simp add: extract_exp)
    have S: "unat S = sig32 a * 2 ^ 8"
      unfolding S_def sg [symmetric] by (rule unat_push_small) (use sig32_lt [of a] sg in simp)
    have "pow32 a + c = 157" using mid by (simp add: pow32_def c_def)
    then have pc: "(2::nat) ^ pow32 a * 2 ^ c = 2 ^ 157" by (simp only: power_add [symmetric])
    have "mag a * 2 ^ c = sig32 a * (2 ^ pow32 a * 2 ^ c)" unfolding mag_sig by (simp only: ac_simps)
    then have r: "mag a * 2 ^ c = unat S * 2 ^ 149" unfolding pc S by simp
    have d: "mag a div 2 ^ 149 = unat S div 2 ^ c"
      using div_mult_mult2 [of "2 ^ c" "mag a" "2 ^ 149"] div_mult_mult2 [of "2 ^ 149" "unat S" "2 ^ c"]
      unfolding r by (simp add: mult.commute)
    have "mag a mod 2 ^ 149 * 2 ^ c = unat S mod 2 ^ c * 2 ^ 149"
      using mod_mult_mult2 [of "mag a" "2 ^ c" "2 ^ 149"] mod_mult_mult2 [of "unat S" "2 ^ 149" "2 ^ c"]
      unfolding r by (simp add: mult.commute)
    then have "mag a mod 2 ^ 149 * 2 ^ c = 0 \<longleftrightarrow> unat S mod 2 ^ c * 2 ^ 149 = 0" by (rule arg_cong)
    then have x: "2 ^ 149 dvd mag a \<longleftrightarrow> unat S mod 2 ^ c = 0" by (simp add: dvd_eq_mod_eq_0)
    define z where "z = drop_bit c S"
    have z: "unat z = mag a div 2 ^ 149" unfolding z_def unat_drop_bit d ..
    have zm: "z = of_nat (mag a div 2 ^ 149)" unfolding z [symmetric] by simp
    have "unat S div 2 ^ c < 2 ^ 31"
    proof -
      have "unat S div 2 ^ c \<le> unat S div 2 ^ 1" by (rule div_le_mono2) (use c power_increasing [of 1 c "2::nat"] in simp_all)
      then show ?thesis using unat32_lt [of S] by simp
    qed
    then have f: "fits32 ?s (mag a div 2 ^ 149)" unfolding d by (simp add: fits32_def)
    have sc: "nat (- (int (exp32 a) - 158)) = c" "nat ((int (exp32 a) - 158) mod 32) = 32 - c"
    proof -
      have i: "int (exp32 a) - 158 = - int c" using mid by (simp add: c_def)
      show "nat (- (int (exp32 a) - 158)) = c" by (simp add: i)
      have "(- int c) mod 32 = 32 - int c" using c by (simp add: zmod_zminus1_eq_if)
      then show "nat ((int (exp32 a) - 158) mod 32) = 32 - c" unfolding i by simp
    qed
    have "float32_to_int32_round_to_zero a st = (if ?s then - z else z, if push_bit (32 - c) S \<noteq> 0 then float_raise 32 st else st)"
      using mid unfolding float32_to_int32_round_to_zero_def Let_def extract_exp S_def [symmetric] sc z_def by simp
    moreover have "sint (if ?s then - z else z) = signed ?s (mag a div 2 ^ 149)"
      unfolding zm by (rule sint_fits32 [OF f])
    ultimately show ?thesis unfolding spec using f push_bit_low_eq_0 [of c S] c x by simp
  qed
qed

text \<open>
  C37: on finite operands float32_to_int32 returns the integer to which the current mode rounds the
  operand and float32_to_int32_round_to_zero the truncated one, raising inexact when the operand is
  not an integer; out of range they saturate and raise invalid.
\<close>

lemma float32_to_int32_correct:
  assumes "float_rounding_mode st \<in> {0, 1, 2, 3}" "finite32 a"
  shows "int32_of (float_rounding_mode st) a st (float32_to_int32 a st) \<and>
    int32_of 3 a st (float32_to_int32_round_to_zero a st)"
  using float32_to_int32_of [OF assms] float32_to_int32_rtz_of [OF assms(2)] by simp

lemma float32_to_int32_correct_witness:
  "int32_of 0 0x40200000 status0 (float32_to_int32 0x40200000 status0) \<and>
   int32_of 3 0xC0200000 status0 (float32_to_int32_round_to_zero 0xC0200000 status0)"
proof -
  have m: "float_rounding_mode status0 = 0" by (simp add: status0_def)
  then have "float_rounding_mode status0 \<in> {0, 1, 2, 3}" by simp
  moreover have "finite32 0x40200000" "finite32 0xC0200000" by (simp_all add: eval32)
  ultimately show ?thesis
    using float32_to_int32_correct [of status0 "0x40200000"] float32_to_int32_correct [of status0 "0xC0200000"] m by simp
qed

section \<open>Round trip\<close>

lemma round_exact: "0 < q \<Longrightarrow> round_rat mode s (m * q) q = m"
  by (simp add: round_rat_def Let_def)

lemma rounded_exists:
  assumes "rounded mode n 1 r" "finite32 c" "fval c = n"
  shows "fval r = n"
proof -
  have abs: "\<bar>x\<bar> = \<bar>y\<bar> \<Longrightarrow> 0 \<le> x * y \<Longrightarrow> x = y" for x y :: int
    by (auto simp: abs_if zero_le_mult_iff split: if_splits)
  show ?thesis
    using assms abs [of "fval r" "fval c"] unfolding rounded_def by (auto split: if_splits intro: antisym)
qed

lemma normal_integer:
  fixes m :: nat
  assumes "0 < m" "m \<le> 2 ^ 24"
  obtains k where "2 ^ 23 \<le> m * 2 ^ k" "m * 2 ^ k \<le> 2 ^ 24" "k \<le> 23"
proof (cases "2 ^ 23 \<le> m")
  case True
  then show ?thesis using that [of 0] assms by simp
next
  case False
  define k where "k = countLeadingZeros32 (of_nat m) - 8"
  have "unat (of_nat m :: u32) = m" using False by (simp add: unat_of_nat)
  then have lz: "2 ^ 31 \<le> m * 2 ^ countLeadingZeros32 (of_nat m)" "m * 2 ^ countLeadingZeros32 (of_nat m) < 2 ^ 32"
    using countLeadingZeros32_lz [of "of_nat m"] assms(1) by (simp_all add: leading_zeros_def)
  have "8 \<le> countLeadingZeros32 (of_nat m)"
  proof (rule ccontr)
    assume "\<not> ?thesis"
    then have "m * 2 ^ countLeadingZeros32 (of_nat m) \<le> m * 2 ^ 7" by (intro mult_le_mono2 power_increasing) simp_all
    moreover have "m * 2 ^ 7 < 2 ^ 31" using False by simp
    ultimately show False using lz(1) by linarith
  qed
  then have "countLeadingZeros32 (of_nat m) = k + 8" by (simp add: k_def)
  then have k: "2 ^ 23 \<le> m * 2 ^ k" "m * 2 ^ k < 2 ^ 24" using lz by (simp_all add: power_add)
  have "2 ^ k \<le> m * 2 ^ k" using assms(1) by simp
  then have "(2::nat) ^ k < 2 ^ 24" using k(2) by linarith
  then have "k < 24" by (rule power_less_imp_less_exp [rotated]) simp
  then show ?thesis using that [of k] k by simp
qed

lemma small_integer:
  assumes "m \<le> 2 ^ 24"
  obtains c where "finite32 c" "fval c = signed s m * 2 ^ 149"
proof (cases "m = 0")
  case True
  moreover have "finite32 0" "fval 0 = 0" by (simp_all add: eval32)
  ultimately show ?thesis using that [of 0] by (simp add: signed_def)
next
  case False
  then obtain k where k: "2 ^ 23 \<le> m * 2 ^ k" "m * 2 ^ k \<le> 2 ^ 24" "k \<le> 23"
    using normal_integer [OF _ assms] by blast
  define z where "z = (of_nat (m * 2 ^ k) :: u32)"
  have z: "unat z = m * 2 ^ k" unfolding z_def unat_of_nat using k(2) by simp
  have "2 ^ 23 \<le> unat z" "unat z \<le> 2 ^ 24" using k z by simp_all
  note r = pack_integer [OF z this k(3), of s]
  show ?thesis by (rule that [OF r(2)]) (simp only: fval_signed r(1,3) signed_times, simp)
qed

text \<open>
  C38: an integer of at most 24 bits survives the trip through single precision: int32_to_float32
  converts it exactly, without touching the status, and float32_to_int32 as well as the truncating
  conversion give it back, in every rounding mode.
\<close>

lemma int32_float32_roundtrip:
  assumes "plain_mode st" "\<bar>sint a\<bar> \<le> 2 ^ 24"
  shows "snd (int32_to_float32 a st) = st \<and>
    float32_to_int32 (fst (int32_to_float32 a st)) st = (a, st) \<and>
    float32_to_int32_round_to_zero (fst (int32_to_float32 a st)) st = (a, st)"
proof -
  define r where "r = fst (int32_to_float32 a st)"
  define s where "s \<longleftrightarrow> sint a < 0"
  define m where "m = nat \<bar>sint a\<bar>"
  have sm: "signed s m = sint a" by (simp add: signed_def s_def m_def)
  have "m \<le> 2 ^ 24" using assms(2) by (simp add: m_def)
  then obtain c where c: "finite32 c" "fval c = sint a * 2 ^ 149" using small_integer [of m s] unfolding sm by blast
  have d: "delivers st (sint a * 2 ^ 149) 1 (int32_to_float32 a st)" by (rule int32_to_float32_delivers [OF assms(1)])
  then have "rounded (float_rounding_mode st) (sint a * 2 ^ 149) 1 r" by (simp add: delivers_def r_def)
  then have v: "fval r = sint a * 2 ^ 149" and fin: "finite32 r"
    using rounded_exists [OF _ c] by (auto simp: rounded_def)
  have st: "snd (int32_to_float32 a st) = st" using d v by (simp add: delivers_def r_def)
  have mode: "float_rounding_mode st \<in> {0, 1, 2, 3}" using assms(1) by (simp add: plain_mode_def)
  have "int (mag r) = int (m * 2 ^ 149)" using v by (auto simp: fval_signed signed_def m_def abs_mult split: if_splits)
  then have mr: "mag r = m * 2 ^ 149" by (simp only: of_nat_eq_iff)
  have sr: "signed (extractFloat32Sign r) m = sint a"
    using v unfolding fval_signed mr signed_times by simp
  have w: "R = (a, st)" if "int32_of mode r st R" for R mode
    using that sint_lt [of a] sint_ge [of a]
    unfolding int32_of_def Let_def mr round_exact [OF zero_less_power [OF zero_less_numeral]] sr
    by (cases R) (simp add: signed_word_eqI)
  show ?thesis using w [OF float32_to_int32_of [OF mode fin]] w [OF float32_to_int32_rtz_of [OF fin]] st
    by (simp add: r_def)
qed

lemma int32_float32_roundtrip_witness:
  "float32_to_int32 (fst (int32_to_float32 (- 5) status0)) status0 = (- 5, status0)"
proof -
  have p: "plain_mode status0" by (simp add: plain_mode_def status0_def)
  show ?thesis using int32_float32_roundtrip [OF p, of "- 5"] by simp
qed

section \<open>Scaling\<close>

lemma zero_packed: "mag a = 0 \<Longrightarrow> a = packFloat32 (extractFloat32Sign a) (int 0) 0"
proof -
  assume "mag a = 0"
  then have "unat a = of_bool (extractFloat32Sign a) * 2 ^ 31" using unat_split [of a] by (simp add: mag_def split: if_splits)
  then show ?thesis by (cases "extractFloat32Sign a") (simp_all add: packFloat32_def word_unat_eq_iff)
qed

lemma scale_weight:
  assumes "nat z + x = nat (- z) + y"
  shows "(m :: nat) * 2 ^ 7 * (2 ^ x * 2 ^ nat z) = m * 2 ^ y * 2 ^ (7 + nat (- z))"
proof -
  have "7 + (x + nat z) = y + (7 + nat (- z))" using assms by linarith
  then have "(2::nat) ^ 7 * (2 ^ x * 2 ^ nat z) = 2 ^ y * 2 ^ (7 + nat (- z))" by (simp only: power_add [symmetric])
  then show ?thesis by (simp only: mult.assoc)
qed

text \<open>
  C39: float32_scalbn multiplies a normal number by 2^n, correctly rounded, but gives half of that for
  a subnormal one: the exponent field 0 of a subnormal number stands for the exponent 1, and the
  function does not account for it. This is stated for a finite operand and |n| at most 200, where the
  scaled magnitude is not above the largest finite number, and in each of the four rounding modes with
  flush-to-zero off (\<open>plain_mode\<close>); a scaling that overflows is not covered.
\<close>

lemma float32_scalbn_scales:
  assumes pm: "plain_mode st" and fin: "finite32 a" and n: "\<bar>n\<bar> \<le> 200"
    and max: "\<bar>fval a\<bar> * 2 ^ nat (n + 200) \<le> int max_mag * 2 ^ 200"
  shows "delivers st (fval a * 2 ^ nat (n + 200)) (if exp32 a = 0 then 2 ^ 201 else 2 ^ 200) (float32_scalbn a n st)"
proof -
  let ?s = "extractFloat32Sign a"
  let ?p = "mag a * 2 ^ nat (n + 200)"
  define k :: nat where "k = (if exp32 a = 0 then 201 else 200)"
  have "int ?p \<le> int (max_mag * 2 ^ 200)" using max by (simp add: fval_def split: if_splits)
  then have p200: "?p \<le> max_mag * 2 ^ 200" by (simp only: of_nat_le_iff)
  have p: "?p \<le> max_mag * 2 ^ k" using p200 by (simp add: k_def)
  have "correct32 st ?s ?p (2 ^ k) (float32_scalbn a n st)"
  proof (cases "mag a = 0")
    case True
    then have "float32_scalbn a n st = (packFloat32 ?s (int 0) 0, st)"
      using zero_packed [OF True] unfolding zero_iff by (simp add: float32_scalbn_def Let_def)
    then show ?thesis using True pack_correct [OF pm, of 0 "2 ^ k" 0 ?s] by simp
  next
    case False
    define S where "S = (if extractFloat32Exp a \<noteq> 0 then extractFloat32Frac a OR 0x00800000 else extractFloat32Frac a)"
    have S: "unat S = sig32 a" unfolding S_def by (rule sig_word)
    define z where "z = push_bit 7 S"
    have z: "unat z = sig32 a * 2 ^ 7" unfolding z_def S [symmetric] by (rule unat_push_small) (use S sig32_lt [of a] in simp)
    have sz: "0 < unat z" "unat z < 2 ^ 31" using False sig32_lt [of a] by (simp_all add: z mag_sig)
    define zE where "zE = int (exp32 a) + (n - 1)"
    have zero: "(extractFloat32Exp a = 0 \<and> extractFloat32Frac a = 0) = False" using False unfolding zero_iff by blast
    have e: "(extractFloat32Exp a = 0xFF) = False" using fin by (simp add: finite32_def extract_exp)
    have "float32_scalbn a n st = normalizeRoundAndPackFloat32 ?s zE z st"
      by (simp only: float32_scalbn_def Let_def e zero if_False zE_def z_def S_def extract_exp [symmetric])
    moreover have "stands_at 0 (unat z) zE ?p (2 ^ k)"
    proof -
      have "nat zE + k = nat (- zE) + (pow32 a + nat (n + 200))" using n by (cases "exp32 a = 0") (auto simp: zE_def k_def pow32_def)
      then have "sig32 a * 2 ^ 7 * (2 ^ k * 2 ^ nat zE) = sig32 a * 2 ^ (pow32 a + nat (n + 200)) * 2 ^ (7 + nat (- zE))"
        by (rule scale_weight)
      then show ?thesis by (simp add: stands_at_def stands_for_def z mag_sig power_add mult.assoc)
    qed
    ultimately show ?thesis
      using normalizeRoundAndPackFloat32_correct [OF pm sz, of "2 ^ k" 0 zE ?p ?s] p n by (simp add: zE_def)
  qed
  then have "delivers st (signed ?s ?p) (int (2 ^ k)) (float32_scalbn a n st)" by (rule correct32_delivers)
  then show ?thesis unfolding fval_signed signed_times k_def by (cases "exp32 a = 0") simp_all
qed

lemma float32_scalbn_scales_witness:
  "delivers status0 (fval 0x3FC00000 * 2 ^ 203) (2 ^ 200) (float32_scalbn 0x3FC00000 3 status0) \<and>
   delivers status0 (fval 0x00000003 * 2 ^ 203) (2 ^ 201) (float32_scalbn 0x00000003 3 status0)"
proof -
  have p: "plain_mode status0" by (simp add: plain_mode_def status0_def)
  have f: "finite32 0x3FC00000" "finite32 0x00000003" "exp32 0x3FC00000 = 127" "exp32 0x00000003 = 0" by (simp_all add: eval32)
  have m: "\<bar>fval 0x3FC00000\<bar> * 2 ^ nat (3 + 200) \<le> int max_mag * 2 ^ 200"
    "\<bar>fval 0x00000003\<bar> * 2 ^ nat (3 + 200) \<le> int max_mag * 2 ^ 200" by (simp_all add: eval32)
  show ?thesis
    using float32_scalbn_scales [OF p f(1) _ m(1)] float32_scalbn_scales [OF p f(2) _ m(2)] f(3,4) by simp
qed

end
