(* ===== verification/Pic8259.thy ===== *)
theory Pic8259
  imports HQ_Prelude
begin

text \<open>
  The pair of interrupt controllers of the PC (hw/i8259.c): a master and a slave 8259 wired to its
  input 2. The registers are bytes as in the source. The handlers take the pair and, where they
  are registered for one of the controllers, which one: False for pics[0], True for pics[1]. The
  interrupt line to the CPU is kept as the level driven last by qemu_irq_raise and qemu_irq_lower.
  hw_error does not return and is the fault Abort.
\<close>

section \<open>State\<close>

record PicState =
  last_irr :: u8
  irr :: u8
  imr :: u8
  isr :: u8
  priority_add :: u8
  irq_base :: u8
  read_reg_select :: u8
  poll :: u8
  special_mask :: u8
  init_state :: u8
  auto_eoi :: u8
  rotate_on_auto_eoi :: u8
  special_fully_nested_mode :: u8
  init4 :: u8
  single_mode :: u8
  elcr :: u8
  elcr_mask :: u8

record PicState2 =
  pics0 :: PicState
  pics1 :: PicState
  parent_irq :: bool

definition pics :: "PicState2 \<Rightarrow> bool \<Rightarrow> PicState" where
  "pics s i = (if i then pics1 s else pics0 s)"

definition upd_pic :: "bool \<Rightarrow> (PicState \<Rightarrow> PicState) \<Rightarrow> PicState2 \<Rightarrow> PicState2" where
  "upd_pic i f s = (if i then s\<lparr>pics1 := f (pics1 s)\<rparr> else s\<lparr>pics0 := f (pics0 s)\<rparr>)"

section \<open>Requests and priorities\<close>

definition irq_bit :: "nat \<Rightarrow> u8" where
  "irq_bit irq = push_bit irq 1"

lemma bit_irq_bit [simp]: "bit (irq_bit irq) n \<longleftrightarrow> n = irq \<and> n < 8"
  by (auto simp: irq_bit_def bit_simps)

definition pic_set_irq1 :: "nat \<Rightarrow> bool \<Rightarrow> PicState \<Rightarrow> PicState" where
  "pic_set_irq1 irq level s =
     (let mask = irq_bit irq
      in if elcr s AND mask \<noteq> 0 then
           if level then s\<lparr>irr := irr s OR mask, last_irr := last_irr s OR mask\<rparr>
           else s\<lparr>irr := irr s AND NOT mask, last_irr := last_irr s AND NOT mask\<rparr>
         else if level then
           s\<lparr>irr := (if last_irr s AND mask = 0 then irr s OR mask else irr s), last_irr := last_irr s OR mask\<rparr>
         else s\<lparr>last_irr := last_irr s AND NOT mask\<rparr>)"

text \<open>
  The search of get_priority. It is entered with a nonzero mask only; the mask is a byte, so one of
  the next eight positions ends it.
\<close>

lemma byte_bit: "(msk :: u8) \<noteq> 0 \<Longrightarrow> \<exists>n. n < 8 \<and> bit msk ((p + n) mod 8)"
proof -
  assume "msk \<noteq> 0"
  then obtain b where b: "bit msk b" "b < 8" using bit_imp_le_length [of msk] by (auto simp: bit_eq_iff)
  define n where "n = (b + 8 - p mod 8) mod 8"
  have "(p + n) mod 8 = (p mod 8 + n) mod 8" by (simp only: mod_add_left_eq)
  also have "\<dots> = (p mod 8 + (b + 8 - p mod 8)) mod 8" unfolding n_def by (simp only: mod_add_right_eq)
  also have "p mod 8 + (b + 8 - p mod 8) = b + 8" using mod_less_divisor [of 8 p] by linarith
  finally have "(p + n) mod 8 = b" using b(2) by simp
  then show ?thesis using b(1) by (intro exI [of _ n]) (simp add: n_def)
qed

function priority_loop :: "u8 \<Rightarrow> nat \<Rightarrow> nat \<Rightarrow> nat" where
  "priority_loop msk add priority =
     (if msk \<noteq> 0 \<and> msk AND irq_bit ((priority + add) mod 8) = 0 then priority_loop msk add (priority + 1)
      else priority)"
  by pat_completeness auto

lemma and_irq_bit: "msk AND irq_bit n = 0 \<longleftrightarrow> \<not> bit msk n"
proof
  assume "msk AND irq_bit n = 0"
  then have "bit (msk AND irq_bit n) n \<longleftrightarrow> False" by simp
  then show "\<not> bit msk n" using bit_imp_le_length [of msk n] by (auto simp: bit_and_iff)
next
  assume "\<not> bit msk n"
  then show "msk AND irq_bit n = 0" by (intro bit_word_eqI) (auto simp: bit_and_iff)
qed

termination priority_loop
proof (relation "measure (\<lambda>(msk, add, p). LEAST n. bit msk ((p + add + n) mod 8))", simp)
  fix msk :: u8 and add p :: nat
  assume a: "msk \<noteq> 0 \<and> msk AND irq_bit ((p + add) mod 8) = 0"
  define P where "P n \<longleftrightarrow> bit msk ((p + add + n) mod 8)" for n
  obtain m where m: "P m" using byte_bit [of msk "p + add"] a by (auto simp: P_def)
  have "\<not> P 0" using a by (simp add: P_def and_irq_bit)
  then obtain k where k: "(LEAST n. P n) = Suc k" using LeastI [of P m] m by (cases "LEAST n. P n") auto
  then have "P (Suc k)" using LeastI [of P m] m by simp
  then have "bit msk ((p + 1 + add + k) mod 8)" by (simp add: P_def)
  then have "(LEAST n. bit msk ((p + 1 + add + n) mod 8)) \<le> k" by (rule Least_le)
  then show "((msk, add, p + 1), (msk, add, p)) \<in> measure (\<lambda>(msk, add, p). LEAST n. bit msk ((p + add + n) mod 8))"
    using k by (simp add: P_def)
qed

declare priority_loop.simps [simp del]

definition get_priority :: "PicState \<Rightarrow> u8 \<Rightarrow> nat" where
  "get_priority s msk = (if msk = 0 then 8 else priority_loop msk (unat (priority_add s)) 0)"

text \<open>None stands for the result -1.\<close>

definition pic_get_irq :: "PicState2 \<Rightarrow> bool \<Rightarrow> nat option" where
  "pic_get_irq st i =
     (let s = pics st i;
          priority = get_priority s (irr s AND NOT (imr s))
      in if priority = 8 then None
         else
           let msk = isr s;
               msk = (if special_mask s \<noteq> 0 then msk AND NOT (imr s) else msk);
               msk = (if special_fully_nested_mode s \<noteq> 0 \<and> \<not> i then msk AND NOT (irq_bit 2) else msk);
               cur_priority = get_priority s msk
           in if priority < cur_priority then Some ((priority + unat (priority_add s)) mod 8) else None)"

definition pic_update_irq :: "PicState2 \<Rightarrow> PicState2" where
  "pic_update_irq s =
     (let s = (if pic_get_irq s True \<noteq> None
               then upd_pic False (pic_set_irq1 2 False) (upd_pic False (pic_set_irq1 2 True) s) else s)
      in if pic_get_irq s False \<noteq> None then s\<lparr>parent_irq := True\<rparr> else s)"

definition i8259_set_irq :: "nat \<Rightarrow> bool \<Rightarrow> PicState2 \<Rightarrow> PicState2 result" where
  "i8259_set_irq irq level s =
     (if irq div 8 < 2 then Inr (pic_update_irq (upd_pic (irq div 8 = 1) (pic_set_irq1 (irq mod 8) level) s))
      else Inl OutOfBounds)"

section \<open>Acknowledge\<close>

definition pic_intack :: "nat \<Rightarrow> PicState \<Rightarrow> PicState" where
  "pic_intack irq s =
     (let s = (if auto_eoi s \<noteq> 0 then
                 if rotate_on_auto_eoi s \<noteq> 0 then s\<lparr>priority_add := of_nat (irq + 1) AND 7\<rparr> else s
               else s\<lparr>isr := isr s OR irq_bit irq\<rparr>)
      in if elcr s AND irq_bit irq = 0 then s\<lparr>irr := irr s AND NOT (irq_bit irq)\<rparr> else s)"

definition pic_read_irq :: "PicState2 \<Rightarrow> nat \<times> PicState2" where
  "pic_read_irq s =
     (let (intno, s) =
        (case pic_get_irq s False of
           Some irq \<Rightarrow>
             let s = upd_pic False (pic_intack irq) s
             in if irq = 2 then
                  (case pic_get_irq s True of
                     Some irq2 \<Rightarrow> (unat (irq_base (pics s True)) + irq2, upd_pic True (pic_intack irq2) s)
                   | None \<Rightarrow> (unat (irq_base (pics s True)) + 7, s))
                else (unat (irq_base (pics s False)) + irq, s)
         | None \<Rightarrow> (unat (irq_base (pics s False)) + 7, s))
      in (intno, pic_update_irq s))"

section \<open>Registers\<close>

definition pic_reset :: "PicState \<Rightarrow> PicState" where
  "pic_reset s = s\<lparr>last_irr := 0, irr := 0, imr := 0, isr := 0, priority_add := 0, irq_base := 0,
     read_reg_select := 0, poll := 0, special_mask := 0, init_state := 0, auto_eoi := 0,
     rotate_on_auto_eoi := 0, special_fully_nested_mode := 0, init4 := 0, single_mode := 0\<rparr>"

text \<open>The switch on the command in bits 5 to 7 of a write to the first port.\<close>

definition pic_command :: "bool \<Rightarrow> u32 \<Rightarrow> PicState2 \<Rightarrow> PicState2" where
  "pic_command i val st =
     (let cmd = unat (drop_bit 5 val);
          irq = unat (val AND 7);
          s = pics st i
      in if cmd = 0 \<or> cmd = 4 then upd_pic i (rotate_on_auto_eoi_update (\<lambda>_. of_nat (cmd div 4))) st
         else if cmd = 1 \<or> cmd = 5 then
           let priority = get_priority s (isr s)
           in if priority \<noteq> 8 then
                let irq = (priority + unat (priority_add s)) mod 8;
                    st = upd_pic i (\<lambda>s. s\<lparr>isr := isr s AND NOT (irq_bit irq)\<rparr>) st;
                    st = (if cmd = 5 then upd_pic i (priority_add_update (\<lambda>_. of_nat (irq + 1) AND 7)) st else st)
                in pic_update_irq st
              else st
         else if cmd = 3 then pic_update_irq (upd_pic i (\<lambda>s. s\<lparr>isr := isr s AND NOT (irq_bit irq)\<rparr>) st)
         else if cmd = 6 then pic_update_irq (upd_pic i (priority_add_update (\<lambda>_. ucast (val + 1) AND 7)) st)
         else if cmd = 7 then
           pic_update_irq (upd_pic i (\<lambda>s. s\<lparr>isr := isr s AND NOT (irq_bit irq), priority_add := of_nat (irq + 1) AND 7\<rparr>) st)
         else st)"

text \<open>The switch on the initialization state of a write to the second port.\<close>

definition pic_data :: "bool \<Rightarrow> u32 \<Rightarrow> PicState2 \<Rightarrow> PicState2" where
  "pic_data i val st =
     (let s = pics st i
      in if init_state s = 0 then pic_update_irq (upd_pic i (imr_update (\<lambda>_. ucast val)) st)
         else if init_state s = 1 then
           upd_pic i (\<lambda>s. s\<lparr>irq_base := ucast (val AND 0xf8),
             init_state := (if single_mode s \<noteq> 0 then if init4 s \<noteq> 0 then 3 else 0 else 2)\<rparr>) st
         else if init_state s = 2 then upd_pic i (init_state_update (\<lambda>_. if init4 s \<noteq> 0 then 3 else 0)) st
         else if init_state s = 3 then
           upd_pic i (\<lambda>s. s\<lparr>special_fully_nested_mode := ucast (drop_bit 4 val AND 1),
             auto_eoi := ucast (drop_bit 1 val AND 1), init_state := 0\<rparr>) st
         else st)"

definition pic_ioport_write :: "bool \<Rightarrow> u32 \<Rightarrow> u32 \<Rightarrow> PicState2 \<Rightarrow> PicState2 result" where
  "pic_ioport_write i addr val st =
     (if addr AND 1 = 0 then
        if val AND 0x10 \<noteq> 0 then
          let st = upd_pic i pic_reset st;
              st = st\<lparr>parent_irq := False\<rparr>;
              st = upd_pic i (\<lambda>s. s\<lparr>init_state := 1, init4 := ucast (val AND 1), single_mode := ucast (val AND 2)\<rparr>) st
          in if val AND 0x08 \<noteq> 0 then Inl Abort else Inr st
        else if val AND 0x08 \<noteq> 0 then
          let st = (if val AND 0x04 \<noteq> 0 then upd_pic i (poll_update (\<lambda>_. 1)) st else st);
              st = (if val AND 0x02 \<noteq> 0 then upd_pic i (read_reg_select_update (\<lambda>_. ucast (val AND 1))) st else st);
              st = (if val AND 0x40 \<noteq> 0 then upd_pic i (special_mask_update (\<lambda>_. ucast (drop_bit 5 val AND 1))) st else st)
          in Inr st
        else Inr (pic_command i val st)
      else Inr (pic_data i val st))"

definition pic_poll_read :: "bool \<Rightarrow> u32 \<Rightarrow> PicState2 \<Rightarrow> nat \<times> PicState2" where
  "pic_poll_read i addr1 st =
     (case pic_get_irq st i of
        Some ret \<Rightarrow>
          let st = (if drop_bit 7 addr1 \<noteq> 0
                    then upd_pic False (\<lambda>s. s\<lparr>isr := isr s AND NOT (irq_bit 2), irr := irr s AND NOT (irq_bit 2)\<rparr>) st
                    else st);
              st = upd_pic i (\<lambda>s. s\<lparr>irr := irr s AND NOT (irq_bit ret), isr := isr s AND NOT (irq_bit ret)\<rparr>) st
          in (ret, if drop_bit 7 addr1 \<noteq> 0 \<or> ret \<noteq> 2 then pic_update_irq st else st)
      | None \<Rightarrow> (7, pic_update_irq st))"

definition pic_ioport_read :: "bool \<Rightarrow> u32 \<Rightarrow> PicState2 \<Rightarrow> nat \<times> PicState2" where
  "pic_ioport_read i addr1 st =
     (let s = pics st i
      in if poll s \<noteq> 0 then
           let (ret, st) = pic_poll_read i addr1 st in (ret, upd_pic i (poll_update (\<lambda>_. 0)) st)
         else if addr1 AND 1 = 0 then (unat (if read_reg_select s \<noteq> 0 then isr s else irr s), st)
         else (unat (imr s), st))"

definition pic_intack_read :: "PicState2 \<Rightarrow> nat \<times> PicState2" where
  "pic_intack_read st =
     (let (ret, st) = pic_poll_read False 0x00 st;
          (ret, st) = (if ret = 2 then (let (ret2, st) = pic_poll_read True 0x80 st in (ret2 + 8, st)) else (ret, st))
      in (ret, upd_pic False (read_reg_select_update (\<lambda>_. 1)) st))"

definition elcr_ioport_write :: "bool \<Rightarrow> u32 \<Rightarrow> PicState2 \<Rightarrow> PicState2" where
  "elcr_ioport_write i val st = upd_pic i (\<lambda>s. s\<lparr>elcr := ucast val AND elcr_mask s\<rparr>) st"

definition elcr_ioport_read :: "bool \<Rightarrow> PicState2 \<Rightarrow> u8" where
  "elcr_ioport_read i st = elcr (pics st i)"

text \<open>The zeroed controllers with their ELCR masks; the line is at the level its owner left it.\<close>

definition i8259_init :: "bool \<Rightarrow> PicState2" where
  "i8259_init line =
     (let z = \<lparr>last_irr = 0, irr = 0, imr = 0, isr = 0, priority_add = 0, irq_base = 0, read_reg_select = 0,
        poll = 0, special_mask = 0, init_state = 0, auto_eoi = 0, rotate_on_auto_eoi = 0,
        special_fully_nested_mode = 0, init4 = 0, single_mode = 0, elcr = 0, elcr_mask = 0\<rparr>
      in \<lparr>pics0 = z\<lparr>elcr_mask := 0xf8\<rparr>, pics1 = z\<lparr>elcr_mask := 0xde\<rparr>, parent_irq = line\<rparr>)"

section \<open>Well-formed states\<close>

text \<open>
  The ranges that the code relies on for the byte registers: the rotation of the priorities is one
  of eight, the vector base is a multiple of eight, the initialization state is one of four, the
  flags are flags, and only lines of the ELCR mask are level triggered.
\<close>

definition pic_ok :: "u8 \<Rightarrow> PicState \<Rightarrow> bool" where
  "pic_ok m s \<longleftrightarrow> priority_add s < 8 \<and> irq_base s AND 7 = 0 \<and> init_state s \<le> 3 \<and> init4 s \<le> 1 \<and>
     single_mode s \<in> {0, 2} \<and> read_reg_select s \<le> 1 \<and> poll s \<le> 1 \<and> special_mask s \<le> 1 \<and> auto_eoi s \<le> 1 \<and>
     rotate_on_auto_eoi s \<le> 1 \<and> special_fully_nested_mode s \<le> 1 \<and> elcr s AND NOT m = 0 \<and> elcr_mask s = m"

definition pic_wf :: "PicState2 \<Rightarrow> bool" where
  "pic_wf st \<longleftrightarrow> pic_ok 0xf8 (pics0 st) \<and> pic_ok 0xde (pics1 st)"

text \<open>The entry points of the device, in any order.\<close>

inductive pic_step :: "PicState2 \<Rightarrow> PicState2 \<Rightarrow> bool" where
  irq: "i8259_set_irq n level st = Inr st' \<Longrightarrow> pic_step st st'"
| ack: "pic_step st (snd (pic_read_irq st))"
| reset: "pic_step st (upd_pic i pic_reset st)"
| port_write: "pic_ioport_write i addr val st = Inr st' \<Longrightarrow> pic_step st st'"
| port_read: "pic_step st (snd (pic_ioport_read i addr st))"
| intack: "pic_step st (snd (pic_intack_read st))"
| elcr: "pic_step st (elcr_ioport_write i val st)"

inductive pic_reach :: "PicState2 \<Rightarrow> bool" where
  start: "pic_reach (i8259_init line)"
| step: "pic_reach st \<Longrightarrow> pic_step st st' \<Longrightarrow> pic_reach st'"

lemma pic_wf_upd:
  assumes "pic_wf st" "\<And>m s. pic_ok m s \<Longrightarrow> pic_ok m (f s)"
  shows "pic_wf (upd_pic i f st)"
  using assms by (simp add: pic_wf_def upd_pic_def)

lemma pic_wf_parent [simp]: "pic_wf (st\<lparr>parent_irq := b\<rparr>) = pic_wf st"
  by (simp add: pic_wf_def)

lemma and_7_less: "(x :: u8) AND 7 < 8"
  by (rule le_less_trans [OF word_and_le1]) simp

lemma and_1_le: "(ucast (x AND 1 :: u32) :: u8) \<le> 1"
proof -
  have "x AND 1 = (if bit x 0 then 1 else 0)" by (rule bit_word_eqI) (auto simp: bit_and_iff bit_1_iff intro: gr0I)
  then show ?thesis by simp
qed

lemma and_2_in: "(ucast (x AND 2 :: u32) :: u8) = 0 \<or> (ucast (x AND 2 :: u32) :: u8) = 2"
proof -
  have "x AND 2 = (if bit x 1 then 2 else 0)"
    by (rule bit_word_eqI) (auto simp: bit_and_iff bit_2_iff)
  then show ?thesis by simp
qed

lemma base_and_7: "(ucast (x AND 0xf8 :: u32) :: u8) AND 7 = 0"
proof -
  have "(ucast (x AND 0xf8 :: u32) :: u8) AND 7 = ucast x AND (0xf8 AND 7)"
    by (simp only: unsigned_and_eq and.assoc) simp
  then show ?thesis by simp
qed

lemma pic_ok_free [simp]:
  "pic_ok m (s\<lparr>irr := x\<rparr>) = pic_ok m s" "pic_ok m (s\<lparr>isr := x\<rparr>) = pic_ok m s"
  "pic_ok m (s\<lparr>imr := x\<rparr>) = pic_ok m s" "pic_ok m (s\<lparr>last_irr := x\<rparr>) = pic_ok m s"
  by (simp_all add: pic_ok_def)

lemma pic_ok_ranged:
  assumes "pic_ok m s"
  shows "x < 8 \<Longrightarrow> pic_ok m (s\<lparr>priority_add := x\<rparr>)"
    and "x AND 7 = 0 \<Longrightarrow> pic_ok m (s\<lparr>irq_base := x\<rparr>)"
    and "x \<le> 3 \<Longrightarrow> pic_ok m (s\<lparr>init_state := x\<rparr>)"
    and "x \<le> 1 \<Longrightarrow> pic_ok m (s\<lparr>init4 := x\<rparr>)"
    and "x = 0 \<or> x = 2 \<Longrightarrow> pic_ok m (s\<lparr>single_mode := x\<rparr>)"
    and "x \<le> 1 \<Longrightarrow> pic_ok m (s\<lparr>read_reg_select := x\<rparr>)"
    and "x \<le> 1 \<Longrightarrow> pic_ok m (s\<lparr>poll := x\<rparr>)"
    and "x \<le> 1 \<Longrightarrow> pic_ok m (s\<lparr>special_mask := x\<rparr>)"
    and "x \<le> 1 \<Longrightarrow> pic_ok m (s\<lparr>auto_eoi := x\<rparr>)"
    and "x \<le> 1 \<Longrightarrow> pic_ok m (s\<lparr>rotate_on_auto_eoi := x\<rparr>)"
    and "x \<le> 1 \<Longrightarrow> pic_ok m (s\<lparr>special_fully_nested_mode := x\<rparr>)"
    and "pic_ok m (s\<lparr>elcr := x AND elcr_mask s\<rparr>)"
  using assms by (auto simp: pic_ok_def and.assoc)

lemmas pic_ok_rules = pic_ok_ranged and_7_less and_1_le and_2_in base_and_7

lemma pic_ok_set_irq1: "pic_ok m s \<Longrightarrow> pic_ok m (pic_set_irq1 n l s)"
  by (simp add: pic_set_irq1_def Let_def)

lemma pic_ok_intack: "pic_ok m s \<Longrightarrow> pic_ok m (pic_intack n s)"
  by (simp add: pic_intack_def Let_def pic_ok_rules)

lemma pic_ok_reset: "pic_ok m s \<Longrightarrow> pic_ok m (pic_reset s)"
  by (simp add: pic_reset_def pic_ok_rules)

lemma pic_wf_update: "pic_wf st \<Longrightarrow> pic_wf (pic_update_irq st)"
  by (simp add: pic_update_irq_def Let_def pic_wf_upd pic_ok_set_irq1)

lemmas pic_wf_rules = pic_ok_rules pic_wf_upd pic_wf_update pic_ok_intack pic_ok_reset Let_def

lemma pic_wf_read_irq: "pic_wf st \<Longrightarrow> pic_wf (snd (pic_read_irq st))"
  by (simp add: pic_read_irq_def pic_wf_rules split: option.split)

lemma pic_wf_poll_read: "pic_wf st \<Longrightarrow> pic_wf (snd (pic_poll_read i addr st))"
  by (simp add: pic_poll_read_def pic_wf_rules split: option.split)

lemma pic_wf_ioport_read: "pic_wf st \<Longrightarrow> pic_wf (snd (pic_ioport_read i addr st))"
  using pic_wf_poll_read [of st i addr] by (cases "pic_poll_read i addr st") (simp add: pic_ioport_read_def pic_wf_rules)

lemma pic_wf_intack_read: "pic_wf st \<Longrightarrow> pic_wf (snd (pic_intack_read st))"
  using pic_wf_poll_read [of st False 0] pic_wf_poll_read [of "snd (pic_poll_read False 0 st)" True "0x80"]
  by (cases "pic_poll_read False 0 st"; cases "pic_poll_read True 0x80 (snd (pic_poll_read False 0 st))")
    (simp add: pic_intack_read_def pic_wf_rules)

lemma pic_wf_elcr: "pic_wf st \<Longrightarrow> pic_wf (elcr_ioport_write i val st)"
  by (simp add: elcr_ioport_write_def pic_wf_rules)

lemma pic_wf_data: "pic_wf st \<Longrightarrow> pic_wf (pic_data i val st)"
  by (simp add: pic_data_def pic_wf_rules)

lemma pic_wf_command: "pic_wf st \<Longrightarrow> pic_wf (pic_command i val st)"
  by (auto simp: pic_command_def pic_wf_rules)

lemma pic_wf_ioport_write: "pic_wf st \<Longrightarrow> pic_ioport_write i addr val st = Inr st' \<Longrightarrow> pic_wf st'"
  by (auto simp: pic_ioport_write_def pic_wf_rules pic_wf_command pic_wf_data split: if_splits)

lemma pic_wf_init: "pic_wf (i8259_init line)"
  by (simp add: i8259_init_def pic_wf_def pic_ok_def)

lemma pic_wf_step: "pic_step st st' \<Longrightarrow> pic_wf st \<Longrightarrow> pic_wf st'"
  by (induction rule: pic_step.induct)
    (auto simp: i8259_set_irq_def pic_wf_read_irq pic_wf_ioport_read pic_wf_intack_read pic_wf_elcr pic_wf_rules pic_ok_set_irq1
      dest: pic_wf_ioport_write split: if_splits)

lemma pic_reach_wf: "pic_reach st \<Longrightarrow> pic_wf st"
  by (induction rule: pic_reach.induct) (auto intro: pic_wf_init pic_wf_step)

section \<open>Arbitration\<close>

text \<open>
  The rank of an input under the current rotation: 0 is the most urgent. An input is wanted when it
  is requested and not masked, no other such input is more urgent, and it is strictly more urgent
  than everything in service that counts: masked inputs do not in special mask mode, nor does the
  input of the slave on the master in special fully nested mode.
\<close>

definition rank :: "PicState \<Rightarrow> nat \<Rightarrow> nat" where
  "rank s n = (n + 8 - unat (priority_add s)) mod 8"

definition requested :: "PicState \<Rightarrow> nat \<Rightarrow> bool" where
  "requested s n \<longleftrightarrow> bit (irr s) n \<and> \<not> bit (imr s) n"

definition blocking :: "PicState \<Rightarrow> bool \<Rightarrow> nat \<Rightarrow> bool" where
  "blocking s i n \<longleftrightarrow> bit (isr s) n \<and> \<not> (special_mask s \<noteq> 0 \<and> bit (imr s) n) \<and>
     \<not> (special_fully_nested_mode s \<noteq> 0 \<and> \<not> i \<and> n = 2)"

definition wanted :: "PicState2 \<Rightarrow> bool \<Rightarrow> nat \<Rightarrow> bool" where
  "wanted st i n \<longleftrightarrow> n < 8 \<and> requested (pics st i) n \<and>
     list_all (\<lambda>k. (requested (pics st i) k \<longrightarrow> rank (pics st i) n \<le> rank (pics st i) k) \<and>
       (blocking (pics st i) i k \<longrightarrow> rank (pics st i) n < rank (pics st i) k)) [0..<8]"

lemma rank_inverse:
  assumes "unat (priority_add s) < 8"
  shows "n < 8 \<Longrightarrow> (rank s n + unat (priority_add s)) mod 8 = n"
    and "p < 8 \<Longrightarrow> rank s ((p + unat (priority_add s)) mod 8) = p"
    and "rank s n < 8"
proof -
  define a where "a = unat (priority_add s)"
  have a: "a < 8" using assms by (simp add: a_def)
  show "(rank s n + unat (priority_add s)) mod 8 = n" if "n < 8"
    using that a unfolding rank_def a_def [symmetric] by (simp add: mod_add_left_eq)
  have "((p + a) mod 8 + 8 - a) mod 8 = p" if "p < 8"
  proof (cases "p + a < 8")
    case False
    then have "(p + a) mod 8 = p + a - 8" using that a by (simp add: mod_if)
    then show ?thesis using False that a by simp
  qed (use that in simp)
  then show "rank s ((p + unat (priority_add s)) mod 8) = p" if "p < 8"
    using that by (simp add: rank_def a_def)
  show "rank s n < 8" by (simp add: rank_def)
qed

lemma priority_loop_first:
  assumes "msk \<noteq> 0" "\<forall>q<k. \<not> bit msk ((q + add) mod 8)"
  shows "bit msk ((priority_loop msk add k + add) mod 8) \<and> (\<forall>q<priority_loop msk add k. \<not> bit msk ((q + add) mod 8))"
  using assms
proof (induction msk add k rule: priority_loop.induct)
  case (1 msk add k)
  show ?case
  proof (cases "bit msk ((k + add) mod 8)")
    case True
    then have "priority_loop msk add k = k" by (subst priority_loop.simps) (simp add: and_irq_bit)
    then show ?thesis using True "1.prems" by simp
  next
    case False
    then have "priority_loop msk add k = priority_loop msk add (k + 1)"
      using "1.prems"(1) by (subst priority_loop.simps) (simp add: and_irq_bit)
    moreover have "\<forall>q<k + 1. \<not> bit msk ((q + add) mod 8)" using "1.prems"(2) False by (simp add: less_Suc_eq)
    ultimately show ?thesis using "1.IH" "1.prems"(1) False by (simp add: and_irq_bit)
  qed
qed

text \<open>What get_priority returns: 8 for no input, else the rank of the most urgent one.\<close>

lemma get_priority_rank:
  assumes a: "unat (priority_add s) < 8"
  shows "get_priority s msk = 8 \<longleftrightarrow> msk = 0"
    and "msk \<noteq> 0 \<Longrightarrow> get_priority s msk < 8 \<and> bit msk ((get_priority s msk + unat (priority_add s)) mod 8)"
    and "n < 8 \<Longrightarrow> bit msk n \<Longrightarrow> get_priority s msk \<le> rank s n"
proof -
  let ?a = "unat (priority_add s)" and ?p = "get_priority s msk"
  have first: "bit msk ((?p + ?a) mod 8)" "\<forall>q<?p. \<not> bit msk ((q + ?a) mod 8)" if "msk \<noteq> 0"
    using priority_loop_first [OF that, of 0 ?a] that by (simp_all add: get_priority_def)
  have lt: "?p < 8" if nz: "msk \<noteq> 0"
  proof -
    obtain m where "m < 8" "bit msk ((?a + m) mod 8)" using byte_bit [OF nz] by blast
    then show ?thesis using first(2) [OF nz] by (metis add.commute not_less order.strict_trans1)
  qed
  show "?p = 8 \<longleftrightarrow> msk = 0" using lt by (auto simp: get_priority_def)
  show "?p < 8 \<and> bit msk ((?p + ?a) mod 8)" if "msk \<noteq> 0" using lt [OF that] first(1) [OF that] by simp
  show "?p \<le> rank s n" if "n < 8" "bit msk n"
  proof -
    have "msk \<noteq> 0" using that(2) by auto
    then show ?thesis using first(2) rank_inverse(1) [OF a that(1)] that(2) by (metis not_le)
  qed
qed

lemma get_priority_less:
  assumes a: "unat (priority_add s) < 8" and p: "p < 8"
  shows "p < get_priority s msk \<longleftrightarrow> (\<forall>k<8. bit msk k \<longrightarrow> p < rank s k)"
proof (cases "msk = 0")
  case True
  then show ?thesis using p by (simp add: get_priority_def)
next
  case False
  note g = get_priority_rank [OF a]
  have "rank s ((get_priority s msk + unat (priority_add s)) mod 8) = get_priority s msk"
    using g(2) [OF False] by (intro rank_inverse(2) [OF a]) simp
  then show ?thesis using g(2) [OF False] g(3) [of _ msk] by (metis less_le_trans mod_less_divisor zero_less_numeral)
qed

definition service_mask :: "PicState \<Rightarrow> bool \<Rightarrow> u8" where
  "service_mask s i =
     (let msk = isr s;
          msk = (if special_mask s \<noteq> 0 then msk AND NOT (imr s) else msk)
      in if special_fully_nested_mode s \<noteq> 0 \<and> \<not> i then msk AND NOT (irq_bit 2) else msk)"

lemma bit_masks:
  assumes "k < 8"
  shows "bit (irr s AND NOT (imr s)) k \<longleftrightarrow> requested s k" "bit (service_mask s i) k \<longleftrightarrow> blocking s i k"
  using assms by (auto simp: requested_def blocking_def service_mask_def Let_def bit_and_iff bit_not_iff)

lemma pic_get_irq_eq:
  "pic_get_irq st i =
     (let s = pics st i; p = get_priority s (irr s AND NOT (imr s))
      in if p \<noteq> 8 \<and> p < get_priority s (service_mask s i) then Some ((p + unat (priority_add s)) mod 8) else None)"
  by (simp add: pic_get_irq_def service_mask_def Let_def)

lemma pic_get_irq_wanted:
  assumes a: "unat (priority_add (pics st i)) < 8"
  shows "pic_get_irq st i = Some n \<longleftrightarrow> wanted st i n"
proof -
  define s where "s = pics st i"
  define R where "R = irr s AND NOT (imr s)"
  define p where "p = get_priority s R"
  let ?m = "(p + unat (priority_add s)) mod 8"
  have a': "unat (priority_add s) < 8" using a by (simp add: s_def)
  note g = get_priority_rank [OF a', where msk = R, folded p_def]
  have R: "bit R k \<longleftrightarrow> requested s k" if "k < 8" for k using bit_masks(1) [OF that] by (simp add: R_def)
  have less: "p < get_priority s (service_mask s i) \<longleftrightarrow> (\<forall>k<8. blocking s i k \<longrightarrow> p < rank s k)" if "p < 8"
    using get_priority_less [OF a' that] bit_masks(2) by auto
  have W: "wanted st i n \<longleftrightarrow> n < 8 \<and> requested s n \<and> (\<forall>k<8. requested s k \<longrightarrow> rank s n \<le> rank s k) \<and>
      (\<forall>k<8. blocking s i k \<longrightarrow> rank s n < rank s k)"
    by (auto simp: wanted_def list_all_iff s_def)
  show ?thesis
  proof (cases "p = 8")
    case True
    then have "R = 0" using g(1) by simp
    then have "\<not> requested s k" if "k < 8" for k using R [OF that] by simp
    then show ?thesis using True unfolding W pic_get_irq_eq by (auto simp: Let_def p_def R_def s_def)
  next
    case False
    then have p8: "p < 8" and top: "bit R ?m" using g(1,2) by blast+
    have rm: "rank s ?m = p" by (rule rank_inverse(2) [OF a' p8])
    have "n = ?m \<longleftrightarrow> n < 8 \<and> requested s n \<and> (\<forall>k<8. requested s k \<longrightarrow> rank s n \<le> rank s k)"
    proof
      assume "n = ?m"
      then show "n < 8 \<and> requested s n \<and> (\<forall>k<8. requested s k \<longrightarrow> rank s n \<le> rank s k)"
        using top rm R g(3) by auto
    next
      assume n: "n < 8 \<and> requested s n \<and> (\<forall>k<8. requested s k \<longrightarrow> rank s n \<le> rank s k)"
      then have "rank s n \<le> p" using top R [of ?m] rm by (metis mod_less_divisor zero_less_numeral)
      moreover have "p \<le> rank s n" using n R g(3) by blast
      ultimately show "n = ?m" using rank_inverse(1) [OF a', of n] n by simp
    qed
    moreover have "pic_get_irq st i = Some n \<longleftrightarrow> n = ?m \<and> (\<forall>k<8. blocking s i k \<longrightarrow> p < rank s k)"
      using False less [OF p8] unfolding pic_get_irq_eq by (auto simp: Let_def p_def R_def s_def)
    ultimately show ?thesis unfolding W using rm by auto
  qed
qed

section \<open>Properties\<close>

lemma pics_upd: "pics (upd_pic i f st) j = (if i = j then f (pics st j) else pics st j)"
  by (simp add: pics_def upd_pic_def)

lemma pic_wf_pics: "pic_wf st \<Longrightarrow> \<exists>m. pic_ok m (pics st i)"
  by (auto simp: pic_wf_def pics_def)

lemma pic_wf_add: "pic_wf st \<Longrightarrow> unat (priority_add (pics st i)) < 8"
  using pic_wf_pics [of st i] by (auto simp: pic_ok_def word_less_nat_alt)

lemma pic_wf_base:
  assumes "pic_wf st"
  shows "unat (irq_base (pics st i)) \<le> 248"
proof -
  have "irq_base (pics st i) AND 7 = 0" using pic_wf_pics [OF assms, of i] by (auto simp: pic_ok_def)
  then have "unat (irq_base (pics st i)) mod 8 = 0"
    using unat_and_mask [of "irq_base (pics st i)" 3] by (simp add: mask_eq_exp_minus_1)
  moreover have "unat (irq_base (pics st i)) < 256" using unsigned_less [of "irq_base (pics st i)"] by simp
  ultimately show ?thesis by arith
qed

lemma pic_get_irq_cong: "pics st i = pics st' i \<Longrightarrow> pic_get_irq st i = pic_get_irq st' i"
  by (simp add: pic_get_irq_def)

lemma intack_base [simp]: "irq_base (pic_intack n s) = irq_base s"
  by (simp add: pic_intack_def Let_def)

text \<open>The vector that an acknowledge cycle returns, with the spurious vector 7 of a controller.\<close>

lemma pic_read_irq_vector:
  "fst (pic_read_irq st) =
     (case pic_get_irq st False of
        None \<Rightarrow> unat (irq_base (pics st False)) + 7
      | Some n \<Rightarrow>
          if n = 2 then unat (irq_base (pics st True)) + (case pic_get_irq st True of None \<Rightarrow> 7 | Some k \<Rightarrow> k)
          else unat (irq_base (pics st False)) + n)"
proof -
  have "pic_get_irq (upd_pic False f st) True = pic_get_irq st True" for f
    by (rule pic_get_irq_cong) (simp add: pics_upd)
  then show ?thesis by (simp add: pic_read_irq_def Let_def pics_upd split: option.split)
qed

lemma pic_get_irq_lt: "pic_get_irq st i = Some n \<Longrightarrow> n < 8"
  by (auto simp: pic_get_irq_def Let_def split: if_splits)

text \<open>
  C40: in every state that the controllers reach from initialization through any sequence of interrupt
  lines, register accesses, acknowledge cycles and resets the registers keep their ranges, and the
  vector of the next acknowledge cycle is a byte within the eight vectors of one of the controllers.
\<close>

lemma pic_reach_well_formed:
  assumes "pic_reach st"
  shows "pic_wf st \<and> fst (pic_read_irq st) < 256 \<and>
    (\<exists>i n. n < 8 \<and> fst (pic_read_irq st) = unat (irq_base (pics st i)) + n)"
proof -
  have wf: "pic_wf st" by (rule pic_reach_wf [OF assms])
  have "\<exists>i n. n < 8 \<and> fst (pic_read_irq st) = unat (irq_base (pics st i)) + n"
  proof (cases "pic_get_irq st False = Some 2")
    case True
    then show ?thesis using pic_get_irq_lt [of st True]
      by (intro exI [of _ True]) (auto simp: pic_read_irq_vector split: option.split)
  next
    case False
    then show ?thesis using pic_get_irq_lt [of st False]
      by (intro exI [of _ False]) (auto simp: pic_read_irq_vector split: option.split)
  qed
  then obtain i n where v: "n < 8" "fst (pic_read_irq st) = unat (irq_base (pics st i)) + n" by blast
  have "fst (pic_read_irq st) < 256" using v pic_wf_base [OF wf, of i] by linarith
  then show ?thesis using wf v by blast
qed

lemma pic_reach_well_formed_witness:
  "pic_reach (i8259_init False) \<and> pic_wf (i8259_init False) \<and> fst (pic_read_irq (i8259_init False)) < 256"
  using pic_reach_well_formed [OF pic_reach.start [of False]] pic_reach.start by blast

text \<open>
  C5: arbitration. pic_get_irq returns exactly the wanted input: the most urgent request that is not
  masked, if it is more urgent than everything in service. The acknowledge cycle returns its vector,
  that of the input wanted by the slave when the master selects the slave, and the spurious vector
  of the master when nothing is wanted.
\<close>

lemma pic_arbitration_correct:
  assumes "pic_wf st"
  shows "(\<forall>i n. pic_get_irq st i = Some n \<longleftrightarrow> wanted st i n) \<and>
    (wanted st False n \<and> n \<noteq> 2 \<longrightarrow> fst (pic_read_irq st) = unat (irq_base (pics st False)) + n) \<and>
    (wanted st False 2 \<and> wanted st True n \<longrightarrow> fst (pic_read_irq st) = unat (irq_base (pics st True)) + n) \<and>
    ((\<forall>k. \<not> wanted st False k) \<longrightarrow> fst (pic_read_irq st) = unat (irq_base (pics st False)) + 7)"
proof -
  have g: "pic_get_irq st i = Some k \<longleftrightarrow> wanted st i k" for i k
    by (rule pic_get_irq_wanted [OF pic_wf_add [OF assms]])
  then have "(\<forall>k. \<not> wanted st False k) \<longleftrightarrow> pic_get_irq st False = None" by (metis not_Some_eq)
  then show ?thesis by (simp add: g [symmetric] pic_read_irq_vector)
qed

definition pic_example :: PicState2 where
  "pic_example = upd_pic False (\<lambda>s. s\<lparr>irr := 0x22, imr := 0x02, isr := 0x40\<rparr>) (i8259_init False)"

lemma pic_arbitration_correct_witness:
  "pic_get_irq pic_example False = Some 5 \<and> fst (pic_read_irq pic_example) = 5"
proof -
  have wf: "pic_wf pic_example" unfolding pic_example_def by (rule pic_wf_upd [OF pic_wf_init]) simp
  have "wanted pic_example False 5"
    by (simp add: wanted_def requested_def blocking_def rank_def pic_example_def upd_pic_def pics_def
        i8259_init_def upt_rec)
  moreover have "irq_base (pics pic_example False) = 0"
    by (simp add: pic_example_def upd_pic_def pics_def i8259_init_def)
  ultimately show ?thesis using pic_arbitration_correct [OF wf, of 5] by simp
qed

end
