(* ===== verification/Spec2Isabelle.thy ===== *)
theory Spec2Isabelle
  imports TB_SMC Float32_Int Pic8259
begin

text \<open>
  Verification of the execution core of HQEMU (src/hqemu): the memory maps, the software TLB and
  the translation block cache that run guest code, the single precision floating point unit that
  the helpers of several guests call, and the interrupt controllers of the PC.

  \<^bold>\<open>How the parts interact.\<close> A CPU looks up the translated block of its program counter in its jump
  cache and then in the physical hash lists (tb_find_fast, tb_find_slow of cpu-exec.c), translates
  when there is none (tb_gen_code of exec.c) and patches the previous block to jump to the new one
  (tb_add_jump of exec-all.h). Blocks are listed in the descriptors of the guest pages that hold
  their code, which the table l1_map finds. Translating a page write-protects it through the dirty
  bytes of RAM and the TLB. A write to such a page comes back as tb_invalidate_phys_page_fast, which
  removes the blocks that it touches. An interrupt unchains the running block so that the CPU
  returns to its main loop; the interrupt number comes from the pair of 8259 controllers.

  \<^bold>\<open>Configuration.\<close> The core is modelled for an x86-64 guest on an x86-64 host in the system
  emulator. The floating point unit is modelled as it is compiled for the ARM, PowerPC and Alpha
  guests.

  \<^bold>\<open>Conventions.\<close> Machine integers are words of their width. A C function that can dereference a null
  pointer, abort, fail an assertion or index out of bounds returns a fault or its result
  (HQ_Prelude). Structures are records with the names of the source, arrays of fixed size are
  functions of the index, pointers to blocks are indices, tagged pointers are pairs of index and tag.

  \<^bold>\<open>Theories.\<close>
  \<^item> HQ_Prelude: machine types, faults, segments of linked lists, masks.
  \<^item> Page_Map: l1_map and l1_phys_map (exec.c: page_find_alloc, phys_page_find_alloc, page_flush_tb).
    The locale \<open>page_map\<close> is their contract, a partial map from page indices to descriptors, with an
    interpretation for each table. The descriptor filled by phys_page_find_alloc is shown to be off
    by the index of the page.
  \<^item> RAM_Blocks: the list of RAM blocks (exec.c: find_ram_offset, qemu_ram_alloc, qemu_ram_free,
    qemu_get_ram_ptr, qemu_ram_addr_from_host) and the dirty bytes (cpu-all.h). Blocks never overlap,
    the two address translations are inverse.
  \<^item> Soft_TLB: flushing, filling and dirty tracking of the TLB, the region of large pages, watchpoints
    (exec.c: tlb_flush_page, tlb_add_large_page, tlb_set_page, cpu_physical_memory_reset_dirty,
    cpu_watchpoint_insert). After a flush no entry and no jump cache slot of the page is left; an
    entry lets a write go straight to RAM exactly when the page is fully dirty.
  \<^item> Jmp_Patch: the stores of tb_set_jmp_target1 (exec-all.h), and that after each of them the
    instruction is a branch to itself or the finished jump.
  \<^item> Slot_List: the contract of the three removal loops of the cache, the locale \<open>slot_list\<close>,
    interpreted in TB_Cache for tb_remove, tb_page_remove and the loop of tb_jmp_remove.
  \<^item> TB_Cache: the operations of the block cache. TB_Inv: the pointer lists refine abstract lists and
    each operation acts on them as its abstract counterpart. The abstract state keeps, beside the
    live blocks, the blocks invalidated since the last flush (\<open>adead\<close>, \<open>known\<close>): a CPU can still leave
    such a block and tb_add_jump then chains it, because tb_find_slow clears tb_invalidated_flag.
    TB_Code: the bytes of the patched jumps, and the step relation \<open>tb_step\<close> of the cache, in which
    every step has page tables, a translator and flush answers of its own and the block that was left
    may be any block made since the last flush. In every reachable state every direct jump of a live
    block goes to its own exit or to the live block that it is linked to, and lookups do not fail.
    tb_find_slow is compared with \<open>translates\<close>, which says that each byte of the guest code of a block is
    where the page tables map it.
  \<^item> TB_Unchain: tb_reset_jump_recursive and cpu_interrupt (exec.c): afterwards the interrupted CPU
    cannot stay in chained code, unless instructions are counted (use_icount), when the countdown
    stops it and nothing is unchained.
  \<^item> Page_Bitmap, TB_SMC: the code bitmap of a page and tb_invalidate_phys_page_range: exactly the
    blocks whose guest code the write touches are removed. Both are stated with \<open>code_bytes\<close>, the
    physical addresses that the guest code of a block was read from. A block with the same physical
    page as its first and second page is excluded there, and shown to make the function fault when
    both of its parts are touched.
  \<^item> Float_Macros: the integer primitives of fpu/softfloat-macros.h against arithmetic on naturals.
  \<^item> Float32: status, NaNs, packing, rounding, add, sub, mul, div of fpu/softfloat.c. Float32_Round:
    values in units of 2^-149, what correct rounding is, and that roundAndPackFloat32 rounds
    correctly. Float32_Arith: the four operations are correctly rounded. Float32_Special: NaNs,
    infinities, division by zero. Float32_Conv: the conversions and comparisons, and that the
    comparisons decide the order of the values. Float32_Int: conversions from integers and to 32-bit
    integers, their round trip, scaling. The conversions to 64-bit and unsigned integers and
    float32_round_to_int are defined and have no theorem.
  \<^item> Pic8259: the 8259 controllers (hw/i8259.c) with their entry points as a step relation; registers
    stay in range, and arbitration selects the most urgent request by a declarative definition.

  \<^bold>\<open>Bounds.\<close> A loop over a list of the block cache has fuel \<open>list_fuel\<close>, twice the number of blocks plus
  two: a list holds each block at most twice (two pages, two jumps) and the refinement lemmas show
  that no operation runs out of it on a well-formed cache. The nesting of tb_reset_jump_recursive is
  bounded in the same way: each call removes a link. The loop of tlb_add_large_page has 64
  rounds, and the mask is shown to be found within them. The binary search of tb_find_pc and the loop
  of get_priority are total functions: the first shrinks its interval, the second ends because its
  byte mask is not zero. The shift counts of the floating point unit are natural numbers.
  float32_scalbn is stated for scale factors up to 2^200 and results that do not overflow.

  \<^bold>\<open>Parameters.\<close> The translator is a function from the block and the code memory to the block with
  its size and jump offsets, the memory with the host code and its length; \<open>gen_ok\<close> of TB_Code says
  that it keeps to its part of the code buffer and makes blocks of at most a page of guest code.
  Translating a block needs the guest page of its pc and the next one in RAM (\<open>phys_ok\<close>), and that
  the LLVM optimizer does not ask for a flush a second time while a block is made: tb_gen_code would
  then use the null pointer that tb_alloc returned. The host allocator, the page table walk of the
  target (get_page_addr_code), the restore of the CPU state inside a block and the answers of the host
  thread library are arguments. Each property that assumes something of them is applied to a concrete
  instance.

  \<^bold>\<open>Not modelled.\<close> The code generator and the guest decoders (tcg/, target-*): an instruction set
  semantics is a development of its own. The LLVM translator (llvm/), which is written against a
  library that is not part of the repository. Device memory access and I/O regions (exec.c after the
  RAM functions, ioport.c, softmmu_template.h), which dispatch to callbacks. The other formats of the
  floating point unit and the single precision remainder, square root, exp2 and log2. The devices
  other than the interrupt controllers, the block layer, networking, user interfaces, main loop,
  monitor, migration and user-mode emulation: they are host I/O around the core. Of the cache,
  breakpoints and single stepping; of the interrupt controllers, port registration and the printing
  of the registers.
\<close>

end
